(* ===== verification/Netfish_Prelude.thy ===== *)
theory Netfish_Prelude
  imports Main "HOL-Library.Word"
begin

text \<open>
  Shared vocabulary of the development: the faults that end a netfish process, the result
  type of operations that may end in one, the machine integers of the sources, and the
  generic lemmas on results, lists and words that the component theories use.

  The library is built without \<^verbatim>\<open>NDEBUG\<close> (\<^verbatim>\<open>netfish.mk\<close>), so every \<^verbatim>\<open>assert\<close> of the sources is
  live: a failing one is the fault \<open>AssertFailure\<close>. \<^verbatim>\<open>LOG_FATAL\<close> calls \<^verbatim>\<open>abort\<close>: the fault
  \<open>FatalLog\<close>, which also stands for direct calls of \<^verbatim>\<open>abort\<close>. The remaining faults stand for what the language leaves undefined or what
  its library throws: reading or writing outside an array, using a pointer to a freed or
  absent object, asking a vector for more than its maximal size, calling an empty
  \<^verbatim>\<open>boost::function\<close>.
\<close>

section \<open>Results\<close>

datatype fault =
    AssertFailure
  | FatalLog
  | OutOfBounds
  | DanglingPointer
  | LengthError
  | BadAlloc
  | BadFunctionCall

type_synonym 'a result = "fault + 'a"

fun rbind :: "'a result \<Rightarrow> ('a \<Rightarrow> 'b result) \<Rightarrow> 'b result" where
  "rbind (Inl e) f = Inl e"
| "rbind (Inr x) f = f x"

definition check :: "bool \<Rightarrow> fault \<Rightarrow> unit result" where
  "check b e = (if b then Inr () else Inl e)"

text \<open>A loop over a container that stops at the first fault.\<close>

fun rfold :: "('a \<Rightarrow> 's \<Rightarrow> 's result) \<Rightarrow> 'a list \<Rightarrow> 's \<Rightarrow> 's result" where
  "rfold f [] s = Inr s"
| "rfold f (x # xs) s = rbind (f x s) (rfold f xs)"

text \<open>
  A specification of a result: it is a normal value with property \<open>Q\<close>, or one of the faults
  in \<open>E\<close>. With \<open>E\<close> empty it says that the operation returns.
\<close>

definition yields :: "fault set \<Rightarrow> ('a \<Rightarrow> bool) \<Rightarrow> 'a result \<Rightarrow> bool" where
  "yields E Q r = (case r of Inl e \<Rightarrow> e \<in> E | Inr x \<Rightarrow> Q x)"

section \<open>Machine integers\<close>

type_synonym byte = "8 word"
type_synonym size_t = "64 word"
type_synonym addr = "64 word"
type_synonym fd = int

text \<open>
  Signed 64-bit and 32-bit arithmetic as the target machine computes it: the value modulo
  \<open>2 ^ 64\<close> or \<open>2 ^ 32\<close>, read in two's complement.
\<close>

definition i64 :: "int \<Rightarrow> int" where
  "i64 x = (x + 2 ^ 63) mod 2 ^ 64 - 2 ^ 63"

definition in_i64 :: "int \<Rightarrow> bool" where
  "in_i64 x \<longleftrightarrow> - (2 ^ 63) \<le> x \<and> x < 2 ^ 63"

definition i32 :: "int \<Rightarrow> int" where
  "i32 x = (x + 2 ^ 31) mod 2 ^ 32 - 2 ^ 31"

text \<open>Division and remainder of C++: the quotient is rounded towards zero.\<close>

definition cdiv :: "int \<Rightarrow> int \<Rightarrow> int" where
  "cdiv a b = sgn a * sgn b * (\<bar>a\<bar> div \<bar>b\<bar>)"

definition cmod :: "int \<Rightarrow> int \<Rightarrow> int" where
  "cmod a b = a - b * cdiv a b"

section \<open>Collections of facts\<close>

named_theorems model_eval \<open>definitions to unfold when an operation is run on a concrete state\<close>

section \<open>Lemmas on results\<close>

lemma rbind_Inr_iff [simp]: "rbind m f = Inr y \<longleftrightarrow> (\<exists>x. m = Inr x \<and> f x = Inr y)"
  by (cases m) auto

lemma rbind_Inl_iff: "rbind m f = Inl e \<longleftrightarrow> m = Inl e \<or> (\<exists>x. m = Inr x \<and> f x = Inl e)"
  by (cases m) auto

lemma rbind_assoc: "rbind (rbind m f) g = rbind m (\<lambda>x. rbind (f x) g)"
  by (cases m) auto

lemma rbind_return [simp]: "rbind m Inr = m"
  by (cases m) auto

lemma check_Inr_iff [simp]: "check b e = Inr u \<longleftrightarrow> b"
  by (simp add: check_def)

lemma check_True [simp]: "check True e = Inr ()"
  by (simp add: check_def)

lemma check_False [simp]: "check False e = Inl e"
  by (simp add: check_def)

lemma rfold_Nil_fun [simp]: "rfold f [] = Inr"
  by (rule ext) simp

lemma rbind_cong: "(\<And>x. m = Inr x \<Longrightarrow> f x = g x) \<Longrightarrow> rbind m f = rbind m g"
  by (cases m) auto

lemma rfold_append: "rfold f (xs @ ys) s = rbind (rfold f xs s) (rfold f ys)"
proof (induction xs arbitrary: s)
  case (Cons x xs)
  then have "rfold f (xs @ ys) = (\<lambda>s. rbind (rfold f xs s) (rfold f ys))" by blast
  then show ?case by (simp add: rbind_assoc)
qed simp

text \<open>
  The two rules for loops: an invariant of the remaining work that each iteration keeps
  holds at the end if the loop ends normally, and an invariant under which no iteration
  faults makes the loop end normally.
\<close>

lemma rfold_invariant:
  assumes "rfold f xs s = Inr s'" and "I xs s"
    and "\<And>x ys s s'. I (x # ys) s \<Longrightarrow> f x s = Inr s' \<Longrightarrow> I ys s'"
  shows "I [] s'"
  using assms(1,2)
proof (induction xs arbitrary: s)
  case (Cons x xs)
  then show ?case using assms(3) by fastforce
qed simp

lemma rfold_total:
  assumes "I xs s"
    and "\<And>x ys s. I (x # ys) s \<Longrightarrow> \<exists>s'. f x s = Inr s' \<and> I ys s'"
  shows "\<exists>s'. rfold f xs s = Inr s' \<and> I [] s'"
  using assms(1)
proof (induction xs arbitrary: s)
  case (Cons x xs)
  from assms(2)[OF Cons.prems] obtain t where "f x s = Inr t" "I xs t" by blast
  with Cons.IH[of t] show ?case by simp
qed simp

text \<open>Rules for \<open>yields\<close>, one per construct.\<close>

lemma yields_Inr [simp]: "yields E Q (Inr x) = Q x"
  by (simp add: yields_def)

lemma yields_Inl [simp]: "yields E Q (Inl e) = (e \<in> E)"
  by (simp add: yields_def)

lemma yields_check [simp]: "yields E Q (check b e) = (if b then Q () else e \<in> E)"
  by (simp add: check_def)

lemma yields_bind:
  assumes "yields E P m" and "\<And>x. m = Inr x \<Longrightarrow> P x \<Longrightarrow> yields E Q (f x)"
  shows "yields E Q (rbind m f)"
  using assms by (cases m) auto

lemma yields_mono: "yields E P r \<Longrightarrow> (\<And>x. P x \<Longrightarrow> Q x) \<Longrightarrow> yields E Q r"
  by (cases r) auto

lemma yields_conj: "yields E P r \<Longrightarrow> yields E Q r \<Longrightarrow> yields E (\<lambda>x. P x \<and> Q x) r"
  by (cases r) auto

lemma yields_True: "yields E P r \<Longrightarrow> yields E (\<lambda>_. True) r"
  by (cases r) auto

lemma yieldsD: "yields E Q r \<Longrightarrow> r = Inr x \<Longrightarrow> Q x"
  by simp

lemma yields_returns: "yields {} Q r \<longleftrightarrow> (\<exists>x. r = Inr x \<and> Q x)"
  by (cases r) auto

lemma yields_rfold:
  assumes "I xs s" and "\<And>x ys s. I (x # ys) s \<Longrightarrow> yields E (I ys) (f x s)"
  shows "yields E (I []) (rfold f xs s)"
  using assms(1)
proof (induction xs arbitrary: s)
  case (Cons x xs)
  from assms(2) [OF Cons.prems] Cons.IH show ?case by (auto intro: yields_bind)
qed simp

section \<open>Machines\<close>

text \<open>
  Most components are shown correct over sequences of operations: a step function on their state, a
  condition under which an operation may be used, and an invariant. \<open>run_ok\<close> says that every
  operation of a sequence meets its condition in the state in which it is used.
\<close>

fun run_ok :: "('op \<Rightarrow> 's \<Rightarrow> bool) \<Rightarrow> ('op \<Rightarrow> 's \<Rightarrow> 's result) \<Rightarrow> 'op list \<Rightarrow> 's \<Rightarrow> bool" where
  "run_ok ok step [] s = True"
| "run_ok ok step (op # ops) s = (ok op s \<and>
     (case step op s of Inl _ \<Rightarrow> True | Inr s' \<Rightarrow> run_ok ok step ops s'))"

lemma run_ok_always [simp]: "run_ok (\<lambda>_ _. True) step ops s"
  by (induction ops arbitrary: s) (auto split: sum.split)

text \<open>A machine whose steps keep an invariant, and one whose steps also never fault.\<close>

locale machine =
  fixes step :: "'op \<Rightarrow> 's \<Rightarrow> 's result" and ok :: "'op \<Rightarrow> 's \<Rightarrow> bool" and inv :: "'s \<Rightarrow> bool"
  assumes step_inv: "inv s \<Longrightarrow> ok op s \<Longrightarrow> step op s = Inr s' \<Longrightarrow> inv s'"
begin

lemma run_inv: "inv s \<Longrightarrow> run_ok ok step ops s \<Longrightarrow> rfold step ops s = Inr s' \<Longrightarrow> inv s'"
proof (induction ops arbitrary: s)
  case (Cons op ops)
  then obtain s1 where "step op s = Inr s1" "rfold step ops s1 = Inr s'" by auto
  with Cons step_inv show ?case by auto
qed simp

end

locale total_machine = machine +
  assumes step_total: "inv s \<Longrightarrow> ok op s \<Longrightarrow> \<exists>s'. step op s = Inr s'"
begin

lemma run_total: "inv s \<Longrightarrow> run_ok ok step ops s \<Longrightarrow> \<exists>s'. rfold step ops s = Inr s' \<and> inv s'"
proof (induction ops arbitrary: s)
  case (Cons op ops)
  then obtain s1 where "step op s = Inr s1" using step_total by fastforce
  with Cons step_inv show ?case by auto
qed simp

end

section \<open>Lemmas on machine integers\<close>

lemma i64_range [simp]: "in_i64 (i64 x)"
proof -
  have "0 \<le> (x + 2 ^ 63) mod 2 ^ 64" "(x + 2 ^ 63) mod 2 ^ 64 < (2::int) ^ 64"
    by simp_all
  then show ?thesis by (simp add: in_i64_def i64_def)
qed

lemma i64_id: "in_i64 x \<Longrightarrow> i64 x = x"
  by (simp add: in_i64_def i64_def)

lemma i64_idem [simp]: "i64 (i64 x) = i64 x"
  by (simp add: i64_id)

lemma cdiv_nonneg: "0 \<le> a \<Longrightarrow> 0 < b \<Longrightarrow> cdiv a b = a div b"
  by (auto simp: cdiv_def sgn_if)

lemma cmod_nonneg: "0 \<le> a \<Longrightarrow> 0 < b \<Longrightarrow> cmod a b = a mod b"
  by (simp add: cmod_def cdiv_nonneg minus_mult_div_eq_mod)

text \<open>The value of a length as a \<open>size_t\<close>, while lengths stay below \<open>2 ^ 64\<close>.\<close>

lemma unat_of_length: "n < 2 ^ 64 \<Longrightarrow> unat (word_of_nat n :: size_t) = n"
  by (simp add: unat_of_nat take_bit_eq_mod)

lemma unat_add_size: "unat a + unat b < 2 ^ 64 \<Longrightarrow> unat (a + b :: size_t) = unat a + unat b"
  by (simp add: unat_word_ariths)

lemma unat_sub_size: "unat b \<le> unat a \<Longrightarrow> unat (a - b :: size_t) = unat a - unat b"
  by (simp add: unat_sub word_le_nat_alt)

lemmas size_arith = unat_add_size unat_sub_size unat_of_length word_le_nat_alt word_less_nat_alt

section \<open>Lemmas on lists\<close>

text \<open>The part of a list between two positions, and blocks stored at a position.\<close>

definition segment :: "nat \<Rightarrow> nat \<Rightarrow> 'a list \<Rightarrow> 'a list" where
  "segment i j xs = take (j - i) (drop i xs)"

definition store_block :: "nat \<Rightarrow> 'a list \<Rightarrow> 'a list \<Rightarrow> 'a list" where
  "store_block i ys xs = take i xs @ ys @ drop (i + length ys) xs"

lemma length_segment [simp]: "j \<le> length xs \<Longrightarrow> length (segment i j xs) = j - i"
  by (simp add: segment_def)

lemma segment_same [simp]: "segment i i xs = []"
  by (simp add: segment_def)

lemma segment_Suc_front:
  assumes "i < j" "j \<le> length xs"
  shows "segment i j xs = xs ! i # segment (Suc i) j xs"
proof -
  have "drop i xs = xs ! i # drop (Suc i) xs" using assms by (simp add: Cons_nth_drop_Suc)
  moreover have "j - i = Suc (j - Suc i)" using assms by simp
  ultimately show ?thesis by (simp add: segment_def)
qed

lemma segment_drop: "segment (i + k) j xs = drop k (segment i j xs)"
  by (simp add: segment_def drop_take add.commute)

lemma segment_split: "i \<le> k \<Longrightarrow> k \<le> j \<Longrightarrow> segment i j xs = segment i k xs @ segment k j xs"
proof -
  assume "i \<le> k" "k \<le> j"
  then have "j - i = (k - i) + (j - k)" by simp
  then have "segment i j xs = take (k - i) (drop i xs) @ take (j - k) (drop (k - i) (drop i xs))"
    by (simp add: segment_def take_add)
  with \<open>i \<le> k\<close> show ?thesis by (simp add: segment_def)
qed

lemma length_store_block [simp]:
  "i + length ys \<le> length xs \<Longrightarrow> length (store_block i ys xs) = length xs"
  by (simp add: store_block_def)

lemma segment_store_block_same [simp]:
  "i + length ys \<le> length xs \<Longrightarrow> segment i (i + length ys) (store_block i ys xs) = ys"
  by (simp add: segment_def store_block_def)

lemma segment_store_block_below [simp]:
  "j \<le> i \<Longrightarrow> i \<le> length xs \<Longrightarrow> segment k j (store_block i ys xs) = segment k j xs"
  by (cases "k \<le> j") (simp_all add: segment_def store_block_def drop_take min_def)

lemma segment_store_block_above [simp]:
  "i + length ys \<le> k \<Longrightarrow> i + length ys \<le> length xs \<Longrightarrow>
   segment k j (store_block i ys xs) = segment k j xs"
  by (simp add: segment_def store_block_def)

lemma segment_append1 [simp]: "j \<le> length xs \<Longrightarrow> segment i j (xs @ ys) = segment i j xs"
  by (cases "i \<le> j") (simp_all add: segment_def)

lemma segment_take [simp]: "j \<le> n \<Longrightarrow> segment i j (take n xs) = segment i j xs"
  by (cases "i \<le> j") (simp_all add: segment_def drop_take min_def)

end
