(* ===== verification/Text_Format.thy ===== *)
theory Text_Format
  imports Netfish_Prelude
begin

text \<open>
  What the sources use of \<^verbatim>\<open>snprintf\<close>: decimal integers, zero padding to a width, and the
  truncation to the size of the target array. With the reading of decimal numbers, which
  gives the round trips of the formatted texts.
\<close>

definition digit_char :: "nat \<Rightarrow> char" where
  "digit_char d = char_of (48 + d)"

fun show_nat :: "nat \<Rightarrow> string" where
  "show_nat n = (if n < 10 then [digit_char n] else show_nat (n div 10) @ [digit_char (n mod 10)])"

declare show_nat.simps [simp del]

definition show_int :: "int \<Rightarrow> string" where
  "show_int i = (if i < 0 then ''-'' @ show_nat (nat (- i)) else show_nat (nat i))"

text \<open>\<^verbatim>\<open>%0wd\<close>: the sign counts for the width and stands before the zeros.\<close>

definition zeros :: "nat \<Rightarrow> string" where
  "zeros n = replicate n (digit_char 0)"

definition show_int_pad :: "nat \<Rightarrow> int \<Rightarrow> string" where
  "show_int_pad w i =
     (let s = show_nat (nat \<bar>i\<bar>) in
      if i < 0 then ''-'' @ zeros (w - Suc (length s)) @ s else zeros (w - length s) @ s)"

text \<open>\<^verbatim>\<open>snprintf(buf, n, ...)\<close> keeps at most \<open>n - 1\<close> characters.\<close>

definition snprintf :: "nat \<Rightarrow> string \<Rightarrow> string" where
  "snprintf n s = take (n - 1) s"

definition digit_val :: "char \<Rightarrow> nat option" where
  "digit_val c = (let k = of_char c :: nat in if 48 \<le> k \<and> k < 58 then Some (k - 48) else None)"

fun read_nat_acc :: "nat \<Rightarrow> string \<Rightarrow> nat option" where
  "read_nat_acc a [] = Some a"
| "read_nat_acc a (c # cs) =
     (case digit_val c of None \<Rightarrow> None | Some d \<Rightarrow> read_nat_acc (10 * a + d) cs)"

definition read_nat :: "string \<Rightarrow> nat option" where
  "read_nat s = (if s = [] then None else read_nat_acc 0 s)"

definition is_digit :: "char \<Rightarrow> bool" where
  "is_digit c \<longleftrightarrow> digit_val c \<noteq> None"

text \<open>
  \<^verbatim>\<open>atoi\<close>: white space, an optional sign and digits, up to the first character that does not fit; the
  value is that of \<^verbatim>\<open>strtol\<close>, which stays within the range of \<^verbatim>\<open>long\<close>, cut to an \<^verbatim>\<open>int\<close>.
\<close>

definition is_space :: "char \<Rightarrow> bool" where
  "is_space c \<longleftrightarrow> (let k = of_char c :: nat in k = 32 \<or> 9 \<le> k \<and> k \<le> 13)"

definition strtol :: "string \<Rightarrow> int" where
  "strtol s =
     (let t = dropWhile is_space s;
          neg = (t \<noteq> [] \<and> hd t = CHR ''-'');
          digits = takeWhile is_digit (if t \<noteq> [] \<and> (hd t = CHR ''-'' \<or> hd t = CHR ''+'') then tl t else t);
          n = (case read_nat_acc 0 digits of None \<Rightarrow> 0 | Some n \<Rightarrow> n)
      in if neg then max (- (2 ^ 63)) (- int n) else min (2 ^ 63 - 1) (int n))"

definition atoi :: "string \<Rightarrow> int" where
  "atoi s = i32 (strtol s)"

section \<open>Digits\<close>

lemma digit_val_char [simp]: "d < 10 \<Longrightarrow> digit_val (digit_char d) = Some d"
  by (simp add: digit_val_def digit_char_def)

lemma show_nat_nonempty [simp]: "show_nat n \<noteq> []"
  by (subst show_nat.simps) simp

lemma show_nat_digits: "c \<in> set (show_nat n) \<Longrightarrow> is_digit c"
proof (induction n rule: show_nat.induct)
  case (1 n)
  then show ?case
    by (cases "n < 10") (auto simp: show_nat.simps [of n] is_digit_def)
qed

lemma read_nat_acc_append:
  "read_nat_acc a (s @ t) = Option.bind (read_nat_acc a s) (\<lambda>b. read_nat_acc b t)"
  by (induction s arbitrary: a) (auto split: option.splits)

lemma read_show_nat: "read_nat_acc 0 (show_nat n) = Some n"
proof (induction n rule: show_nat.induct)
  case (1 n)
  then show ?case
    by (cases "n < 10") (simp_all add: show_nat.simps [of n] read_nat_acc_append)
qed

lemma read_nat_zeros [simp]: "read_nat_acc 0 (zeros k @ s) = read_nat_acc 0 s"
  by (induction k) (simp_all add: zeros_def)

lemma read_nat_show [simp]: "read_nat (show_nat n) = Some n"
  by (simp add: read_nat_def read_show_nat)

lemma read_nat_padded [simp]: "read_nat (zeros k @ show_nat n) = Some n"
  by (simp add: read_nat_def read_show_nat)

lemma show_nat_inject [simp]: "show_nat m = show_nat n \<longleftrightarrow> m = n"
  by (metis option.inject read_nat_show)

lemma length_show_nat: "n < 10 ^ Suc k \<Longrightarrow> length (show_nat n) \<le> Suc k"
proof (induction k arbitrary: n)
  case 0
  then show ?case by (simp add: show_nat.simps [of n])
next
  case (Suc k)
  have "n div 10 < 10 ^ Suc k" using Suc.prems by (simp add: less_mult_imp_div_less mult.commute)
  then have "length (show_nat (n div 10)) \<le> Suc k" by (rule Suc.IH)
  then show ?case by (simp add: show_nat.simps [of n])
qed

lemma length_show_nat_pos [simp]: "0 < length (show_nat n)"
  by simp

lemma show_int_nonneg: "0 \<le> i \<Longrightarrow> show_int i = show_nat (nat i)"
  by (simp add: show_int_def)

lemma show_int_pad_nonneg:
  "0 \<le> i \<Longrightarrow> show_int_pad w i = zeros (w - length (show_nat (nat i))) @ show_nat (nat i)"
  by (simp add: show_int_pad_def Let_def)

lemma length_show_int_pad: "0 \<le> i \<Longrightarrow> nat i < 10 ^ Suc k \<Longrightarrow> length (show_int_pad (Suc k) i) = Suc k"
  using length_show_nat [of "nat i" k] by (simp add: show_int_pad_nonneg zeros_def)

lemma digit_notin_show: "\<not> is_digit c \<Longrightarrow> c \<notin> set (show_nat n)"
  using show_nat_digits by blast

lemma not_digit_punct [simp]:
  "\<not> is_digit CHR ''.''" "\<not> is_digit CHR '':''" "\<not> is_digit CHR ''#''" "\<not> is_digit CHR ''-''"
  by (simp_all add: is_digit_def digit_val_def)

text \<open>Reading a printed number.\<close>

lemma not_space_digit: "is_digit c \<Longrightarrow> \<not> is_space c \<and> c \<noteq> CHR ''-'' \<and> c \<noteq> CHR ''+''"
  by (auto simp: is_digit_def digit_val_def is_space_def Let_def split: if_splits)

lemma takeWhile_digits [simp]: "takeWhile is_digit (show_nat n) = show_nat n"
  by (simp add: takeWhile_eq_all_conv show_nat_digits)

lemma strtol_show_int:
  assumes "in_i64 i"
  shows "strtol (show_int i) = i"
proof (cases "i < 0")
  case True
  have "\<not> is_space CHR ''-''" by (simp add: is_space_def)
  then show ?thesis using True assms by (simp add: strtol_def show_int_def read_show_nat in_i64_def)
next
  case False
  obtain c cs where c: "show_nat (nat i) = c # cs" by (cases "show_nat (nat i)") auto
  then have "is_digit c" using show_nat_digits [of c "nat i"] by simp
  then have "\<not> is_space c" "c \<noteq> CHR ''-''" "c \<noteq> CHR ''+''" using not_space_digit by auto
  then show ?thesis
    using False assms takeWhile_digits [of "nat i"] read_show_nat [of "nat i"] c
    by (simp add: strtol_def show_int_def in_i64_def Let_def)
qed

lemma atoi_show_int: "- (2 ^ 31) \<le> i \<Longrightarrow> i < 2 ^ 31 \<Longrightarrow> atoi (show_int i) = i"
  by (simp add: atoi_def strtol_show_int in_i64_def i32_def)

text \<open>Splitting at the first character that is not a digit.\<close>

lemma takeWhile_show_nat [simp]:
  "\<not> is_digit c \<Longrightarrow> takeWhile is_digit (show_nat n @ c # t) = show_nat n"
  by (simp add: takeWhile_append2 show_nat_digits)

lemma dropWhile_show_nat [simp]:
  "\<not> is_digit c \<Longrightarrow> dropWhile is_digit (show_nat n @ c # t) = c # t"
  by (simp add: dropWhile_append2 show_nat_digits)

end
