(* ===== verification/Timestamp.thy ===== *)
theory Timestamp
  imports Text_Format "HOL-Library.Product_Lexorder"
begin

text \<open>
  \<^verbatim>\<open>Timestamp.h\<close> and \<^verbatim>\<open>Timestamp.cc\<close>: microseconds since the epoch in a signed 64-bit integer,
  computed modulo \<open>2 ^ 64\<close> as the machine does. Seconds given as a \<^verbatim>\<open>double\<close> are finite doubles,
  an integer mantissa of at most 53 bits times a power of two, and their product with
  1000000 is rounded to 53 bits (to nearest, ties to even) as the hardware rounds it.
  \<^verbatim>\<open>gettimeofday\<close> and \<^verbatim>\<open>gmtime_r\<close> are arguments.
\<close>

section \<open>Timestamps\<close>

datatype timestamp = Timestamp (microSecondsSinceEpoch: int)

definition operator_less :: "timestamp \<Rightarrow> timestamp \<Rightarrow> bool" where
  "operator_less lhs rhs \<longleftrightarrow> microSecondsSinceEpoch lhs < microSecondsSinceEpoch rhs"

definition operator_eq :: "timestamp \<Rightarrow> timestamp \<Rightarrow> bool" where
  "operator_eq lhs rhs \<longleftrightarrow> microSecondsSinceEpoch lhs = microSecondsSinceEpoch rhs"

instantiation timestamp :: linorder
begin

definition less_timestamp :: "timestamp \<Rightarrow> timestamp \<Rightarrow> bool" where
  "less_timestamp = operator_less"

definition less_eq_timestamp :: "timestamp \<Rightarrow> timestamp \<Rightarrow> bool" where
  "less_eq_timestamp lhs rhs = (microSecondsSinceEpoch lhs \<le> microSecondsSinceEpoch rhs)"

instance
  by standard (auto simp: less_timestamp_def operator_less_def less_eq_timestamp_def timestamp.expand)

end

declare operator_less_def [simp]

lemma operator_eq_iff [simp]: "operator_eq lhs rhs \<longleftrightarrow> lhs = rhs"
  by (auto simp: operator_eq_def intro: timestamp.expand)

definition kMicroSecondsPerSecond :: int where
  "kMicroSecondsPerSecond = 1000 * 1000"

definition swap_timestamp :: "timestamp \<Rightarrow> timestamp \<Rightarrow> timestamp \<times> timestamp" where
  "swap_timestamp this that = (that, this)"

definition valid :: "timestamp \<Rightarrow> bool" where
  "valid t \<longleftrightarrow> microSecondsSinceEpoch t > 0"

definition invalid :: timestamp where
  "invalid = Timestamp 0"

text \<open>\<^verbatim>\<open>Timestamp::now\<close>, from the \<^verbatim>\<open>timeval\<close> that \<^verbatim>\<open>gettimeofday\<close> filled in.\<close>

definition now_of :: "int \<Rightarrow> int \<Rightarrow> timestamp" where
  "now_of tv_sec tv_usec = Timestamp (i64 (i64 (tv_sec * kMicroSecondsPerSecond) + tv_usec))"

section \<open>Seconds as doubles\<close>

record double =
  mant :: int
  expo :: int

definition is_double :: "double \<Rightarrow> bool" where
  "is_double d \<longleftrightarrow> \<bar>mant d\<bar> < 2 ^ 53"

definition double_pos :: "double \<Rightarrow> bool" where
  "double_pos d \<longleftrightarrow> 0 < mant d"

definition double_of_int :: "int \<Rightarrow> double" where
  "double_of_int n = \<lparr>mant = n, expo = 0\<rparr>"

fun bit_length :: "nat \<Rightarrow> nat" where
  "bit_length n = (if n = 0 then 0 else Suc (bit_length (n div 2)))"

declare bit_length.simps [simp del]

definition round53 :: "nat \<Rightarrow> nat" where
  "round53 m =
     (let k = bit_length m - 53; q = m div 2 ^ k; r = m mod 2 ^ k; half = 2 ^ k div 2 in
      (if half < r \<or> (r = half \<and> 0 < k \<and> odd q) then Suc q else q) * 2 ^ k)"

text \<open>\<^verbatim>\<open>static_cast<int64_t>(seconds * kMicroSecondsPerSecond)\<close>; a value outside the range of the
  type gives the machine's indefinite integer.\<close>

definition micros_of_double :: "double \<Rightarrow> int" where
  "micros_of_double d =
     (let p = round53 (nat \<bar>mant d\<bar> * nat kMicroSecondsPerSecond);
          a = (if 0 \<le> expo d then p * 2 ^ nat (expo d) else p div 2 ^ nat (- expo d));
          v = sgn (mant d) * int a
      in if in_i64 v then v else - (2 ^ 63))"

definition addTime :: "timestamp \<Rightarrow> double \<Rightarrow> timestamp" where
  "addTime t seconds = Timestamp (i64 (microSecondsSinceEpoch t + micros_of_double seconds))"

text \<open>
  The value \<open>m * 2 ^ e\<close> as a double; and the quotient of two positive integers, computed with enough
  bits for the rounding, the last of which says whether anything was cut off.
\<close>

definition mk_double :: "nat \<Rightarrow> int \<Rightarrow> double" where
  "mk_double m e =
     (let j = bit_length m - 53; r = round53 m div 2 ^ j in
      if r = 2 ^ 53 then \<lparr>mant = 2 ^ 52, expo = e + int j + 1\<rparr> else \<lparr>mant = int r, expo = e + int j\<rparr>)"

definition double_quot :: "nat \<Rightarrow> nat \<Rightarrow> double" where
  "double_quot a b =
     (let k = 53 + bit_length b; q = a * 2 ^ k div b in
      mk_double (2 * q + (if a * 2 ^ k mod b = 0 then 0 else 1)) (- int (Suc k)))"

definition timeDifference :: "timestamp \<Rightarrow> timestamp \<Rightarrow> double" where
  "timeDifference high low =
     (let diff = i64 (microSecondsSinceEpoch high - microSecondsSinceEpoch low);
          d = double_quot (round53 (nat \<bar>diff\<bar>)) (nat kMicroSecondsPerSecond)
      in d\<lparr>mant := sgn diff * mant d\<rparr>)"

section \<open>Formatting\<close>

definition toString :: "timestamp \<Rightarrow> string" where
  "toString t =
     (let seconds = cdiv (microSecondsSinceEpoch t) kMicroSecondsPerSecond;
          microseconds = cmod (microSecondsSinceEpoch t) kMicroSecondsPerSecond
      in snprintf 31 (show_int seconds @ ''.'' @ show_int_pad 6 microseconds))"

record tm =
  tm_year :: int
  tm_mon :: int
  tm_mday :: int
  tm_hour :: int
  tm_min :: int
  tm_sec :: int

text \<open>\<^verbatim>\<open>%4d\<close> pads with spaces.\<close>

definition show_int_width :: "nat \<Rightarrow> int \<Rightarrow> string" where
  "show_int_width w i = (let s = show_int i in replicate (w - length s) CHR '' '' @ s)"

definition toFormattedString :: "(int \<Rightarrow> tm) \<Rightarrow> timestamp \<Rightarrow> string" where
  "toFormattedString gmtime t =
     (let seconds = cdiv (microSecondsSinceEpoch t) kMicroSecondsPerSecond;
          microseconds = cmod (microSecondsSinceEpoch t) kMicroSecondsPerSecond;
          u = gmtime seconds
      in snprintf 32 (show_int_width 4 (tm_year u + 1900) @ show_int_pad 2 (tm_mon u + 1) @
           show_int_pad 2 (tm_mday u) @ '' '' @ show_int_pad 2 (tm_hour u) @ '':'' @
           show_int_pad 2 (tm_min u) @ '':'' @ show_int_pad 2 (tm_sec u) @ ''.'' @
           show_int_pad 6 microseconds))"

text \<open>Reading back what \<^verbatim>\<open>toString\<close> printed, for timestamps that are not negative.\<close>

definition read_stamp :: "string \<Rightarrow> int option" where
  "read_stamp s =
     (case (read_nat (takeWhile is_digit s), read_nat (tl (dropWhile is_digit s))) of
        (Some a, Some b) \<Rightarrow> Some (int a * kMicroSecondsPerSecond + int b)
      | _ \<Rightarrow> None)"

section \<open>Lemmas\<close>

lemma timestamp_less [simp]: "Timestamp a < Timestamp b \<longleftrightarrow> a < b"
  by (simp add: less_timestamp_def)

lemma timestamp_le [simp]: "Timestamp a \<le> Timestamp b \<longleftrightarrow> a \<le> b"
  by (simp add: less_eq_timestamp_def)

lemma bit_length_le: "n < 2 ^ k \<Longrightarrow> bit_length n \<le> k"
proof (induction k arbitrary: n)
  case 0
  then show ?case by (simp add: bit_length.simps)
next
  case (Suc k)
  then have "n div 2 < 2 ^ k" by (simp add: less_mult_imp_div_less mult.commute)
  with Suc.IH show ?case by (subst bit_length.simps) simp
qed

text \<open>A product that fits into 53 bits is not rounded.\<close>

lemma round53_exact: "m < 2 ^ 53 \<Longrightarrow> round53 m = m"
  using bit_length_le [of m 53] by (simp add: round53_def Let_def)

lemma micros_of_int:
  assumes "\<bar>n\<bar> * 1000000 < 2 ^ 53"
  shows "micros_of_double (double_of_int n) = n * 1000000"
proof -
  obtain k where k: "\<bar>n\<bar> = int k" using zero_le_imp_eq_int [of "\<bar>n\<bar>"] by auto
  have "nat \<bar>n\<bar> * 1000000 < 2 ^ 53" using assms by (simp add: k)
  then have "round53 (nat \<bar>n\<bar> * 1000000) = nat \<bar>n\<bar> * 1000000" by (rule round53_exact)
  moreover have "in_i64 (n * 1000000)" using assms by (auto simp: in_i64_def)
  ultimately show ?thesis
    by (simp add: micros_of_double_def double_of_int_def kMicroSecondsPerSecond_def sgn_mult_abs
        flip: mult.assoc)
qed

lemma toString_nonneg:
  assumes "0 \<le> m" "m < 2 ^ 63"
  shows "toString (Timestamp m) =
    show_nat (nat (m div 1000000)) @ ''.'' @
    zeros (6 - length (show_nat (nat (m mod 1000000)))) @ show_nat (nat (m mod 1000000))"
proof -
  have "nat (m div 1000000) < 10 ^ Suc 13" using assms by simp
  then have "length (show_nat (nat (m div 1000000))) \<le> 14" using length_show_nat [of _ 13] by simp
  moreover have "length (show_int_pad 6 (m mod 1000000)) = 6"
    using length_show_int_pad [of "m mod 1000000" 5] by simp
  ultimately show ?thesis
    using assms
    by (simp add: toString_def Let_def kMicroSecondsPerSecond_def cdiv_nonneg cmod_nonneg
        show_int_nonneg pos_imp_zdiv_nonneg_iff snprintf_def show_int_pad_nonneg) arith
qed

section \<open>Properties\<close>

text \<open>
  Printing is lossless: for every timestamp of the type that is not negative, the text of
  \<^verbatim>\<open>toString\<close> is not cut off by the 32-byte array and reading it back gives the microseconds.
\<close>

theorem toString_roundtrip:
  assumes "0 \<le> m" "in_i64 m"
  shows "read_stamp (toString (Timestamp m)) = Some m"
proof -
  have "m < 2 ^ 63" using assms(2) by (simp add: in_i64_def)
  then show ?thesis
    using assms(1)
    by (simp add: toString_nonneg read_stamp_def kMicroSecondsPerSecond_def
        pos_imp_zdiv_nonneg_iff div_mult_mod_eq)
qed

theorem toString_roundtrip_witness:
  "read_stamp (toString (Timestamp 1234000056)) = Some 1234000056"
  using toString_roundtrip [of 1234000056] by (simp add: in_i64_def)

text \<open>
  Adding a whole number of seconds is exact: as long as the microseconds of the delay fit
  into the 53 bits of a \<^verbatim>\<open>double\<close> and the sum into 64 bits, \<^verbatim>\<open>addTime\<close> moves the timestamp by
  exactly that many seconds, forwards for a positive and backwards for a negative number.
\<close>

theorem addTime_whole_seconds:
  assumes "\<bar>n\<bar> * 1000000 < 2 ^ 53" "in_i64 (microSecondsSinceEpoch t + n * 1000000)"
  shows "microSecondsSinceEpoch (addTime t (double_of_int n)) = microSecondsSinceEpoch t + n * 1000000"
  using assms by (simp add: addTime_def micros_of_int i64_id)

theorem addTime_whole_seconds_witness:
  "microSecondsSinceEpoch (addTime (Timestamp 5) (double_of_int 3)) = 3000005"
  using addTime_whole_seconds [of 3 "Timestamp 5"] by (simp add: in_i64_def)

text \<open>
  Differences of whole seconds are exact: \<^verbatim>\<open>timeDifference\<close> and \<^verbatim>\<open>addTime\<close> are inverse on them.
\<close>

lemma bit_length_shift: "0 < n \<Longrightarrow> bit_length (n * 2 ^ s) = bit_length n + s"
proof (induction s)
  case (Suc s)
  then have "bit_length (n * 2 ^ Suc s) = Suc (bit_length (n * 2 ^ s))"
    by (subst bit_length.simps) (simp add: mult.left_commute [of n 2])
  with Suc show ?case by simp
qed simp

lemma bit_length_lower: "0 < n \<Longrightarrow> n < 2 ^ bit_length n"
proof (induction n rule: bit_length.induct)
  case (1 n)
  show ?case
  proof (cases "n div 2 = 0")
    case True
    with 1(2) have "n = 1" by simp
    then show ?thesis by (simp add: bit_length.simps)
  next
    case False
    then have "n div 2 < 2 ^ bit_length (n div 2)" using 1 by simp
    moreover have "bit_length n = Suc (bit_length (n div 2))" using 1(2) by (subst bit_length.simps) simp
    ultimately show ?thesis by simp
  qed
qed

lemma round53_shift:
  assumes "n < 2 ^ 53"
  shows "round53 (n * 2 ^ s) = n * 2 ^ s"
proof (cases "n = 0")
  case False
  let ?k = "bit_length (n * 2 ^ s) - 53"
  have "bit_length n \<le> 53" using bit_length_le [OF assms] .
  then have k: "?k \<le> s" using bit_length_shift [of n s] False by simp
  then have m: "n * 2 ^ s = n * 2 ^ (s - ?k) * 2 ^ ?k" by (simp flip: power_add)
  then have "n * 2 ^ s mod 2 ^ ?k = 0" "n * 2 ^ s div 2 ^ ?k * 2 ^ ?k = n * 2 ^ s"
    by (metis mod_mult_self2_is_0, metis nonzero_mult_div_cancel_right power_not_zero zero_neq_numeral)
  moreover have "0 < (2 :: nat) ^ ?k div 2" if "0 < ?k" using that by (cases ?k) simp_all
  ultimately show ?thesis by (auto simp: round53_def Let_def)
qed (simp add: round53_def bit_length.simps)

lemma mk_double_shift:
  assumes "0 < n" "n < 2 ^ 53" "bit_length n + s > 53"
  shows "mk_double (n * 2 ^ s) e = \<lparr>mant = int (n * 2 ^ (53 - bit_length n)), expo = e + int (bit_length n + s - 53)\<rparr>"
proof -
  let ?b = "bit_length n" and ?j = "bit_length n + s - 53"
  have b: "?b \<le> 53" using bit_length_le [OF assms(2)] .
  have cancel: "n * 2 ^ (a + j) div 2 ^ j = n * 2 ^ a" for a j :: nat by (simp add: power_add flip: mult.assoc)
  have "(53 - ?b) + ?j = s" using assms(3) b by simp
  with cancel [of "53 - ?b" ?j] have eq: "n * 2 ^ s div 2 ^ ?j = n * 2 ^ (53 - ?b)" by simp
  have "n * 2 ^ (53 - ?b) < 2 ^ ?b * 2 ^ (53 - ?b)" using bit_length_lower [OF assms(1)] by simp
  then have "n * 2 ^ (53 - ?b) < 2 ^ 53" using b by (simp flip: power_add)
  then show ?thesis
    unfolding mk_double_def bit_length_shift [OF assms(1)] round53_shift [OF assms(2)] eq Let_def by simp
qed

lemma timeDifference_whole_seconds:
  assumes "\<bar>n\<bar> * 1000000 < 2 ^ 53" "n \<noteq> 0" "microSecondsSinceEpoch high - microSecondsSinceEpoch low = n * 1000000"
  shows "\<exists>k. timeDifference high low = \<lparr>mant = n * 2 ^ k, expo = - int k\<rparr>"
proof -
  define a where "a = nat \<bar>n\<bar>"
  let ?b = "bit_length 1000000" and ?s = "54 + bit_length 1000000"
  have a: "0 < a" "a * 1000000 < 2 ^ 53" "\<bar>n\<bar> = int a" using assms(1,2) by (simp_all add: a_def)
  have diff: "i64 (n * 1000000) = n * 1000000" using assms(1) by (intro i64_id) (auto simp: in_i64_def)
  have "nat \<bar>n * 1000000\<bar> = a * 1000000" using a(3) by (simp add: abs_mult)
  then have d: "round53 (nat \<bar>n * 1000000\<bar>) = a * 1000000" using round53_exact [OF a(2)] by simp
  have "a * 1000000 * 2 ^ (53 + ?b) = a * 2 ^ (53 + ?b) * 1000000" by simp
  then have "double_quot (a * 1000000) 1000000 = mk_double (a * 2 ^ ?s) (- int ?s)"
    using power_Suc [of "2 :: nat" "53 + ?b"] by (simp add: double_quot_def mult.left_commute [of 2] del: power_Suc)
  also have "\<dots> = \<lparr>mant = int (a * 2 ^ (53 - bit_length a)), expo = - int ?s + int (bit_length a + ?s - 53)\<rparr>"
    using a by (intro mk_double_shift) simp_all
  finally have q: "double_quot (a * 1000000) 1000000 = \<lparr>mant = int (a * 2 ^ (53 - bit_length a)), expo = - int (53 - bit_length a)\<rparr>"
    using bit_length_le [of a 53] a(2) by simp
  have "sgn (n * 1000000) * int (a * 2 ^ (53 - bit_length a)) = n * 2 ^ (53 - bit_length a)"
    using a(3) by (simp add: sgn_mult flip: a(3)) (simp add: sgn_mult_abs flip: mult.assoc)
  then show ?thesis
    using assms(3) by (intro exI [of _ "53 - bit_length a"]) (simp add: timeDifference_def diff d q kMicroSecondsPerSecond_def)
qed

theorem addTime_timeDifference:
  assumes "\<bar>n\<bar> * 1000000 < 2 ^ 53" "microSecondsSinceEpoch high - microSecondsSinceEpoch low = n * 1000000"
    and "in_i64 (microSecondsSinceEpoch high)"
  shows "addTime low (timeDifference high low) = high"
proof (cases "n = 0")
  case True
  then show ?thesis
    using assms by (cases high; cases low)
      (simp add: addTime_def timeDifference_def micros_of_double_def i64_id in_i64_def i64_def round53_exact)
next
  case False
  obtain k where k: "timeDifference high low = \<lparr>mant = n * 2 ^ k, expo = - int k\<rparr>"
    using timeDifference_whole_seconds [OF assms(1) False assms(2)] by blast
  have abs: "nat \<bar>n * 2 ^ k\<bar> * 1000000 = nat \<bar>n\<bar> * 1000000 * 2 ^ k" by (simp add: abs_mult nat_mult_distrib)
  have "int (nat \<bar>n\<bar> * 1000000) < int (2 ^ 53)" using assms(1) by simp
  then have "nat \<bar>n\<bar> * 1000000 < 2 ^ 53" by (simp only: of_nat_less_iff)
  then have r: "round53 (nat \<bar>n * 2 ^ k\<bar> * 1000000) = nat \<bar>n\<bar> * 1000000 * 2 ^ k" unfolding abs by (rule round53_shift)
  have range: "in_i64 (n * 1000000)" using assms(1) by (auto simp: in_i64_def)
  have sgn: "sgn (n * 2 ^ k) * (\<bar>n\<bar> * 1000000) = n * 1000000" by (simp add: sgn_mult sgn_mult_abs flip: mult.assoc)
  have "micros_of_double (timeDifference high low) = n * 1000000"
  proof (cases "k = 0")
    case True
    then show ?thesis using micros_of_int [OF assms(1)] k by (simp add: double_of_int_def)
  next
    case False
    then show ?thesis
      unfolding k micros_of_double_def using range by (simp add: kMicroSecondsPerSecond_def r sgn Let_def)
  qed
  then show ?thesis using assms(2,3) by (cases high) (simp add: addTime_def i64_id flip: assms(2))
qed

end
