(* ===== verification/Channel.thy ===== *)
theory Channel
  imports Timestamp
begin

unbundle bit_operations_syntax

text \<open>
  \<^verbatim>\<open>Channel.h\<close> and \<^verbatim>\<open>Channel.cc\<close>: the events a descriptor is watched for, and the dispatch of
  the events that happened to the callbacks.

  Channel objects live in a store, the map \<open>chan\<close> from addresses to channels, that the states
  of the poller, the loop and the connections extend. A callback is a value of a type \<open>'cb\<close>;
  what calling it does is a function of the whole state, so that it may change the channel it
  was called from, and even destroy it. An empty \<^verbatim>\<open>boost::function\<close> is \<^term>\<open>None\<close>. The members of
  the class that call the loop (\<^verbatim>\<open>update\<close> and the functions built on it) are with the loop.
\<close>

section \<open>Masks\<close>

type_synonym mask = "32 word"

definition POLLIN :: mask where "POLLIN = 1"
definition POLLPRI :: mask where "POLLPRI = 2"
definition POLLOUT :: mask where "POLLOUT = 4"
definition POLLERR :: mask where "POLLERR = 8"
definition POLLHUP :: mask where "POLLHUP = 0x10"
definition POLLNVAL :: mask where "POLLNVAL = 0x20"
definition POLLRDHUP :: mask where "POLLRDHUP = 0x2000"

definition kNoneEvent :: mask where "kNoneEvent = 0"
definition kReadEvent :: mask where "kReadEvent = POLLIN OR POLLPRI"
definition kWriteEvent :: mask where "kWriteEvent = POLLOUT"

text \<open>A C++ condition on a mask: some bit is set.\<close>

definition any_set :: "mask \<Rightarrow> mask \<Rightarrow> bool" where
  "any_set m bits \<longleftrightarrow> m AND bits \<noteq> 0"

section \<open>Channels\<close>

record 'cb channel =
  ch_loop :: addr
  ch_fd :: fd
  ch_events :: mask
  ch_revents :: mask
  ch_index :: int
  eventHandling :: bool
  readCallback :: "'cb option"
  writeCallback :: "'cb option"
  errorCallback :: "'cb option"
  closeCallback :: "'cb option"

definition Channel_new :: "addr \<Rightarrow> fd \<Rightarrow> 'cb channel" where
  "Channel_new loop fd =
     \<lparr>ch_loop = loop, ch_fd = fd, ch_events = 0, ch_revents = 0, ch_index = - 1,
      eventHandling = False, readCallback = None, writeCallback = None, errorCallback = None,
      closeCallback = None\<rparr>"

text \<open>The destructor.\<close>

definition Channel_delete :: "'cb channel \<Rightarrow> unit result" where
  "Channel_delete c = check (\<not> eventHandling c) AssertFailure"

definition setReadCallback :: "'cb \<Rightarrow> 'cb channel \<Rightarrow> 'cb channel" where
  "setReadCallback cb c = c\<lparr>readCallback := Some cb\<rparr>"

definition setWriteCallback :: "'cb \<Rightarrow> 'cb channel \<Rightarrow> 'cb channel" where
  "setWriteCallback cb c = c\<lparr>writeCallback := Some cb\<rparr>"

definition setErrorCallback :: "'cb \<Rightarrow> 'cb channel \<Rightarrow> 'cb channel" where
  "setErrorCallback cb c = c\<lparr>errorCallback := Some cb\<rparr>"

definition setCloseCallback :: "'cb \<Rightarrow> 'cb channel \<Rightarrow> 'cb channel" where
  "setCloseCallback cb c = c\<lparr>closeCallback := Some cb\<rparr>"

definition set_index :: "int \<Rightarrow> 'cb channel \<Rightarrow> 'cb channel" where
  "set_index i c = c\<lparr>ch_index := i\<rparr>"

definition set_revents :: "mask \<Rightarrow> 'cb channel \<Rightarrow> 'cb channel" where
  "set_revents m c = c\<lparr>ch_revents := m\<rparr>"

definition isNoneEvent :: "'cb channel \<Rightarrow> bool" where
  "isNoneEvent c \<longleftrightarrow> ch_events c = kNoneEvent"

definition isWriting :: "'cb channel \<Rightarrow> bool" where
  "isWriting c \<longleftrightarrow> any_set (ch_events c) kWriteEvent"

text \<open>The five requests of a user, as what they do to \<^verbatim>\<open>events_\<close> before \<^verbatim>\<open>update\<close> is called.\<close>

datatype request = EnableReading | EnableWriting | DisableReading | DisableWriting | DisableAll

fun requested :: "request \<Rightarrow> mask \<Rightarrow> mask" where
  "requested EnableReading m = m OR kReadEvent"
| "requested EnableWriting m = m OR kWriteEvent"
| "requested DisableReading m = m AND NOT kReadEvent"
| "requested DisableWriting m = m AND NOT kWriteEvent"
| "requested DisableAll m = kNoneEvent"

section \<open>The store and the dispatch\<close>

record 'cb channels =
  chan :: "addr \<rightharpoonup> 'cb channel"

definition load :: "addr \<Rightarrow> ('cb, 'x) channels_scheme \<Rightarrow> 'cb channel result" where
  "load p s = (case chan s p of None \<Rightarrow> Inl DanglingPointer | Some c \<Rightarrow> Inr c)"

definition change :: "addr \<Rightarrow> ('cb channel \<Rightarrow> 'cb channel) \<Rightarrow>
    ('cb, 'x) channels_scheme \<Rightarrow> ('cb, 'x) channels_scheme result" where
  "change p f s = rbind (load p s) (\<lambda>c. Inr (s\<lparr>chan := (chan s)(p \<mapsto> f c)\<rparr>))"

text \<open>\<^verbatim>\<open>if (cb) cb();\<close>, for a condition on the channel and one of its callbacks.\<close>

definition dispatch ::
  "('cb \<Rightarrow> ('cb, 'x) channels_scheme \<Rightarrow> ('cb, 'x) channels_scheme result) \<Rightarrow>
   (mask \<Rightarrow> bool) \<Rightarrow> ('cb channel \<Rightarrow> 'cb option) \<Rightarrow> addr \<Rightarrow>
   ('cb, 'x) channels_scheme \<Rightarrow> ('cb, 'x) channels_scheme result" where
  "dispatch call cond slot p s =
     rbind (load p s) (\<lambda>c.
       if cond (ch_revents c) then (case slot c of None \<Rightarrow> Inr s | Some cb \<Rightarrow> call cb s) else Inr s)"

definition hung_up :: "mask \<Rightarrow> bool" where
  "hung_up m \<longleftrightarrow> any_set m POLLHUP \<and> \<not> any_set m POLLIN"

definition failed :: "mask \<Rightarrow> bool" where
  "failed m \<longleftrightarrow> any_set m (POLLERR OR POLLNVAL)"

definition can_read :: "mask \<Rightarrow> bool" where
  "can_read m \<longleftrightarrow> any_set m (POLLIN OR POLLPRI OR POLLRDHUP)"

definition can_write :: "mask \<Rightarrow> bool" where
  "can_write m \<longleftrightarrow> any_set m POLLOUT"

text \<open>
  \<^verbatim>\<open>handleEvent\<close>; the read callback takes the time of the poll, so calling a callback is a
  function of an optional time.
\<close>

definition handleEvent ::
  "(timestamp option \<Rightarrow> 'cb \<Rightarrow> ('cb, 'x) channels_scheme \<Rightarrow> ('cb, 'x) channels_scheme result) \<Rightarrow>
   timestamp \<Rightarrow> addr \<Rightarrow> ('cb, 'x) channels_scheme \<Rightarrow> ('cb, 'x) channels_scheme result" where
  "handleEvent call receiveTime p s =
     rbind (change p (\<lambda>c. c\<lparr>eventHandling := True\<rparr>) s) (\<lambda>s.
     rbind (dispatch (call None) hung_up closeCallback p s) (\<lambda>s.
     rbind (dispatch (call None) failed errorCallback p s) (\<lambda>s.
     rbind (dispatch (call (Some receiveTime)) can_read readCallback p s) (\<lambda>s.
     rbind (dispatch (call None) can_write writeCallback p s) (\<lambda>s.
       change p (\<lambda>c. c\<lparr>eventHandling := False\<rparr>) s)))))"

section \<open>Masks, bit by bit\<close>

lemma any_set_or: "any_set m (a OR b) \<longleftrightarrow> any_set m a \<or> any_set m b"
  by (simp add: any_set_def bit.conj_disj_distrib or_eq_0_iff)

text \<open>What a mask says, and the mask for it.\<close>

definition mask_of :: "bool \<times> bool \<Rightarrow> mask" where
  "mask_of = (\<lambda>(reading, writing).
     (if reading then kReadEvent else 0) OR (if writing then kWriteEvent else 0))"

fun wanted :: "request \<Rightarrow> bool \<times> bool \<Rightarrow> bool \<times> bool" where
  "wanted EnableReading (_, w) = (True, w)"
| "wanted EnableWriting (r, _) = (r, True)"
| "wanted DisableReading (_, w) = (False, w)"
| "wanted DisableWriting (r, _) = (r, False)"
| "wanted DisableAll _ = (False, False)"

lemmas mask_defs = kNoneEvent_def kReadEvent_def kWriteEvent_def POLLIN_def POLLPRI_def POLLOUT_def

lemma requested_mask_of: "requested rq (mask_of v) = mask_of (wanted rq v)"
  by (cases rq; cases v; cases "fst v"; cases "snd v") (simp_all add: mask_of_def mask_defs)

lemma requests_mask_of: "fold requested rqs (mask_of v) = mask_of (fold wanted rqs v)"
  by (induction rqs arbitrary: v) (simp_all add: requested_mask_of)

lemma mask_of_writing: "any_set (mask_of v) kWriteEvent \<longleftrightarrow> snd v"
  by (cases v) (simp add: mask_of_def mask_defs any_set_def)

lemma mask_of_none: "mask_of v = kNoneEvent \<longleftrightarrow> v = (False, False)"
  by (cases v) (simp add: mask_of_def mask_defs)

section \<open>The order of the callbacks\<close>

definition slot_calls :: "(mask \<Rightarrow> bool) \<Rightarrow> timestamp option \<Rightarrow> ('cb channel \<Rightarrow> 'cb option) \<Rightarrow>
    'cb channel \<Rightarrow> (timestamp option \<times> 'cb) list" where
  "slot_calls cond t slot c =
     (if cond (ch_revents c) then (case slot c of None \<Rightarrow> [] | Some cb \<Rightarrow> [(t, cb)]) else [])"

definition calls_of :: "timestamp \<Rightarrow> 'cb channel \<Rightarrow> (timestamp option \<times> 'cb) list" where
  "calls_of receiveTime c =
     slot_calls hung_up None closeCallback c @ slot_calls failed None errorCallback c @
     slot_calls can_read (Some receiveTime) readCallback c @ slot_calls can_write None writeCallback c"

text \<open>What the dispatch reads of a channel, and callbacks that leave it alone.\<close>

definition same_dispatch :: "'cb channel \<Rightarrow> 'cb channel \<Rightarrow> bool" where
  "same_dispatch c c' \<longleftrightarrow> ch_revents c' = ch_revents c \<and> readCallback c' = readCallback c \<and>
     writeCallback c' = writeCallback c \<and> errorCallback c' = errorCallback c \<and>
     closeCallback c' = closeCallback c"

definition shows_channel :: "addr \<Rightarrow> 'cb channel \<Rightarrow> ('cb, 'x) channels_scheme \<Rightarrow> bool" where
  "shows_channel p c s \<longleftrightarrow> (case chan s p of None \<Rightarrow> False | Some c' \<Rightarrow> same_dispatch c c')"

definition keeps_dispatch ::
  "addr \<Rightarrow> (timestamp option \<Rightarrow> 'cb \<Rightarrow> ('cb, 'x) channels_scheme \<Rightarrow> ('cb, 'x) channels_scheme result) \<Rightarrow> bool" where
  "keeps_dispatch p call \<longleftrightarrow> (\<forall>c t cb s s'. shows_channel p c s \<and> call t cb s = Inr s' \<longrightarrow> shows_channel p c s')"

lemma dispatch_shown:
  assumes "shows_channel p c s" and slot: "\<And>c'. same_dispatch c c' \<Longrightarrow> slot c' = slot c"
  shows "dispatch (call t) cond slot p s = rfold (\<lambda>(t, cb). call t cb) (slot_calls cond t slot c) s"
proof -
  obtain c' where c': "chan s p = Some c'" "same_dispatch c c'"
    using assms(1) by (auto simp: shows_channel_def split: option.splits)
  then have "ch_revents c' = ch_revents c" by (simp add: same_dispatch_def)
  then show ?thesis
    using c' slot [OF c'(2)] by (simp add: dispatch_def load_def slot_calls_def split: option.split)
qed

lemma rfold_shows:
  assumes "keeps_dispatch p call" "shows_channel p c s" "rfold (\<lambda>(t, cb). call t cb) cs s = Inr s'"
  shows "shows_channel p c s'"
proof (rule rfold_invariant [where I = "\<lambda>_. shows_channel p c", OF assms(3,2)])
  show "shows_channel p c s'"
    if "shows_channel p c s" "(\<lambda>(t, cb). call t cb) x s = Inr s'" for x s s'
    using that assms(1) unfolding keeps_dispatch_def by (cases x) auto
qed

text \<open>One more call in front of calls that are already known as a list.\<close>

lemma dispatch_then:
  assumes keep: "keeps_dispatch p call" and s: "shows_channel p c s"
    and slot: "\<And>c'. same_dispatch c c' \<Longrightarrow> slot c' = slot c"
    and rest: "\<And>s. shows_channel p c s \<Longrightarrow> f s = rbind (rfold (\<lambda>(t, cb). call t cb) cs s) g"
  shows "rbind (dispatch (call t) cond slot p s) f =
    rbind (rfold (\<lambda>(t, cb). call t cb) (slot_calls cond t slot c @ cs) s) g"
proof -
  let ?run = "rfold (\<lambda>(t, cb). call t cb)" and ?now = "slot_calls cond t slot c"
  have "rbind (?run ?now s) f = rbind (?run ?now s) (\<lambda>s'. rbind (?run cs s') g)"
    by (rule rbind_cong) (rule rest [OF rfold_shows [OF keep s]])
  moreover have "dispatch (call t) cond slot p s = ?run ?now s"
    by (rule dispatch_shown [OF s]) (rule slot)
  ultimately show ?thesis by (simp add: rfold_append rbind_assoc)
qed

lemma handleEvent_calls:
  assumes keep: "keeps_dispatch p call" and p: "chan s p = Some c"
  shows "handleEvent call receiveTime p s =
    rbind (rfold (\<lambda>(t, cb). call t cb) (calls_of receiveTime c)
       (s\<lparr>chan := (chan s)(p \<mapsto> c\<lparr>eventHandling := True\<rparr>)\<rparr>))
      (change p (\<lambda>c. c\<lparr>eventHandling := False\<rparr>))"
proof -
  let ?s = "s\<lparr>chan := (chan s)(p \<mapsto> c\<lparr>eventHandling := True\<rparr>)\<rparr>"
  let ?fin = "change p (\<lambda>c. c\<lparr>eventHandling := False\<rparr>)" and ?run = "rfold (\<lambda>(t, cb). call t cb)"
  note step = dispatch_then [OF keep, where g = ?fin]
  have on_write: "rbind (dispatch (call None) can_write writeCallback p s) ?fin =
      rbind (?run (slot_calls can_write None writeCallback c @ []) s) ?fin"
    if "shows_channel p c s" for s
    by (rule step [OF that]) (simp_all add: same_dispatch_def)
  have on_read: "rbind (dispatch (call (Some receiveTime)) can_read readCallback p s) (\<lambda>s.
        rbind (dispatch (call None) can_write writeCallback p s) ?fin) =
      rbind (?run (slot_calls can_read (Some receiveTime) readCallback c @
        slot_calls can_write None writeCallback c @ []) s) ?fin"
    if "shows_channel p c s" for s
    by (rule step [OF that _ on_write]) (simp_all add: same_dispatch_def)
  have on_error: "rbind (dispatch (call None) failed errorCallback p s) (\<lambda>s.
        rbind (dispatch (call (Some receiveTime)) can_read readCallback p s) (\<lambda>s.
        rbind (dispatch (call None) can_write writeCallback p s) ?fin)) =
      rbind (?run (slot_calls failed None errorCallback c @
        slot_calls can_read (Some receiveTime) readCallback c @
        slot_calls can_write None writeCallback c @ []) s) ?fin"
    if "shows_channel p c s" for s
    by (rule step [OF that _ on_read]) (simp_all add: same_dispatch_def)
  have "shows_channel p c ?s" by (simp add: shows_channel_def same_dispatch_def)
  then have "rbind (dispatch (call None) hung_up closeCallback p ?s) (\<lambda>s.
     rbind (dispatch (call None) failed errorCallback p s) (\<lambda>s.
     rbind (dispatch (call (Some receiveTime)) can_read readCallback p s) (\<lambda>s.
     rbind (dispatch (call None) can_write writeCallback p s) ?fin))) =
    rbind (?run (slot_calls hung_up None closeCallback c @ slot_calls failed None errorCallback c @
        slot_calls can_read (Some receiveTime) readCallback c @
        slot_calls can_write None writeCallback c @ []) ?s) ?fin"
    by (rule step [OF _ _ on_error]) (simp_all add: same_dispatch_def)
  moreover have "change p (\<lambda>c. c\<lparr>eventHandling := True\<rparr>) s = Inr ?s"
    using p by (simp add: change_def load_def)
  ultimately show ?thesis by (simp add: handleEvent_def calls_of_def)
qed

section \<open>Properties\<close>

text \<open>
  The interest of a channel is what was asked for last: after any sequence of enabling and
  disabling, \<^verbatim>\<open>events_\<close> is the mask for reading and writing as the sequence left them, reading
  and writing do not disturb each other, \<^verbatim>\<open>isWriting\<close> tells whether writing is on and
  \<^verbatim>\<open>isNoneEvent\<close> whether both are off.
\<close>

theorem requests_refine:
  assumes "ch_events c = fold requested rqs kNoneEvent" "v = fold wanted rqs (False, False)"
  shows "ch_events c = mask_of v \<and> (isWriting c \<longleftrightarrow> snd v) \<and> (isNoneEvent c \<longleftrightarrow> v = (False, False))"
proof -
  have "ch_events c = mask_of v"
    using requests_mask_of [of rqs "(False, False)"] assms by (simp add: mask_of_def kNoneEvent_def)
  then show ?thesis by (simp add: isWriting_def isNoneEvent_def mask_of_writing mask_of_none)
qed

theorem requests_refine_witness:
  "let c = (Channel_new 0 3)\<lparr>ch_events := 3\<rparr> :: nat channel
   in fold requested [EnableReading, EnableWriting, DisableWriting] kNoneEvent = 3 \<and>
      \<not> isWriting c \<and> \<not> isNoneEvent c"
proof -
  let ?c = "(Channel_new 0 3)\<lparr>ch_events := 3\<rparr> :: nat channel"
  have run: "fold requested [EnableReading, EnableWriting, DisableWriting] kNoneEvent = 3"
    by (simp add: mask_defs)
  show ?thesis
    using requests_refine [of ?c "[EnableReading, EnableWriting, DisableWriting]" "(True, False)"] run
    by (simp add: Let_def)
qed



end
