(* ===== verification/EPoller.thy ===== *)
theory EPoller
  imports Channel
begin

text \<open>
  \<^verbatim>\<open>EPoller.h\<close> and \<^verbatim>\<open>EPoller.cc\<close>, and the functions through which a channel reaches the poller
  (\<^verbatim>\<open>Channel::update\<close>, \<^verbatim>\<open>EventLoop::updateChannel\<close> and \<^verbatim>\<open>EventLoop::removeChannel\<close>).

  The state of the poller extends the store of channels by the map of descriptors, the size of
  the array for events and the state of the kernel. The kernel is not part of the program:
  \<^verbatim>\<open>epoll_ctl\<close> and \<^verbatim>\<open>epoll_wait\<close> are functions on its state, and \<open>interest\<close> reads the interest
  list from it. The predicates \<open>epoll_ctl_ok\<close> and \<open>epoll_wait_ok\<close> say what their manual pages
  promise.
\<close>

section \<open>The kernel interface\<close>

datatype ctl_op = EPOLL_CTL_ADD | EPOLL_CTL_MOD | EPOLL_CTL_DEL

type_synonym epoll_event = "mask \<times> addr"

record 'k epoll_sys =
  epoll_ctl :: "ctl_op \<Rightarrow> fd \<Rightarrow> epoll_event \<Rightarrow> 'k \<Rightarrow> bool \<times> 'k"
  epoll_wait :: "int \<Rightarrow> int \<Rightarrow> 'k \<Rightarrow> epoll_event list option \<times> 'k"
  interest :: "'k \<Rightarrow> fd \<rightharpoonup> epoll_event"

text \<open>
  Adding a descriptor that is not in the interest list, and changing or deleting one that is,
  succeeds and has exactly that effect.
\<close>

definition epoll_ctl_ok :: "'k epoll_sys \<Rightarrow> bool" where
  "epoll_ctl_ok sys \<longleftrightarrow> (\<forall>k d ev.
     (interest sys k d = None \<longrightarrow>
        interest sys (snd (epoll_ctl sys EPOLL_CTL_ADD d ev k)) = (interest sys k)(d \<mapsto> ev)) \<and>
     (interest sys k d \<noteq> None \<longrightarrow>
        interest sys (snd (epoll_ctl sys EPOLL_CTL_MOD d ev k)) = (interest sys k)(d \<mapsto> ev) \<and>
        interest sys (snd (epoll_ctl sys EPOLL_CTL_DEL d ev k)) = (interest sys k)(d := None)))"

text \<open>
  Waiting leaves the interest list alone and reports at most as many events as asked for, one
  for a descriptor, with the data it was registered with and only events that were asked for
  or that are always reported.
\<close>

definition epoll_wait_ok :: "'k epoll_sys \<Rightarrow> bool" where
  "epoll_wait_ok sys \<longleftrightarrow> (\<forall>n t k r k'. epoll_wait sys n t k = (r, k') \<longrightarrow>
     interest sys k' = interest sys k \<and>
     (\<forall>evs. r = Some evs \<longrightarrow> length evs \<le> nat n \<and>
        (\<exists>ds. length ds = length evs \<and> distinct ds \<and>
           (\<forall>i < length evs. \<exists>m. interest sys k (ds ! i) = Some (m, snd (evs ! i)) \<and>
              fst (evs ! i) AND NOT (m OR POLLERR OR POLLHUP) = 0))))"

section \<open>The poller\<close>

definition kNew :: int where "kNew = - 1"
definition kAdded :: int where "kAdded = 1"
definition kDeleted :: int where "kDeleted = 2"

definition kInitEventListSize :: nat where "kInitEventListSize = 16"

record ('cb, 'k) poller = "'cb channels" +
  channels_ep :: "fd \<rightharpoonup> addr"
  events_size :: nat
  kernel :: 'k
  ownerLoop :: addr

definition EPoller_new :: "addr \<Rightarrow> 'k \<Rightarrow> ('cb, 'k) poller" where
  "EPoller_new loop k = \<lparr>chan = Map.empty, channels_ep = Map.empty, events_size = kInitEventListSize,
     kernel = k, ownerLoop = loop\<rparr>"

text \<open>\<^verbatim>\<open>EPoller::update\<close>; a failure of \<^verbatim>\<open>epoll_ctl\<close> is only logged.\<close>

definition ep_update :: "'k epoll_sys \<Rightarrow> ctl_op \<Rightarrow> addr \<Rightarrow>
    ('cb, 'k, 'x) poller_scheme \<Rightarrow> ('cb, 'k, 'x) poller_scheme result" where
  "ep_update sys operation p s =
     rbind (load p s) (\<lambda>c. Inr (s\<lparr>kernel := snd (epoll_ctl sys operation (ch_fd c) (ch_events c, p) (kernel s))\<rparr>))"

definition ep_updateChannel :: "'k epoll_sys \<Rightarrow> bool \<Rightarrow> addr \<Rightarrow>
    ('cb, 'k, 'x) poller_scheme \<Rightarrow> ('cb, 'k, 'x) poller_scheme result" where
  "ep_updateChannel sys inLoop p s =
     rbind (check inLoop FatalLog) (\<lambda>_.
     rbind (load p s) (\<lambda>c.
     let index = ch_index c; d = ch_fd c in
     if index = kNew \<or> index = kDeleted then
       rbind (if index = kNew
              then rbind (check (channels_ep s d = None) AssertFailure) (\<lambda>_.
                   Inr (s\<lparr>channels_ep := (channels_ep s)(d \<mapsto> p)\<rparr>))
              else rbind (check (channels_ep s d = Some p) AssertFailure) (\<lambda>_. Inr s)) (\<lambda>s.
       rbind (change p (set_index kAdded) s) (\<lambda>s.
         ep_update sys EPOLL_CTL_ADD p s))
     else
       rbind (check (channels_ep s d = Some p) AssertFailure) (\<lambda>_.
       rbind (check (index = kAdded) AssertFailure) (\<lambda>_.
       if isNoneEvent c
       then rbind (ep_update sys EPOLL_CTL_DEL p s) (change p (set_index kDeleted))
       else ep_update sys EPOLL_CTL_MOD p s))))"

definition ep_removeChannel :: "'k epoll_sys \<Rightarrow> bool \<Rightarrow> addr \<Rightarrow>
    ('cb, 'k, 'x) poller_scheme \<Rightarrow> ('cb, 'k, 'x) poller_scheme result" where
  "ep_removeChannel sys inLoop p s =
     rbind (check inLoop FatalLog) (\<lambda>_.
     rbind (load p s) (\<lambda>c.
     let d = ch_fd c; index = ch_index c in
     rbind (check (channels_ep s d = Some p) AssertFailure) (\<lambda>_.
     rbind (check (isNoneEvent c) AssertFailure) (\<lambda>_.
     rbind (check (index = kAdded \<or> index = kDeleted) AssertFailure) (\<lambda>_.
     let s1 = s\<lparr>channels_ep := (channels_ep s)(d := None)\<rparr> in
     rbind (if index = kAdded then ep_update sys EPOLL_CTL_DEL p s1 else Inr s1)
       (change p (set_index kNew)))))))"

text \<open>One turn of the loop of \<^verbatim>\<open>fillActiveChannels\<close>.\<close>

definition fill_one :: "epoll_event \<Rightarrow> addr list \<times> ('cb, 'k, 'x) poller_scheme \<Rightarrow>
    (addr list \<times> ('cb, 'k, 'x) poller_scheme) result" where
  "fill_one ev as = (case as of (active, s) \<Rightarrow>
     rbind (load (snd ev) s) (\<lambda>c.
     rbind (check (channels_ep s (ch_fd c) = Some (snd ev)) AssertFailure) (\<lambda>_.
     rbind (change (snd ev) (set_revents (fst ev)) s) (\<lambda>s.
       Inr (active @ [snd ev], s)))))"

definition fillActiveChannels :: "epoll_event list \<Rightarrow> addr list \<Rightarrow> ('cb, 'k, 'x) poller_scheme \<Rightarrow>
    (addr list \<times> ('cb, 'k, 'x) poller_scheme) result" where
  "fillActiveChannels evs active s =
     rbind (check (length evs \<le> events_size s) AssertFailure) (\<lambda>_. rfold fill_one evs (active, s))"

text \<open>\<^verbatim>\<open>static_cast<int>\<close> of the size.\<close>

definition int_of_size :: "nat \<Rightarrow> int" where
  "int_of_size n = sint (word_of_nat n :: 32 word)"

definition ep_poll :: "'k epoll_sys \<Rightarrow> int \<Rightarrow> addr list \<Rightarrow> ('cb, 'k, 'x) poller_scheme \<Rightarrow>
    (addr list \<times> ('cb, 'k, 'x) poller_scheme) result" where
  "ep_poll sys timeoutMs active s =
     (case epoll_wait sys (int_of_size (events_size s)) timeoutMs (kernel s) of (r, k) \<Rightarrow>
      let s = s\<lparr>kernel := k\<rparr> in
      case r of
        None \<Rightarrow> Inr (active, s)
      | Some [] \<Rightarrow> Inr (active, s)
      | Some evs \<Rightarrow>
          rbind (fillActiveChannels evs active s) (\<lambda>(active, s).
            Inr (active, if length evs = events_size s then s\<lparr>events_size := events_size s * 2\<rparr> else s)))"

section \<open>From the channel to the poller\<close>

definition EventLoop_updateChannel :: "'k epoll_sys \<Rightarrow> bool \<Rightarrow> addr \<Rightarrow>
    ('cb, 'k, 'x) poller_scheme \<Rightarrow> ('cb, 'k, 'x) poller_scheme result" where
  "EventLoop_updateChannel sys inLoop p s =
     rbind (load p s) (\<lambda>c.
     rbind (check (ch_loop c = ownerLoop s) AssertFailure) (\<lambda>_.
     rbind (check inLoop FatalLog) (\<lambda>_.
       ep_updateChannel sys inLoop p s)))"

definition EventLoop_removeChannel :: "'k epoll_sys \<Rightarrow> bool \<Rightarrow> addr \<Rightarrow>
    ('cb, 'k, 'x) poller_scheme \<Rightarrow> ('cb, 'k, 'x) poller_scheme result" where
  "EventLoop_removeChannel sys inLoop p s =
     rbind (load p s) (\<lambda>c.
     rbind (check (ch_loop c = ownerLoop s) AssertFailure) (\<lambda>_.
     rbind (check inLoop FatalLog) (\<lambda>_.
       ep_removeChannel sys inLoop p s)))"

text \<open>\<^verbatim>\<open>enableReading\<close> to \<^verbatim>\<open>disableAll\<close>: change the mask, then \<^verbatim>\<open>update\<close>.\<close>

definition Channel_request :: "'k epoll_sys \<Rightarrow> bool \<Rightarrow> request \<Rightarrow> addr \<Rightarrow>
    ('cb, 'k, 'x) poller_scheme \<Rightarrow> ('cb, 'k, 'x) poller_scheme result" where
  "Channel_request sys inLoop rq p s =
     rbind (change p (\<lambda>c. c\<lparr>ch_events := requested rq (ch_events c)\<rparr>) s)
       (EventLoop_updateChannel sys inLoop p)"

section \<open>Invariant\<close>

text \<open>
  The poller is in sync: every registered channel is alive, a living channel knows whether it
  is registered, and the interest list of the kernel holds exactly the added channels with the
  events they ask for now.
\<close>

definition interest_of :: "('cb, 'k, 'x) poller_scheme \<Rightarrow> fd \<rightharpoonup> epoll_event" where
  "interest_of s d = (case channels_ep s d of None \<Rightarrow> None | Some p \<Rightarrow>
     (case chan s p of None \<Rightarrow> None | Some c \<Rightarrow>
        if ch_index c = kAdded then Some (ch_events c, p) else None))"

definition ep_inv :: "'k epoll_sys \<Rightarrow> ('cb, 'k, 'x) poller_scheme \<Rightarrow> bool" where
  "ep_inv sys s \<longleftrightarrow>
     (\<forall>p c. chan s p = Some c \<longrightarrow> ch_index c \<in> {kNew, kAdded, kDeleted} \<and>
        (ch_index c \<noteq> kNew \<longrightarrow> channels_ep s (ch_fd c) = Some p)) \<and>
     (\<forall>d p. channels_ep s d = Some p \<longrightarrow>
        (\<exists>c. chan s p = Some c \<and> ch_fd c = d \<and> ch_index c \<noteq> kNew)) \<and>
     interest sys (kernel s) = interest_of s"

lemma ep_invD:
  assumes "ep_inv sys s"
  shows "\<And>p c. chan s p = Some c \<Longrightarrow> ch_index c = kNew \<or> ch_index c = kAdded \<or> ch_index c = kDeleted"
    "\<And>p c. chan s p = Some c \<Longrightarrow> ch_index c \<noteq> kNew \<Longrightarrow> channels_ep s (ch_fd c) = Some p"
    "\<And>d p. channels_ep s d = Some p \<Longrightarrow> \<exists>c. chan s p = Some c \<and> ch_fd c = d \<and> ch_index c \<noteq> kNew"
    "interest sys (kernel s) = interest_of s"
  using assms unfolding ep_inv_def by blast+

lemma ep_invI:
  assumes "\<And>p c. chan s p = Some c \<Longrightarrow> ch_index c = kNew \<or> ch_index c = kAdded \<or> ch_index c = kDeleted"
    "\<And>p c. chan s p = Some c \<Longrightarrow> ch_index c \<noteq> kNew \<Longrightarrow> channels_ep s (ch_fd c) = Some p"
    "\<And>d p. channels_ep s d = Some p \<Longrightarrow> \<exists>c. chan s p = Some c \<and> ch_fd c = d \<and> ch_index c \<noteq> kNew"
    "interest sys (kernel s) = interest_of s"
  shows "ep_inv sys s"
  using assms unfolding ep_inv_def by blast

lemma kIndex_distinct [simp]:
  "kNew \<noteq> kAdded" "kNew \<noteq> kDeleted" "kAdded \<noteq> kDeleted" "kAdded \<noteq> kNew" "kDeleted \<noteq> kNew" "kDeleted \<noteq> kAdded"
  by (simp_all add: kNew_def kAdded_def kDeleted_def)

section \<open>Requests keep the poller in sync\<close>

text \<open>The two changes of a registration: channel \<open>p\<close> is registered as \<open>c'\<close>, or not any more.\<close>

lemma ep_inv_registered:
  assumes inv: "ep_inv sys s" and free: "channels_ep s d = None \<or> channels_ep s d = Some p"
    and p: "chan s p = Some c" "ch_fd c = d" "ch_fd c' = d" and ix: "ch_index c' = kAdded \<or> ch_index c' = kDeleted"
    and s': "chan s' = (chan s)(p \<mapsto> c')" "channels_ep s' = (channels_ep s)(d \<mapsto> p)"
    and k: "interest sys (kernel s') = (interest sys (kernel s))
      (d := if ch_index c' = kAdded then Some (ch_events c', p) else None)"
  shows "ep_inv sys s'"
proof (rule ep_invI)
  note D = ep_invD [OF inv]
  have fresh: "channels_ep s' (ch_fd c1) = Some p1" if "chan s p1 = Some c1" "p1 \<noteq> p" "ch_index c1 \<noteq> kNew" for p1 c1
    using D(2) [OF that(1,3)] that(2) free by (auto simp: s')
  show "ch_index c1 = kNew \<or> ch_index c1 = kAdded \<or> ch_index c1 = kDeleted" if "chan s' p1 = Some c1" for p1 c1
    using that D(1) ix by (auto simp: s' split: if_splits)
  show "channels_ep s' (ch_fd c1) = Some p1" if "chan s' p1 = Some c1" "ch_index c1 \<noteq> kNew" for p1 c1
    using that fresh p(3) by (cases "p1 = p") (auto simp: s')
  have others: "p1 \<noteq> p" if "channels_ep s d1 = Some p1" "d1 \<noteq> d" for p1 d1
    using D(3) [OF that(1)] that(2) p by auto
  show "\<exists>c1. chan s' p1 = Some c1 \<and> ch_fd c1 = d1 \<and> ch_index c1 \<noteq> kNew" if "channels_ep s' d1 = Some p1" for d1 p1
    using that D(3) [of d1 p1] others [of d1 p1] ix p(3) by (cases "d1 = d") (auto simp: s')
  show "interest sys (kernel s') = interest_of s'"
  proof
    fix d1
    show "interest sys (kernel s') d1 = interest_of s' d1"
      using others [of d1] by (auto simp: k D(4) interest_of_def s' split: option.splits)
  qed
qed

lemma ep_inv_unregistered:
  assumes inv: "ep_inv sys s" and reg: "channels_ep s d = Some p"
    and p: "chan s p = Some c" "ch_fd c = d" and ix: "ch_index c' = kNew"
    and s': "chan s' = (chan s)(p \<mapsto> c')" "channels_ep s' = (channels_ep s)(d := None)"
    and k: "interest sys (kernel s') = (interest sys (kernel s))(d := None)"
  shows "ep_inv sys s'"
proof (rule ep_invI)
  note D = ep_invD [OF inv]
  have others: "p1 \<noteq> p" if "channels_ep s d1 = Some p1" "d1 \<noteq> d" for p1 d1
    using D(3) [OF that(1)] that(2) p by auto
  show "ch_index c1 = kNew \<or> ch_index c1 = kAdded \<or> ch_index c1 = kDeleted" if "chan s' p1 = Some c1" for p1 c1
    using that D(1) ix by (auto simp: s' split: if_splits)
  show "channels_ep s' (ch_fd c1) = Some p1" if "chan s' p1 = Some c1" "ch_index c1 \<noteq> kNew" for p1 c1
    using that D(2) [of p1 c1] ix reg by (cases "p1 = p") (auto simp: s')
  show "\<exists>c1. chan s' p1 = Some c1 \<and> ch_fd c1 = d1 \<and> ch_index c1 \<noteq> kNew" if "channels_ep s' d1 = Some p1" for d1 p1
    using that D(3) [of d1 p1] others [of d1 p1] by (cases "d1 = d") (auto simp: s')
  show "interest sys (kernel s') = interest_of s'"
  proof
    fix d1
    show "interest sys (kernel s') d1 = interest_of s' d1"
      using others [of d1] by (auto simp: k D(4) interest_of_def s' split: option.splits)
  qed
qed

text \<open>What a channel is after a request.\<close>

definition after_request :: "request \<Rightarrow> 'cb channel \<Rightarrow> 'cb channel" where
  "after_request rq c = (let e = requested rq (ch_events c); c' = c\<lparr>ch_events := e\<rparr> in
     if ch_index c \<noteq> kAdded then set_index kAdded c'
     else if e = kNoneEvent then set_index kDeleted c' else c')"

definition registrable :: "addr \<Rightarrow> ('cb, 'k, 'x) poller_scheme \<Rightarrow> bool" where
  "registrable p s \<longleftrightarrow> (case chan s p of None \<Rightarrow> False | Some c \<Rightarrow>
     ch_loop c = ownerLoop s \<and> (ch_index c = kNew \<longrightarrow> channels_ep s (ch_fd c) = None))"

lemma Channel_request_ok:
  assumes sys: "epoll_ctl_ok sys" and inv: "ep_inv sys s" and p: "chan s p = Some c"
    and own: "ch_loop c = ownerLoop s" and new: "ch_index c = kNew \<Longrightarrow> channels_ep s (ch_fd c) = None"
  obtains k where "Channel_request sys True rq p s = Inr (s\<lparr>chan := (chan s)(p \<mapsto> after_request rq c),
      channels_ep := (channels_ep s)(ch_fd c \<mapsto> p), kernel := k\<rparr>)"
    "ep_inv sys (s\<lparr>chan := (chan s)(p \<mapsto> after_request rq c),
      channels_ep := (channels_ep s)(ch_fd c \<mapsto> p), kernel := k\<rparr>)"
proof -
  let ?e = "requested rq (ch_events c)" and ?d = "ch_fd c"
  let ?op = "if ch_index c = kAdded then if ?e = kNoneEvent then EPOLL_CTL_DEL else EPOLL_CTL_MOD else EPOLL_CTL_ADD"
  let ?k = "snd (epoll_ctl sys ?op ?d (?e, p) (kernel s))"
  let ?s = "s\<lparr>chan := (chan s)(p \<mapsto> after_request rq c), channels_ep := (channels_ep s)(?d \<mapsto> p), kernel := ?k\<rparr>"
  note D = ep_invD [OF inv]
  have ix: "ch_index c = kNew \<or> ch_index c = kAdded \<or> ch_index c = kDeleted" using D(1) p by blast
  have reg: "channels_ep s ?d = Some p" if "ch_index c \<noteq> kNew" using D(2) [OF p that] .
  then have same: "(channels_ep s)(?d \<mapsto> p) = channels_ep s" if "ch_index c \<noteq> kNew"
    using that by auto
  have run: "Channel_request sys True rq p s = Inr ?s"
    using ix p own new reg same
    by (auto simp: Channel_request_def change_def load_def EventLoop_updateChannel_def
        ep_updateChannel_def ep_update_def Let_def isNoneEvent_def after_request_def set_index_def)
  have was: "interest sys (kernel s) ?d = (if ch_index c = kAdded then Some (ch_events c, p) else None)"
    using new reg p by (cases "ch_index c = kNew") (auto simp: D(4) interest_of_def)
  have "interest sys ?k = (interest sys (kernel s))
      (?d := if ch_index (after_request rq c) = kAdded then Some (ch_events (after_request rq c), p) else None)"
    using sys was unfolding epoll_ctl_ok_def by (auto simp: after_request_def Let_def set_index_def)
  then have "ep_inv sys ?s"
    using new reg by (intro ep_inv_registered [OF inv _ p refl])
      (auto simp: after_request_def Let_def set_index_def)
  with run show ?thesis by (rule that)
qed

lemma EventLoop_removeChannel_ok:
  assumes sys: "epoll_ctl_ok sys" and inv: "ep_inv sys s" and p: "chan s p = Some c"
    and own: "ch_loop c = ownerLoop s" and reg: "ch_index c \<noteq> kNew" and none: "isNoneEvent c"
  obtains k where "EventLoop_removeChannel sys True p s = Inr (s\<lparr>chan := (chan s)(p \<mapsto> set_index kNew c),
      channels_ep := (channels_ep s)(ch_fd c := None), kernel := k\<rparr>)"
    "ep_inv sys (s\<lparr>chan := (chan s)(p \<mapsto> set_index kNew c),
      channels_ep := (channels_ep s)(ch_fd c := None), kernel := k\<rparr>)"
proof -
  let ?d = "ch_fd c"
  let ?k = "if ch_index c = kAdded then snd (epoll_ctl sys EPOLL_CTL_DEL ?d (ch_events c, p) (kernel s)) else kernel s"
  let ?s = "s\<lparr>chan := (chan s)(p \<mapsto> set_index kNew c), channels_ep := (channels_ep s)(?d := None), kernel := ?k\<rparr>"
  note D = ep_invD [OF inv]
  have ix: "ch_index c = kAdded \<or> ch_index c = kDeleted" using D(1) p reg by blast
  have map_d: "channels_ep s ?d = Some p" using D(2) [OF p reg] .
  have run: "EventLoop_removeChannel sys True p s = Inr ?s"
    using ix p own none map_d
    by (auto simp: EventLoop_removeChannel_def ep_removeChannel_def change_def load_def ep_update_def Let_def)
  have was: "interest sys (kernel s) ?d = (if ch_index c = kAdded then Some (ch_events c, p) else None)"
    using p map_d by (simp add: D(4) interest_of_def)
  have "interest sys ?k = (interest sys (kernel s))(?d := None)"
    using sys was unfolding epoll_ctl_ok_def by (auto simp: fun_upd_idem)
  then have "ep_inv sys ?s"
    by (intro ep_inv_unregistered [OF inv map_d p refl]) (simp_all add: set_index_def)
  with run show ?thesis by (rule that)
qed

text \<open>Registering and taking out a channel changes the poller only.\<close>

lemma Channel_request_more: "Channel_request sys b rq p s = Inr s' \<Longrightarrow> poller.more s' = poller.more s"
  by (auto simp: Channel_request_def change_def load_def EventLoop_updateChannel_def ep_updateChannel_def ep_update_def Let_def
      split: if_splits option.splits)

lemma EventLoop_removeChannel_more: "EventLoop_removeChannel sys b p s = Inr s' \<Longrightarrow> poller.more s' = poller.more s"
  by (auto simp: EventLoop_removeChannel_def ep_removeChannel_def change_def load_def ep_update_def Let_def
      split: if_splits option.splits)

section \<open>Polling\<close>

text \<open>The events reported by the last poll do not matter for the invariant.\<close>

definition same_but_revents :: "(addr \<rightharpoonup> 'cb channel) \<Rightarrow> (addr \<rightharpoonup> 'cb channel) \<Rightarrow> bool" where
  "same_but_revents m m' \<longleftrightarrow> (\<forall>p. map_option (set_revents 0) (m' p) = map_option (set_revents 0) (m p))"

lemma set_revents_eqD:
  "set_revents 0 c' = set_revents 0 c \<Longrightarrow>
   ch_fd c' = ch_fd c \<and> ch_index c' = ch_index c \<and> ch_events c' = ch_events c \<and> ch_loop c' = ch_loop c"
  by (cases c; cases c') (simp add: set_revents_def)

lemma same_but_revents_cases:
  assumes "same_but_revents m m'"
  shows "m p = None \<and> m' p = None \<or>
    (\<exists>c c'. m p = Some c \<and> m' p = Some c' \<and> ch_fd c' = ch_fd c \<and> ch_index c' = ch_index c \<and>
       ch_events c' = ch_events c \<and> ch_loop c' = ch_loop c)"
proof -
  have "map_option (set_revents 0) (m' p) = map_option (set_revents 0) (m p)"
    using assms by (simp add: same_but_revents_def)
  then show ?thesis by (cases "m p"; cases "m' p") (auto dest: set_revents_eqD)
qed

lemma ep_inv_revents:
  assumes inv: "ep_inv sys s" and same: "same_but_revents (chan s) ch"
  shows "ep_inv sys (s\<lparr>chan := ch\<rparr>)"
proof (rule ep_invI)
  note D = ep_invD [OF inv] and S = same_but_revents_cases [OF same]
  show "ch_index c = kNew \<or> ch_index c = kAdded \<or> ch_index c = kDeleted" if "chan (s\<lparr>chan := ch\<rparr>) p = Some c" for p c
    using that S [of p] by (auto dest: D(1))
  show "channels_ep (s\<lparr>chan := ch\<rparr>) (ch_fd c) = Some p" if "chan (s\<lparr>chan := ch\<rparr>) p = Some c" "ch_index c \<noteq> kNew" for p c
    using that D(2) S [of p] by auto
  show "\<exists>c. chan (s\<lparr>chan := ch\<rparr>) p = Some c \<and> ch_fd c = d \<and> ch_index c \<noteq> kNew"
    if "channels_ep (s\<lparr>chan := ch\<rparr>) d = Some p" for d p
    using that D(3) [of d p] S [of p] by auto
  show "interest sys (kernel (s\<lparr>chan := ch\<rparr>)) = interest_of (s\<lparr>chan := ch\<rparr>)"
  proof
    fix d
    show "interest sys (kernel (s\<lparr>chan := ch\<rparr>)) d = interest_of (s\<lparr>chan := ch\<rparr>) d"
    proof (cases "channels_ep s d")
      case (Some p)
      then show ?thesis using S [of p] by (auto simp: D(4) interest_of_def)
    qed (simp add: D(4) interest_of_def)
  qed
qed

lemma fill_loop:
  assumes "\<And>ev. ev \<in> set evs \<Longrightarrow> \<exists>c. chan s (snd ev) = Some c \<and> channels_ep s (ch_fd c) = Some (snd ev)"
    and "distinct (map snd evs)"
  shows "\<exists>ch. rfold fill_one evs (active, s) = Inr (active @ map snd evs, s\<lparr>chan := ch\<rparr>) \<and>
    same_but_revents (chan s) ch \<and>
    (\<forall>ev\<in>set evs. ch (snd ev) = map_option (set_revents (fst ev)) (chan s (snd ev))) \<and>
    (\<forall>p. p \<notin> snd ` set evs \<longrightarrow> ch p = chan s p)"
  using assms
proof (induction evs arbitrary: active s)
  case Nil
  show ?case by (intro exI [of _ "chan s"]) (simp add: same_but_revents_def)
next
  case (Cons ev evs)
  obtain c where c: "chan s (snd ev) = Some c" "channels_ep s (ch_fd c) = Some (snd ev)"
    using Cons.prems(1) [of ev] by auto
  let ?s = "s\<lparr>chan := (chan s)(snd ev \<mapsto> set_revents (fst ev) c)\<rparr>"
  have step: "fill_one ev (active, s) = Inr (active @ [snd ev], ?s)"
    using c by (simp add: fill_one_def load_def change_def)
  have new: "snd ev \<notin> snd ` set evs" using Cons.prems(2) by simp
  have keep: "chan ?s (snd e) = chan s (snd e)" if "e \<in> set evs" for e
  proof -
    have "snd e \<noteq> snd ev" using that new by (metis image_eqI)
    then show ?thesis by simp
  qed
  have alive: "\<exists>c. chan ?s (snd e) = Some c \<and> channels_ep ?s (ch_fd c) = Some (snd e)" if "e \<in> set evs" for e
    using Cons.prems(1) [of e] that keep [OF that] by simp
  moreover have "distinct (map snd evs)" using Cons.prems(2) by simp
  ultimately obtain ch where ch: "rfold fill_one evs (active @ [snd ev], ?s) =
      Inr ((active @ [snd ev]) @ map snd evs, ?s\<lparr>chan := ch\<rparr>)"
    "same_but_revents (chan ?s) ch"
    "\<forall>e\<in>set evs. ch (snd e) = map_option (set_revents (fst e)) (chan ?s (snd e))"
    "\<forall>p. p \<notin> snd ` set evs \<longrightarrow> ch p = chan ?s p"
    using Cons.IH [of ?s "active @ [snd ev]"] by blast
  have "same_but_revents (chan s) ch"
    using ch(2) c(1) by (auto simp: same_but_revents_def set_revents_def)
  moreover have "ch (snd ev) = map_option (set_revents (fst ev)) (chan s (snd ev))"
    using ch(4) new c(1) by simp
  moreover have "ch (snd e) = map_option (set_revents (fst e)) (chan s (snd e))" if "e \<in> set evs" for e
    using ch(3) that keep [OF that] by simp
  moreover have "ch p = chan s p" if "p \<notin> snd ` set (ev # evs)" for p
    using ch(4) that by simp
  ultimately show ?case
    using ch(1) step by (intro exI [of _ ch]) auto
qed

text \<open>What \<^verbatim>\<open>epoll_wait\<close> reports, in terms of the poller.\<close>

lemma reported_channels:
  assumes wait: "epoll_wait_ok sys" and inv: "ep_inv sys s"
    and r: "epoll_wait sys n t (kernel s) = (Some evs, k)"
  shows "ev \<in> set evs \<Longrightarrow> \<exists>c. chan s (snd ev) = Some c \<and> channels_ep s (ch_fd c) = Some (snd ev) \<and>
      ch_index c = kAdded \<and> fst ev AND NOT (ch_events c OR POLLERR OR POLLHUP) = 0"
    and "distinct (map snd evs)" and "length evs \<le> nat n" and "interest sys k = interest sys (kernel s)"
proof -
  note D = ep_invD [OF inv]
  obtain ds where ds: "length evs \<le> nat n" "interest sys k = interest sys (kernel s)"
    "length ds = length evs" "distinct ds"
    "\<And>i. i < length evs \<Longrightarrow> \<exists>m. interest sys (kernel s) (ds ! i) = Some (m, snd (evs ! i)) \<and>
       fst (evs ! i) AND NOT (m OR POLLERR OR POLLHUP) = 0"
    using wait r unfolding epoll_wait_ok_def by metis
  have reg: "\<exists>c. chan s (snd (evs ! i)) = Some c \<and> ch_fd c = ds ! i \<and> channels_ep s (ch_fd c) = Some (snd (evs ! i)) \<and>
      ch_index c = kAdded \<and> fst (evs ! i) AND NOT (ch_events c OR POLLERR OR POLLHUP) = 0"
    if i: "i < length evs" for i
  proof -
    obtain m where m: "interest_of s (ds ! i) = Some (m, snd (evs ! i))"
      "fst (evs ! i) AND NOT (m OR POLLERR OR POLLHUP) = 0"
      using ds(5) [OF i] by (auto simp: D(4))
    then obtain c where c: "channels_ep s (ds ! i) = Some (snd (evs ! i))" "chan s (snd (evs ! i)) = Some c"
      "ch_index c = kAdded" "ch_events c = m"
      by (auto simp: interest_of_def split: option.splits if_splits)
    moreover have "ch_fd c = ds ! i" using D(3) [OF c(1)] c(2) by auto
    ultimately show ?thesis using m(2) by auto
  qed
  show "ev \<in> set evs \<Longrightarrow> \<exists>c. chan s (snd ev) = Some c \<and> channels_ep s (ch_fd c) = Some (snd ev) \<and>
      ch_index c = kAdded \<and> fst ev AND NOT (ch_events c OR POLLERR OR POLLHUP) = 0"
    using reg by (auto simp: in_set_conv_nth)
  show "distinct (map snd evs)"
    unfolding distinct_conv_nth
  proof (intro allI impI)
    fix i j
    assume ij: "i < length (map snd evs)" "j < length (map snd evs)" "i \<noteq> j"
    then have "ds ! i \<noteq> ds ! j" using ds(3,4) by (simp add: nth_eq_iff_index_eq)
    moreover have "snd (evs ! i) = snd (evs ! j) \<Longrightarrow> ds ! i = ds ! j" using reg [of i] reg [of j] ij by auto
    ultimately show "map snd evs ! i \<noteq> map snd evs ! j" using ij by auto
  qed
qed (use wait r in \<open>auto simp: epoll_wait_ok_def\<close>)

lemma int_of_size_le: "nat (int_of_size n) \<le> n"
proof -
  have "sint (word_of_nat n :: 32 word) \<le> int n"
    using signed_take_bit_int_less_eq_self_iff [of 31 "int n"] by (simp add: signed_of_nat)
  then show ?thesis by (simp add: int_of_size_def)
qed

text \<open>The state after a poll.\<close>

definition polled :: "epoll_event list \<Rightarrow> ('cb, 'k, 'x) poller_scheme \<Rightarrow> ('cb, 'k, 'x) poller_scheme \<Rightarrow> bool" where
  "polled evs s s' \<longleftrightarrow> distinct (map snd evs) \<and>
     (\<forall>(m, p)\<in>set evs. \<exists>c. chan s p = Some c \<and> chan s' p = Some (set_revents m c) \<and>
        ch_index c = kAdded \<and> m AND NOT (ch_events c OR POLLERR OR POLLHUP) = 0) \<and>
     (\<forall>p. p \<notin> snd ` set evs \<longrightarrow> chan s' p = chan s p) \<and> channels_ep s' = channels_ep s \<and>
     events_size s' = (if evs \<noteq> [] \<and> length evs = events_size s then 2 * events_size s else events_size s)"

lemma interest_of_frame [simp]:
  "interest_of (s\<lparr>kernel := k\<rparr>) = interest_of s" "interest_of (s\<lparr>events_size := n\<rparr>) = interest_of s"
  by (simp_all add: interest_of_def fun_eq_iff split: option.split)

lemma ep_inv_kernel:
  "interest sys k = interest sys (kernel s) \<Longrightarrow> ep_inv sys (s\<lparr>kernel := k\<rparr>) = ep_inv sys s"
  by (simp add: ep_inv_def)

lemma ep_inv_events_size: "ep_inv sys (s\<lparr>events_size := n\<rparr>) = ep_inv sys s"
  by (simp add: ep_inv_def)

lemma ep_poll_ok:
  assumes wait: "epoll_wait_ok sys" and inv: "ep_inv sys s"
    and r: "epoll_wait sys (int_of_size (events_size s)) t (kernel s) = (r, k)"
  shows "\<exists>s'. ep_poll sys t active s = Inr (active @ map snd (case r of None \<Rightarrow> [] | Some evs \<Rightarrow> evs), s') \<and>
    ep_inv sys s' \<and> polled (case r of None \<Rightarrow> [] | Some evs \<Rightarrow> evs) s s'"
proof -
  let ?s = "s\<lparr>kernel := k\<rparr>"
  have "interest sys k = interest sys (kernel s)" using wait r by (auto simp: epoll_wait_ok_def)
  then have inv1: "ep_inv sys ?s" using inv by (simp add: ep_inv_kernel)
  show ?thesis
  proof (cases "r = None \<or> r = Some []")
    case True
    then show ?thesis
      using r inv1 by (intro exI [of _ ?s]) (auto simp: ep_poll_def polled_def Let_def)
  next
    case False
    then obtain ev evs' where evs: "r = Some (ev # evs')" by (cases r) (auto simp: neq_Nil_conv)
    let ?evs = "ev # evs'"
    note R = reported_channels [OF wait inv r [unfolded evs]]
    have size: "length ?evs \<le> events_size s" using R(3) int_of_size_le [of "events_size s"] by linarith
    have "\<exists>c. chan ?s (snd e) = Some c \<and> channels_ep ?s (ch_fd c) = Some (snd e)" if "e \<in> set ?evs" for e
      using R(1) [OF that] by auto
    then obtain ch where ch: "rfold fill_one ?evs (active, ?s) = Inr (active @ map snd ?evs, ?s\<lparr>chan := ch\<rparr>)"
      "same_but_revents (chan ?s) ch"
      "\<forall>e\<in>set ?evs. ch (snd e) = map_option (set_revents (fst e)) (chan ?s (snd e))"
      "\<forall>p. p \<notin> snd ` set ?evs \<longrightarrow> ch p = chan ?s p"
      using fill_loop [of ?evs ?s active] R(2) by blast
    let ?n = "if length ?evs = events_size s then events_size s * 2 else events_size s"
    let ?s' = "?s\<lparr>chan := ch, events_size := ?n\<rparr>"
    have "ep_poll sys t active s = Inr (active @ map snd ?evs, ?s')"
      using r evs ch(1) size by (auto simp: ep_poll_def fillActiveChannels_def Let_def)
    moreover have "ep_inv sys ?s'"
      using ep_inv_revents [OF inv1 ch(2)] ep_inv_events_size [of sys ?n "?s\<lparr>chan := ch\<rparr>"] by simp
    moreover have "polled ?evs s ?s'"
      unfolding polled_def using R(1,2) ch(3,4) by fastforce
    ultimately show ?thesis by (auto simp: evs)
  qed
qed

section \<open>Sequences of operations\<close>

text \<open>
  What the program does with channels: create one, ask for events, take it out of the loop and
  destroy it. The conditions are those under which the rest of the program does so: a new
  channel is for a descriptor that no channel is registered for, it is taken out when it asks
  for nothing, and destroyed when it is out and not being handled.
\<close>

datatype poller_op = Create addr fd | Ask request addr | Remove addr | Destroy addr

fun allowed :: "poller_op \<Rightarrow> ('cb, 'k, 'x) poller_scheme \<Rightarrow> bool" where
  "allowed (Create p d) s \<longleftrightarrow> chan s p = None"
| "allowed (Ask rq p) s \<longleftrightarrow> registrable p s"
| "allowed (Remove p) s \<longleftrightarrow> (case chan s p of None \<Rightarrow> False | Some c \<Rightarrow>
     ch_loop c = ownerLoop s \<and> ch_index c \<noteq> kNew \<and> isNoneEvent c)"
| "allowed (Destroy p) s \<longleftrightarrow> (case chan s p of None \<Rightarrow> False | Some c \<Rightarrow>
     ch_index c = kNew \<and> \<not> eventHandling c)"

fun poller_step :: "'k epoll_sys \<Rightarrow> poller_op \<Rightarrow> ('cb, 'k, 'x) poller_scheme \<Rightarrow> ('cb, 'k, 'x) poller_scheme result" where
  "poller_step sys (Create p d) s = Inr (s\<lparr>chan := (chan s)(p \<mapsto> Channel_new (ownerLoop s) d)\<rparr>)"
| "poller_step sys (Ask rq p) s = Channel_request sys True rq p s"
| "poller_step sys (Remove p) s = EventLoop_removeChannel sys True p s"
| "poller_step sys (Destroy p) s =
     rbind (load p s) (\<lambda>c. rbind (Channel_delete c) (\<lambda>_. Inr (s\<lparr>chan := (chan s)(p := None)\<rparr>)))"

abbreviation allowed_run :: "'k epoll_sys \<Rightarrow> poller_op list \<Rightarrow> ('cb, 'k, 'x) poller_scheme \<Rightarrow> bool" where
  "allowed_run sys \<equiv> run_ok allowed (poller_step sys)"

lemma ep_inv_new: "interest sys k = Map.empty \<Longrightarrow> ep_inv sys (EPoller_new loop k)"
  by (simp add: ep_inv_def EPoller_new_def interest_of_def fun_eq_iff)

lemma ep_inv_store:
  assumes inv: "ep_inv sys s" and old: "\<And>c. chan s p = Some c \<Longrightarrow> ch_index c = kNew"
    and new: "\<And>c. c' = Some c \<Longrightarrow> ch_index c = kNew"
  shows "ep_inv sys (s\<lparr>chan := (chan s)(p := c')\<rparr>)"
proof (rule ep_invI)
  let ?s = "s\<lparr>chan := (chan s)(p := c')\<rparr>"
  note D = ep_invD [OF inv]
  have other: "p1 \<noteq> p" if "channels_ep s d = Some p1" for d p1 using D(3) [OF that] old by auto
  show "ch_index c = kNew \<or> ch_index c = kAdded \<or> ch_index c = kDeleted" if "chan ?s p1 = Some c" for p1 c
    using that new by (auto dest: D(1) split: if_splits)
  show "channels_ep ?s (ch_fd c) = Some p1" if "chan ?s p1 = Some c" "ch_index c \<noteq> kNew" for p1 c
    using that new by (auto dest: D(2) split: if_splits)
  show "\<exists>c. chan ?s p1 = Some c \<and> ch_fd c = d \<and> ch_index c \<noteq> kNew" if "channels_ep ?s d = Some p1" for d p1
    using that other [of d p1] D(3) [of d p1] by simp
  show "interest sys (kernel ?s) = interest_of ?s"
    using other by (auto simp: D(4) interest_of_def fun_eq_iff split: option.split)
qed

lemma poller_step_ok:
  assumes sys: "epoll_ctl_ok sys" and inv: "ep_inv sys s" and ok: "allowed op s"
  shows "\<exists>s'. poller_step sys op s = Inr s' \<and> ep_inv sys s'"
proof (cases op)
  case (Create p d)
  have "ep_inv sys (s\<lparr>chan := (chan s)(p \<mapsto> Channel_new (ownerLoop s) d)\<rparr>)"
    using ok Create by (intro ep_inv_store [OF inv]) (auto simp: Channel_new_def kNew_def)
  with Create show ?thesis by simp
next
  case (Ask rq p)
  then obtain c where c: "chan s p = Some c" "ch_loop c = ownerLoop s" "ch_index c = kNew \<Longrightarrow> channels_ep s (ch_fd c) = None"
    using ok by (auto simp: registrable_def split: option.splits)
  show ?thesis by (rule Channel_request_ok [OF sys inv c, of rq]) (auto simp: Ask)
next
  case (Remove p)
  then obtain c where c: "chan s p = Some c" "ch_loop c = ownerLoop s" "ch_index c \<noteq> kNew" "isNoneEvent c"
    using ok by (auto split: option.splits)
  show ?thesis by (rule EventLoop_removeChannel_ok [OF sys inv c]) (auto simp: Remove)
next
  case (Destroy p)
  then obtain c where c: "chan s p = Some c" "ch_index c = kNew" "\<not> eventHandling c"
    using ok by (auto split: option.splits)
  have "ep_inv sys (s\<lparr>chan := (chan s)(p := None)\<rparr>)"
    using c by (intro ep_inv_store [OF inv]) auto
  with c Destroy show ?thesis by (simp add: load_def Channel_delete_def)
qed

interpretation pm: total_machine "poller_step sys" allowed "\<lambda>s. epoll_ctl_ok sys \<and> ep_inv sys s" for sys
  by unfold_locales (use poller_step_ok in fastforce)+

lemma poller_run_ok:
  assumes "epoll_ctl_ok sys" "ep_inv sys s" "allowed_run sys ops s"
  shows "\<exists>s'. rfold (poller_step sys) ops s = Inr s' \<and> ep_inv sys s'"
  using pm.run_total [of sys s ops] assms by blast

section \<open>Properties\<close>

text \<open>A kernel that keeps its promises, for concrete runs: its state is the interest list.\<close>

definition sample_sys :: "(fd \<rightharpoonup> epoll_event) epoll_sys" where
  "sample_sys = \<lparr>epoll_ctl = (\<lambda>op d ev k. case op of
       EPOLL_CTL_ADD \<Rightarrow> if k d = None then (True, k(d \<mapsto> ev)) else (False, k)
     | EPOLL_CTL_MOD \<Rightarrow> if k d = None then (False, k) else (True, k(d \<mapsto> ev))
     | EPOLL_CTL_DEL \<Rightarrow> if k d = None then (False, k) else (True, k(d := None))),
     epoll_wait = (\<lambda>n t k. case k 5 of None \<Rightarrow> (Some [], k) | Some (m, p) \<Rightarrow>
       if n < 1 then (None, k) else (Some [(m AND POLLIN OR POLLHUP, p)], k)),
     interest = (\<lambda>k. k)\<rparr>"

lemma sample_ctl_ok: "epoll_ctl_ok sample_sys"
  by (auto simp: epoll_ctl_ok_def sample_sys_def)



text \<open>
  C30. A poll hands out living channels and true events: with the poller in sync no assertion
  of \<^verbatim>\<open>poll\<close> fails; the active channels are exactly those reported, none twice; each is alive and
  registered and its \<^verbatim>\<open>revents_\<close> holds only events it asked for, errors or hang-ups; the poller
  stays in sync; and the array for events is doubled exactly when it was full.
\<close>

theorem poll_reports_registered:
  assumes "epoll_wait_ok sys" "ep_inv sys s"
    and "epoll_wait sys (int_of_size (events_size s)) timeoutMs (kernel s) = (Some evs, k)"
  shows "\<exists>s'. ep_poll sys timeoutMs [] s = Inr (map snd evs, s') \<and> ep_inv sys s' \<and> distinct (map snd evs) \<and>
    (\<forall>(m, p)\<in>set evs. \<exists>c. chan s' p = Some c \<and> channels_ep s' (ch_fd c) = Some p \<and> ch_index c = kAdded \<and>
       ch_revents c = m \<and> m AND NOT (ch_events c OR POLLERR OR POLLHUP) = 0) \<and>
    events_size s' = (if evs \<noteq> [] \<and> length evs = events_size s then 2 * events_size s else events_size s)"
proof -
  obtain s' where s': "ep_poll sys timeoutMs [] s = Inr (map snd evs, s')" "ep_inv sys s'" "polled evs s s'"
    using ep_poll_ok [OF assms(1,2,3), of "[]"] by auto
  have "\<exists>c. chan s' p = Some c \<and> channels_ep s' (ch_fd c) = Some p \<and> ch_index c = kAdded \<and>
       ch_revents c = m \<and> m AND NOT (ch_events c OR POLLERR OR POLLHUP) = 0" if mp: "(m, p) \<in> set evs" for m p
  proof -
    obtain c where c: "chan s' p = Some (set_revents m c)" "ch_index c = kAdded"
      "m AND NOT (ch_events c OR POLLERR OR POLLHUP) = 0"
      using s'(3) mp unfolding polled_def by fast
    then have "channels_ep s' (ch_fd (set_revents m c)) = Some p"
      using ep_invD(2) [OF s'(2) c(1)] by (simp add: set_revents_def)
    with c show ?thesis by (intro exI [of _ "set_revents m c"]) (simp add: set_revents_def)
  qed
  then show ?thesis using s' by (intro exI [of _ s']) (auto simp: polled_def)
qed

lemma sample_wait_ok: "epoll_wait_ok sample_sys"
proof -
  have "\<exists>ds :: fd list. length ds = 1 \<and> distinct ds \<and> (\<forall>i < 1. \<exists>m'. k (ds ! i) = Some (m', snd ([(m AND POLLIN OR POLLHUP, p)] ! i)) \<and>
      fst ([(m AND POLLIN OR POLLHUP, p)] ! i) AND NOT (m' OR POLLERR OR POLLHUP) = 0)"
    if "k 5 = Some (m, p)" for k :: "fd \<rightharpoonup> epoll_event" and m p
  proof (intro exI [of _ "[5]"] conjI allI impI)
    have "(m AND POLLIN OR POLLHUP) AND NOT (m OR POLLERR OR POLLHUP) = 0"
      by (rule bit_eqI) (auto simp: bit_simps)
    with that show "\<exists>m'. k ([5] ! i) = Some (m', snd ([(m AND POLLIN OR POLLHUP, p)] ! i)) \<and>
      fst ([(m AND POLLIN OR POLLHUP, p)] ! i) AND NOT (m' OR POLLERR OR POLLHUP) = 0" if "i < 1" for i
      using that by auto
  qed auto
  then show ?thesis
    by (auto simp: epoll_wait_ok_def sample_sys_def split: option.splits if_splits prod.splits)
qed

theorem poll_reports_registered_witness:
  "\<exists>s s'. poller_step sample_sys (Create 8 5) (EPoller_new 0 Map.empty :: (nat, fd \<rightharpoonup> epoll_event) poller) = Inr s \<and>
     rbind (poller_step sample_sys (Ask EnableReading 8) s) (ep_poll sample_sys 10000 []) = Inr ([8], s') \<and>
     events_size s' = 16"
proof -
  let ?s0 = "EPoller_new 0 Map.empty :: (nat, fd \<rightharpoonup> epoll_event) poller"
  note defs = sample_sys_def EPoller_new_def Channel_new_def registrable_def Channel_request_def change_def
    load_def EventLoop_updateChannel_def ep_updateChannel_def ep_update_def set_index_def isNoneEvent_def
    mask_defs kNew_def kAdded_def kDeleted_def Let_def kInitEventListSize_def int_of_size_def
  have run: "allowed_run sample_sys [Create 8 5, Ask EnableReading 8] ?s0" by (simp add: defs)
  obtain s1 where s1: "rfold (poller_step sample_sys) [Create 8 5, Ask EnableReading 8] ?s0 = Inr s1" "ep_inv sample_sys s1"
    using poller_run_ok [OF sample_ctl_ok ep_inv_new run] by (auto simp: sample_sys_def)
  obtain evs k where w: "epoll_wait sample_sys (int_of_size (events_size s1)) 10000 (kernel s1) = (Some evs, k)"
    "map snd evs = [8]" "events_size s1 = 16"
    using s1(1) by (auto simp: defs)
  obtain s' where "ep_poll sample_sys 10000 [] s1 = Inr ([8], s')" "events_size s' = 16"
    using poll_reports_registered [OF sample_wait_ok s1(2) w(1)] w(2,3) by auto
  with s1(1) show ?thesis by auto
qed

end
