(* ===== verification/Atomic.thy ===== *)
theory Atomic
  imports Netfish_Prelude
begin

text \<open>
  \<^verbatim>\<open>Atomic.h\<close>: an integer whose operations are the compiler's atomic builtins. The state is
  the value, a word of the type's width; every operation is one indivisible step that
  returns its result and the new value, so any interleaving of threads is a sequence of
  these steps.
\<close>

definition atomic_init :: "'w::len word" where
  "atomic_init = 0"

definition atomic_get :: "'w::len word \<Rightarrow> 'w word \<times> 'w word" where
  "atomic_get v = (v, v + 0)"

definition getAndSet :: "'w::len word \<Rightarrow> 'w word \<Rightarrow> 'w word \<times> 'w word" where
  "getAndSet newValue v = (v, newValue)"

definition getAndAdd :: "'w::len word \<Rightarrow> 'w word \<Rightarrow> 'w word \<times> 'w word" where
  "getAndAdd x v = (v, v + x)"

definition addAndGet :: "'w::len word \<Rightarrow> 'w word \<Rightarrow> 'w word \<times> 'w word" where
  "addAndGet x v = (v + x, v + x)"

definition incrementAndGet :: "'w::len word \<Rightarrow> 'w word \<times> 'w word" where
  "incrementAndGet v = addAndGet 1 v"

definition decrementAndGet :: "'w::len word \<Rightarrow> 'w word \<times> 'w word" where
  "decrementAndGet v = addAndGet (- 1) v"

definition getAndIncrement :: "'w::len word \<Rightarrow> 'w word \<times> 'w word" where
  "getAndIncrement v = getAndAdd 1 v"

definition getAndDecrement :: "'w::len word \<Rightarrow> 'w word \<times> 'w word" where
  "getAndDecrement v = getAndAdd (- 1) v"

definition increment :: "'w::len word \<Rightarrow> 'w word" where
  "increment v = snd (getAndIncrement v)"

definition decrement :: "'w::len word \<Rightarrow> 'w word" where
  "decrement v = snd (getAndDecrement v)"

text \<open>The results of \<open>n\<close> calls of \<^verbatim>\<open>incrementAndGet\<close>, by whichever threads, in their order.\<close>

fun tickets :: "nat \<Rightarrow> 'w::len word \<Rightarrow> 'w word list" where
  "tickets 0 v = []"
| "tickets (Suc n) v = (let (r, v') = incrementAndGet v in r # tickets n v')"

section \<open>Lemmas\<close>

lemma tickets_eq: "tickets n v = map (\<lambda>i. v + word_of_nat i) [1..<Suc n]"
proof (induction n arbitrary: v)
  case (Suc n)
  have "[1..<Suc (Suc n)] = 1 # map Suc [1..<Suc n]"
    by (simp add: map_Suc_upt upt_conv_Cons del: upt_Suc)
  then show ?case
    by (simp add: incrementAndGet_def addAndGet_def Suc algebra_simps del: upt_Suc)
qed simp

lemma word_of_nat_inj_below:
  "i < 2 ^ LENGTH('w) \<Longrightarrow> j < 2 ^ LENGTH('w) \<Longrightarrow>
   (word_of_nat i :: 'w::len word) = word_of_nat j \<longleftrightarrow> i = j"
  by (metis mod_less unat_of_nat)

text \<open>
  Increments hand out distinct values: among any consecutive calls of \<^verbatim>\<open>incrementAndGet\<close>, at
  most \<open>2 ^ w - 1\<close> of them for a \<open>w\<close>-bit integer, no result repeats and none is the value the
  counter started with, whichever threads made the calls.
\<close>

theorem tickets_distinct:
  assumes "n < 2 ^ LENGTH('w)"
  shows "distinct (tickets n (v :: 'w::len word)) \<and> v \<notin> set (tickets n v)"
proof -
  have "distinct (map (\<lambda>i. v + word_of_nat i :: 'w word) [1..<Suc n])"
    using assms by (auto simp: distinct_map inj_on_def word_of_nat_inj_below simp del: upt_Suc)
  moreover have "v \<notin> (\<lambda>i. v + word_of_nat i) ` {1..<Suc n}"
    using assms word_of_nat_inj_below [where ?'w = 'w, of _ 0] by force
  ultimately show ?thesis by (simp add: tickets_eq del: upt_Suc)
qed

theorem tickets_distinct_witness:
  "distinct (tickets 3 (254 :: 8 word)) \<and> tickets 3 (254 :: 8 word) = [255, 0, 1]"
  using tickets_distinct [of 3 "254 :: 8 word"]
  by (simp add: numeral_3_eq_3 incrementAndGet_def addAndGet_def)

end
