(* ===== verification/Std_Set.thy ===== *)
theory Std_Set
  imports Netfish_Prelude "HOL-Library.Multiset"
begin

text \<open>
  \<^verbatim>\<open>std::set\<close> as the sources use it: insertion that reports whether the element is new,
  erasure that reports how many elements went, \<^verbatim>\<open>lower_bound\<close>, and iteration in order. The
  elements are kept as a strictly ascending list. The locale \<open>ordered_set\<close> states what the
  users of a set rely on; the list operations are its interpretation.
\<close>

definition set_insert :: "'a::linorder \<Rightarrow> 'a list \<Rightarrow> 'a list \<times> bool" where
  "set_insert x xs = (if x \<in> set xs then (xs, False) else (insort x xs, True))"

definition set_erase :: "'a \<Rightarrow> 'a list \<Rightarrow> 'a list \<times> nat" where
  "set_erase x xs = (remove1 x xs, if x \<in> set xs then 1 else 0)"

text \<open>The elements before \<^verbatim>\<open>lower_bound(key)\<close>, and those from it on.\<close>

definition set_lower_bound :: "'a::linorder \<Rightarrow> 'a list \<Rightarrow> 'a list \<times> 'a list" where
  "set_lower_bound key xs = (takeWhile (\<lambda>x. x < key) xs, dropWhile (\<lambda>x. x < key) xs)"

definition is_std_set :: "'a::linorder list \<Rightarrow> bool" where
  "is_std_set xs = sorted_wrt (<) xs"

section \<open>The interface\<close>

locale ordered_set =
  fixes elems :: "'s \<Rightarrow> 'a::linorder list"
    and ins :: "'a \<Rightarrow> 's \<Rightarrow> 's \<times> bool"
    and del :: "'a \<Rightarrow> 's \<Rightarrow> 's \<times> nat"
    and lower :: "'a \<Rightarrow> 's \<Rightarrow> 's \<times> 's"
    and wf :: "'s \<Rightarrow> bool"
  assumes elems_sorted: "wf s \<Longrightarrow> sorted_wrt (<) (elems s)"
    and ins_new: "wf s \<Longrightarrow> x \<notin> set (elems s) \<Longrightarrow>
      \<exists>s'. ins x s = (s', True) \<and> wf s' \<and> mset (elems s') = add_mset x (mset (elems s))"
    and ins_old: "x \<in> set (elems s) \<Longrightarrow> ins x s = (s, False)"
    and del_in: "wf s \<Longrightarrow> x \<in> set (elems s) \<Longrightarrow>
      \<exists>s'. del x s = (s', 1) \<and> wf s' \<and> mset (elems s') = mset (elems s) - {#x#}"
    and lower_split: "wf s \<Longrightarrow> lower k s = (lo, hi) \<Longrightarrow>
      wf lo \<and> wf hi \<and> elems s = elems lo @ elems hi \<and> (\<forall>x\<in>set (elems lo). x < k) \<and>
      (\<forall>x\<in>set (elems hi). k \<le> x)"
begin

text \<open>The first element of a set is its least one.\<close>

lemma hd_least: "wf s \<Longrightarrow> x \<in> set (elems s) \<Longrightarrow> hd (elems s) \<le> x"
  using elems_sorted [of s] by (cases "elems s") auto

lemma distinct_elems: "wf s \<Longrightarrow> distinct (elems s)"
  using elems_sorted [of s] strict_sorted_iff by blast

text \<open>Inserting a new element makes it the first one exactly if it is below the first one so far.\<close>

lemma hd_after_ins:
  assumes "wf s" "x \<notin> set (elems s)" "ins x s = (s', b)"
  shows "hd (elems s') = (if elems s = [] \<or> x < hd (elems s) then x else hd (elems s))"
proof -
  obtain s'' where s'': "ins x s = (s'', True)" "wf s''" "mset (elems s'') = add_mset x (mset (elems s))"
    using ins_new [OF assms(1,2)] by blast
  then have wf': "wf s'" and elems': "set (elems s') = insert x (set (elems s))"
    using assms(3) by (simp_all flip: set_mset_mset)
  have ne: "elems s' \<noteq> []" using elems' by auto
  let ?m = "if elems s = [] \<or> x < hd (elems s) then x else hd (elems s)"
  have "?m \<in> set (elems s')" using elems' by auto
  then have "hd (elems s') \<le> ?m" by (rule hd_least [OF wf'])
  moreover have "?m \<le> hd (elems s')"
  proof -
    have "hd (elems s') \<in> insert x (set (elems s))" using ne elems' hd_in_set by blast
    then show ?thesis using hd_least [OF assms(1)] by (fastforce simp: not_less)
  qed
  ultimately show ?thesis by simp
qed

lemma lower_all:
  assumes "wf s" "lower k s = (lo, hi)" "x \<in> set (elems s)"
  shows "x \<in> set (elems lo) \<longleftrightarrow> x < k"
  using lower_split [OF assms(1,2)] assms(3) by auto

end

interpretation ss: ordered_set "\<lambda>xs :: 'a::linorder list. xs" set_insert set_erase set_lower_bound is_std_set
proof unfold_locales
  fix s :: "'a list" and x
  assume "is_std_set s"
  then have sd: "sorted s" "distinct s" by (simp_all add: is_std_set_def strict_sorted_iff)
  { assume "x \<notin> set s"
    with sd show "\<exists>s'. set_insert x s = (s', True) \<and> is_std_set s' \<and> mset s' = add_mset x (mset s)"
      by (simp add: set_insert_def is_std_set_def strict_sorted_iff sorted_insort distinct_insort) }
  { assume "x \<in> set s"
    with sd show "\<exists>s'. set_erase x s = (s', 1) \<and> is_std_set s' \<and> mset s' = mset s - {#x#}"
      by (simp add: set_erase_def is_std_set_def strict_sorted_iff sorted_remove1) }
next
  fix s lo hi :: "'a list" and k
  assume "is_std_set s" and eq: "set_lower_bound k s = (lo, hi)"
  then have sd: "sorted s" "distinct s" by (simp_all add: is_std_set_def strict_sorted_iff)
  have "\<forall>x\<in>set (dropWhile (\<lambda>x. x < k) s). k \<le> x"
    using sd(1) by (induction s) (auto split: if_splits)
  then show "is_std_set lo \<and> is_std_set hi \<and> s = lo @ hi \<and> (\<forall>x\<in>set lo. x < k) \<and> (\<forall>x\<in>set hi. k \<le> x)"
    using sd eq
    by (auto simp: set_lower_bound_def is_std_set_def strict_sorted_iff sorted_takeWhile
        sorted_dropWhile distinct_takeWhile distinct_dropWhile dest: set_takeWhileD)
qed (simp_all add: is_std_set_def set_insert_def)

lemma set_insert_Inr [simp]: "x \<notin> set xs \<Longrightarrow> set_insert x xs = (insort x xs, True)"
  by (simp add: set_insert_def)

lemma set_erase_in [simp]: "x \<in> set xs \<Longrightarrow> set_erase x xs = (remove1 x xs, 1)"
  by (simp add: set_erase_def)

lemma is_std_set_insort: "is_std_set xs \<Longrightarrow> x \<notin> set xs \<Longrightarrow> is_std_set (insort x xs)"
  using ss.ins_new [of xs x] by simp

lemma is_std_set_remove1: "is_std_set xs \<Longrightarrow> is_std_set (remove1 x xs)"
  by (simp add: is_std_set_def strict_sorted_iff sorted_remove1)

lemma is_std_set_distinct: "is_std_set xs \<Longrightarrow> distinct xs"
  by (rule ss.distinct_elems)

lemma is_std_set_Nil [simp]: "is_std_set []"
  by (simp add: is_std_set_def)

end
