(* ===== verification/TimerQueue.thy ===== *)
theory TimerQueue
  imports Timestamp Atomic Std_Set
begin

text \<open>
  \<^verbatim>\<open>Timer.h\<close>, \<^verbatim>\<open>Timer.cc\<close>, \<^verbatim>\<open>TimerId.h\<close>, \<^verbatim>\<open>TimerQueue.h\<close> and \<^verbatim>\<open>TimerQueue.cc\<close>.

  Timer objects live in an explicit heap, a map from addresses to timers: \<^verbatim>\<open>new\<close> adds an
  address, \<^verbatim>\<open>delete\<close> removes it, and using an address that is not there is the fault
  \<open>DanglingPointer\<close>. Both index sets of the queue are \<^verbatim>\<open>std::set\<close>s in their order. What the
  code takes from outside is the record \<open>env\<close>: the addresses \<^verbatim>\<open>new\<close> returns, the readings of
  the clock, whether the caller is the thread of the loop, and the user's callbacks. A
  callback is known by the calls it makes into the queue while it runs, which may depend on
  everything in the state.

  \<open>alarm\<close> is the expiration last passed to \<^verbatim>\<open>resetTimerfd\<close> since the descriptor last became
  readable, \<open>settimes\<close> the values given to \<^verbatim>\<open>timerfd_settime\<close>, and \<open>fired\<close> the timers whose
  callback has been called, in order.
\<close>

section \<open>Timers\<close>

record 'cb timer =
  callback :: 'cb
  expiration :: timestamp
  interval :: double
  repeats :: bool
  sequence :: int

text \<open>The constructor; the sequence number is the next value of \<^verbatim>\<open>s_numCreated_\<close>.\<close>

definition Timer_new :: "'cb \<Rightarrow> timestamp \<Rightarrow> double \<Rightarrow> 64 word \<Rightarrow> 'cb timer \<times> 64 word" where
  "Timer_new cb when ivl numCreated =
     (let (s, numCreated') = incrementAndGet numCreated in
      (\<lparr>callback = cb, expiration = when, interval = ivl, repeats = double_pos ivl,
        sequence = sint s\<rparr>, numCreated'))"

definition restart :: "timestamp \<Rightarrow> 'cb timer \<Rightarrow> 'cb timer" where
  "restart now t =
     (if repeats t then t\<lparr>expiration := addTime now (interval t)\<rparr>
      else t\<lparr>expiration := invalid\<rparr>)"

record timer_id =
  id_timer :: addr
  id_sequence :: int

definition TimerId_default :: timer_id where
  "TimerId_default = \<lparr>id_timer = 0, id_sequence = 0\<rparr>"

section \<open>The kernel timer\<close>

record timespec =
  tv_sec :: int
  tv_nsec :: int

definition howMuchTimeFromNow :: "timestamp \<Rightarrow> timestamp \<Rightarrow> timespec" where
  "howMuchTimeFromNow now when =
     (let d = i64 (microSecondsSinceEpoch when - microSecondsSinceEpoch now);
          microseconds = (if d < 100 then 100 else d)
      in \<lparr>tv_sec = cdiv microseconds kMicroSecondsPerSecond,
          tv_nsec = cmod microseconds kMicroSecondsPerSecond * 1000\<rparr>)"

section \<open>The queue\<close>

type_synonym entry = "timestamp \<times> addr"
type_synonym active_timer = "addr \<times> int"

record 'cb timer_queue =
  heap :: "addr \<rightharpoonup> 'cb timer"
  numCreated :: "64 word"
  timers :: "entry list"
  callingExpiredTimers :: bool
  activeTimers :: "active_timer list"
  cancelingTimers :: "active_timer list"
  clockReads :: nat
  settimes :: "timespec list"
  alarm :: "timestamp option"
  fired :: "addr list"

datatype 'cb timer_action = AddTimer 'cb timestamp double | CancelTimer timer_id

record 'cb env =
  alloc :: "(addr \<rightharpoonup> 'cb timer) \<Rightarrow> addr option"
  clock :: "nat \<Rightarrow> timestamp"
  inLoopThread :: bool
  program :: "'cb \<Rightarrow> 'cb timer_queue \<Rightarrow> 'cb timer_action list"

definition TimerQueue_new :: "(addr \<rightharpoonup> 'cb timer) \<Rightarrow> 64 word \<Rightarrow> 'cb timer_queue" where
  "TimerQueue_new h c =
     \<lparr>heap = h, numCreated = c, timers = [], callingExpiredTimers = False, activeTimers = [],
      cancelingTimers = [], clockReads = 0, settimes = [], alarm = None, fired = []\<rparr>"

definition deref :: "addr \<Rightarrow> 'cb timer_queue \<Rightarrow> 'cb timer result" where
  "deref p q = (case heap q p of None \<Rightarrow> Inl DanglingPointer | Some t \<Rightarrow> Inr t)"

definition delete_timer :: "addr \<Rightarrow> 'cb timer_queue \<Rightarrow> 'cb timer_queue result" where
  "delete_timer p q = rbind (deref p q) (\<lambda>_. Inr (q\<lparr>heap := (heap q)(p := None)\<rparr>))"

definition assertInLoop :: "'cb env \<Rightarrow> unit result" where
  "assertInLoop env = check (inLoopThread env) FatalLog"

definition assert_sizes :: "'cb timer_queue \<Rightarrow> unit result" where
  "assert_sizes q = check (length (timers q) = length (activeTimers q)) AssertFailure"

definition read_clock :: "'cb env \<Rightarrow> 'cb timer_queue \<Rightarrow> timestamp \<times> 'cb timer_queue" where
  "read_clock env q = (clock env (clockReads q), q\<lparr>clockReads := Suc (clockReads q)\<rparr>)"

definition resetTimerfd :: "'cb env \<Rightarrow> timestamp \<Rightarrow> 'cb timer_queue \<Rightarrow> 'cb timer_queue" where
  "resetTimerfd env expi q =
     (let (now, q') = read_clock env q in
      q'\<lparr>settimes := settimes q' @ [howMuchTimeFromNow now expi], alarm := Some expi\<rparr>)"

definition readTimerfd :: "'cb timer_queue \<Rightarrow> 'cb timer_queue" where
  "readTimerfd q = q\<lparr>alarm := None\<rparr>"

text \<open>\<^verbatim>\<open>TimerQueue::insert\<close>: whether the new timer is the earliest, and the queue.\<close>

definition insert_timer :: "'cb env \<Rightarrow> addr \<Rightarrow> 'cb timer_queue \<Rightarrow> (bool \<times> 'cb timer_queue) result" where
  "insert_timer env p q =
     rbind (assertInLoop env) (\<lambda>_.
     rbind (assert_sizes q) (\<lambda>_.
     rbind (deref p q) (\<lambda>t.
     let when = expiration t;
         earliestChanged = (timers q = [] \<or> when < fst (hd (timers q)));
         (ts, new1) = set_insert (when, p) (timers q)
     in rbind (check new1 AssertFailure) (\<lambda>_.
     let (as, new2) = set_insert (p, sequence t) (activeTimers q)
     in rbind (check new2 AssertFailure) (\<lambda>_.
     let q' = q\<lparr>timers := ts, activeTimers := as\<rparr>
     in rbind (assert_sizes q') (\<lambda>_. Inr (earliestChanged, q')))))))"

definition addTimerInLoop :: "'cb env \<Rightarrow> addr \<Rightarrow> 'cb timer_queue \<Rightarrow> 'cb timer_queue result" where
  "addTimerInLoop env p q =
     rbind (assertInLoop env) (\<lambda>_.
     rbind (insert_timer env p q) (\<lambda>(earliestChanged, q').
       if earliestChanged
       then rbind (deref p q') (\<lambda>t. Inr (resetTimerfd env (expiration t) q'))
       else Inr q'))"

text \<open>The part of \<^verbatim>\<open>addTimer\<close> before it hands the timer to the loop: \<^verbatim>\<open>new Timer\<close>.\<close>

definition create_timer ::
  "'cb env \<Rightarrow> 'cb \<Rightarrow> timestamp \<Rightarrow> double \<Rightarrow> 'cb timer_queue \<Rightarrow> (addr \<times> 'cb timer_queue) result" where
  "create_timer env cb when ivl q =
     (case alloc env (heap q) of
        None \<Rightarrow> Inl BadAlloc
      | Some p \<Rightarrow> let (t, c) = Timer_new cb when ivl (numCreated q) in
          Inr (p, q\<lparr>heap := (heap q)(p \<mapsto> t), numCreated := c\<rparr>))"

text \<open>\<^verbatim>\<open>addTimer\<close> called in the thread of the loop, where \<^verbatim>\<open>runInLoop\<close> runs its argument at once.\<close>

definition addTimer ::
  "'cb env \<Rightarrow> 'cb \<Rightarrow> timestamp \<Rightarrow> double \<Rightarrow> 'cb timer_queue \<Rightarrow> (timer_id \<times> 'cb timer_queue) result" where
  "addTimer env cb when ivl q =
     rbind (create_timer env cb when ivl q) (\<lambda>(p, q1).
     rbind (addTimerInLoop env p q1) (\<lambda>q2.
     rbind (deref p q2) (\<lambda>t. Inr (\<lparr>id_timer = p, id_sequence = sequence t\<rparr>, q2))))"

definition cancelInLoop :: "'cb env \<Rightarrow> timer_id \<Rightarrow> 'cb timer_queue \<Rightarrow> 'cb timer_queue result" where
  "cancelInLoop env tid q =
     rbind (assertInLoop env) (\<lambda>_.
     rbind (assert_sizes q) (\<lambda>_.
     rbind
       (let p = id_timer tid; at = (p, id_sequence tid) in
        if at \<in> set (activeTimers q) then
          rbind (deref p q) (\<lambda>t.
          let (ts, n) = set_erase (expiration t, p) (timers q) in
          rbind (check (n = 1) AssertFailure) (\<lambda>_.
          rbind (delete_timer p (q\<lparr>timers := ts\<rparr>)) (\<lambda>q'.
            Inr (q'\<lparr>activeTimers := fst (set_erase at (activeTimers q'))\<rparr>))))
        else if callingExpiredTimers q then
          Inr (q\<lparr>cancelingTimers := fst (set_insert at (cancelingTimers q))\<rparr>)
        else Inr q)
       (\<lambda>q'. rbind (assert_sizes q') (\<lambda>_. Inr q'))))"

fun do_action :: "'cb env \<Rightarrow> 'cb timer_action \<Rightarrow> 'cb timer_queue \<Rightarrow> 'cb timer_queue result" where
  "do_action env (AddTimer cb when ivl) q = rbind (addTimer env cb when ivl q) (\<lambda>(_, q'). Inr q')"
| "do_action env (CancelTimer tid) q = cancelInLoop env tid q"

text \<open>\<^verbatim>\<open>Timer::run\<close> on the timer of an entry.\<close>

definition run_timer :: "'cb env \<Rightarrow> entry \<Rightarrow> 'cb timer_queue \<Rightarrow> 'cb timer_queue result" where
  "run_timer env e q =
     rbind (deref (snd e) q) (\<lambda>t.
       rfold (do_action env) (program env (callback t) q) (q\<lparr>fired := fired q @ [snd e]\<rparr>))"

definition erase_active :: "entry \<Rightarrow> 'cb timer_queue \<Rightarrow> 'cb timer_queue result" where
  "erase_active e q =
     rbind (deref (snd e) q) (\<lambda>t.
     let (as, n) = set_erase (snd e, sequence t) (activeTimers q) in
     rbind (check (n = 1) AssertFailure) (\<lambda>_. Inr (q\<lparr>activeTimers := as\<rparr>)))"

text \<open>\<^verbatim>\<open>getExpired\<close>; the key of the search is the pair of the time and the greatest address.\<close>

definition getExpired :: "timestamp \<Rightarrow> 'cb timer_queue \<Rightarrow> (entry list \<times> 'cb timer_queue) result" where
  "getExpired now q =
     rbind (assert_sizes q) (\<lambda>_.
     let (expired, rest) = set_lower_bound (now, - 1) (timers q) in
     rbind (check (rest = [] \<or> now < fst (hd rest)) AssertFailure) (\<lambda>_.
     rbind (rfold erase_active expired (q\<lparr>timers := rest\<rparr>)) (\<lambda>q'.
     rbind (assert_sizes q') (\<lambda>_. Inr (expired, q')))))"

definition reset_one :: "'cb env \<Rightarrow> timestamp \<Rightarrow> entry \<Rightarrow> 'cb timer_queue \<Rightarrow> 'cb timer_queue result" where
  "reset_one env now e q =
     (let p = snd e in
      rbind (deref p q) (\<lambda>t.
      if repeats t \<and> (p, sequence t) \<notin> set (cancelingTimers q) then
        rbind (insert_timer env p (q\<lparr>heap := (heap q)(p \<mapsto> restart now t)\<rparr>)) (\<lambda>(_, q'). Inr q')
      else delete_timer p q))"

definition reset :: "'cb env \<Rightarrow> entry list \<Rightarrow> timestamp \<Rightarrow> 'cb timer_queue \<Rightarrow> 'cb timer_queue result" where
  "reset env expired now q =
     rbind (rfold (reset_one env now) expired q) (\<lambda>q'.
     rbind (if timers q' = [] then Inr invalid
            else rbind (deref (snd (hd (timers q'))) q') (\<lambda>t. Inr (expiration t))) (\<lambda>nextExpire.
       Inr (if valid nextExpire then resetTimerfd env nextExpire q' else q')))"

definition handleRead :: "'cb env \<Rightarrow> 'cb timer_queue \<Rightarrow> 'cb timer_queue result" where
  "handleRead env q =
     rbind (assertInLoop env) (\<lambda>_.
     let (now, q1) = read_clock env q in
     rbind (getExpired now (readTimerfd q1)) (\<lambda>(expired, q2).
     rbind (rfold (run_timer env) expired (q2\<lparr>callingExpiredTimers := True, cancelingTimers := []\<rparr>)) (\<lambda>q3.
       reset env expired now (q3\<lparr>callingExpiredTimers := False\<rparr>))))"

text \<open>The destructor deletes the timers that are still in the queue.\<close>

definition TimerQueue_delete :: "'cb timer_queue \<Rightarrow> 'cb timer_queue result" where
  "TimerQueue_delete q = rfold (\<lambda>e. delete_timer (snd e)) (timers q) q"

section \<open>Invariant\<close>

definition seq_at :: "'cb timer_queue \<Rightarrow> addr \<Rightarrow> int" where
  "seq_at q p = (case heap q p of None \<Rightarrow> 0 | Some t \<Rightarrow> sequence t)"

definition active_of :: "'cb timer_queue \<Rightarrow> entry \<Rightarrow> active_timer" where
  "active_of q e = (snd e, seq_at q (snd e))"

text \<open>
  The queue is well-formed with a set \<open>P\<close> of timers that are allocated but not in the queue
  (created and not yet added, or expired and being run): both sets agree and are keyed by
  what the timers say, and the heap holds exactly the timers of the queue and of \<open>P\<close>.
\<close>

definition tq_inv :: "addr set \<Rightarrow> 'cb timer_queue \<Rightarrow> bool" where
  "tq_inv P q \<longleftrightarrow>
     is_std_set (timers q) \<and>
     (\<forall>(when, p) \<in> set (timers q). \<exists>t. heap q p = Some t \<and> expiration t = when) \<and>
     mset (activeTimers q) = mset (map (active_of q) (timers q)) \<and>
     dom (heap q) = P \<union> snd ` set (timers q) \<and> P \<inter> snd ` set (timers q) = {} \<and>
     - 1 \<notin> dom (heap q)"

text \<open>What \<^verbatim>\<open>operator new\<close> promises: an address in no living object, and not the last one.\<close>

definition alloc_ok :: "'cb env \<Rightarrow> bool" where
  "alloc_ok env \<longleftrightarrow> (\<forall>h p. alloc env h = Some p \<longrightarrow> p \<notin> dom h \<and> p \<noteq> 0 \<and> p \<noteq> - 1)"

text \<open>A timer in the queue is never waited for beyond its expiration.\<close>

definition alarm_inv :: "'cb timer_queue \<Rightarrow> bool" where
  "alarm_inv q \<longleftrightarrow>
     (timers q \<noteq> [] \<longrightarrow> (\<exists>a. alarm q = Some a \<and> a \<le> fst (hd (timers q))))"

section \<open>Facts about well-formed queues\<close>

lemma active_of_cong: "heap q' = heap q \<Longrightarrow> active_of q' = active_of q"
  by (simp add: active_of_def seq_at_def fun_eq_iff)

lemma active_of_upd:
  "e \<in> A \<Longrightarrow> p \<notin> snd ` A \<Longrightarrow> active_of (q\<lparr>heap := (heap q)(p := x)\<rparr>) e = active_of q e"
  by (auto simp: active_of_def seq_at_def)

lemma tq_inv_lengths: "tq_inv P q \<Longrightarrow> length (timers q) = length (activeTimers q)"
  unfolding tq_inv_def by (metis length_map mset_eq_length)

lemma assert_sizes_ok: "tq_inv P q \<Longrightarrow> assert_sizes q = Inr ()"
  by (simp add: assert_sizes_def check_def tq_inv_lengths)

lemma tq_inv_timerD:
  assumes "tq_inv P q" "(w, p) \<in> set (timers q)"
  shows "\<exists>t. heap q p = Some t \<and> expiration t = w"
  using assms unfolding tq_inv_def by (blast dest: bspec [where x = "(w, p)"])

lemma tq_inv_timer:
  assumes "tq_inv P q" "(w, p) \<in> set (timers q)"
  obtains t where "heap q p = Some t" "expiration t = w"
  using tq_inv_timerD [OF assms] by blast

lemma tq_inv_unique:
  "tq_inv P q \<Longrightarrow> (w, p) \<in> set (timers q) \<Longrightarrow> (w', p) \<in> set (timers q) \<Longrightarrow> w' = w"
  by (metis option.inject tq_inv_timerD)

lemma tq_inv_active_iff:
  assumes "tq_inv P q"
  shows "(p, n) \<in> set (activeTimers q) \<longleftrightarrow>
    (\<exists>t. heap q p = Some t \<and> sequence t = n \<and> (expiration t, p) \<in> set (timers q))"
proof -
  have "set (activeTimers q) = active_of q ` set (timers q)"
    using assms unfolding tq_inv_def by (metis set_map set_mset_mset)
  then have "(p, n) \<in> set (activeTimers q) \<longleftrightarrow> (\<exists>w. (w, p) \<in> set (timers q) \<and> seq_at q p = n)"
    by (force simp: active_of_def image_iff)
  also have "\<dots> \<longleftrightarrow> (\<exists>t. heap q p = Some t \<and> sequence t = n \<and> (expiration t, p) \<in> set (timers q))"
    using tq_inv_timerD [OF assms] by (fastforce simp: seq_at_def)
  finally show ?thesis .
qed

lemma tq_inv_detached:
  assumes "tq_inv P q" "p \<in> P"
  obtains t where "heap q p = Some t"
  using assms unfolding tq_inv_def by (metis UnI1 domD)

lemma tq_inv_last_addr: "tq_inv P q \<Longrightarrow> (w, p) \<in> set (timers q) \<Longrightarrow> p \<noteq> - 1"
  unfolding tq_inv_def by force

lemma tq_invI:
  assumes "is_std_set (timers q)"
    and "\<And>w p. (w, p) \<in> set (timers q) \<Longrightarrow> \<exists>t. heap q p = Some t \<and> expiration t = w"
    and "mset (activeTimers q) = mset (map f (timers q))"
    and "\<And>e. e \<in> set (timers q) \<Longrightarrow> active_of q e = f e"
    and "dom (heap q) = P \<union> snd ` set (timers q)" "P \<inter> snd ` set (timers q) = {}"
    and "- 1 \<notin> dom (heap q)"
  shows "tq_inv P q"
proof -
  have "map f (timers q) = map (active_of q) (timers q)" using assms(4) by simp
  with assms show ?thesis by (auto simp: tq_inv_def simp del: mset_map)
qed

lemma tq_invD:
  assumes "tq_inv P q"
  shows "is_std_set (timers q)" "mset (activeTimers q) = mset (map (active_of q) (timers q))"
    "dom (heap q) = P \<union> snd ` set (timers q)" "P \<inter> snd ` set (timers q) = {}" "- 1 \<notin> dom (heap q)"
  using assms unfolding tq_inv_def by blast+

text \<open>Fields the invariant does not mention.\<close>

lemma tq_inv_frame [simp]:
  "tq_inv P (q\<lparr>callingExpiredTimers := c\<rparr>) = tq_inv P q"
  "tq_inv P (q\<lparr>cancelingTimers := ct\<rparr>) = tq_inv P q"
  "tq_inv P (q\<lparr>clockReads := n\<rparr>) = tq_inv P q"
  "tq_inv P (q\<lparr>settimes := st\<rparr>) = tq_inv P q"
  "tq_inv P (q\<lparr>alarm := a\<rparr>) = tq_inv P q"
  "tq_inv P (q\<lparr>fired := r\<rparr>) = tq_inv P q"
  "tq_inv P (q\<lparr>numCreated := k\<rparr>) = tq_inv P q"
  by (simp_all add: tq_inv_def active_of_def seq_at_def cong: map_cong)

section \<open>Inserting\<close>

lemma tq_inv_insert:
  assumes inv: "tq_inv P q" and p: "p \<in> P" and t: "heap q p = Some t"
  shows "tq_inv (P - {p}) (q\<lparr>timers := insort (expiration t, p) (timers q),
                              activeTimers := insort (p, sequence t) (activeTimers q)\<rparr>)"
proof -
  have "(expiration t, p) \<notin> set (timers q)" using inv p unfolding tq_inv_def by force
  then have "is_std_set (insort (expiration t, p) (timers q))"
    using inv by (simp add: tq_inv_def is_std_set_insort)
  moreover have "active_of q (expiration t, p) = (p, sequence t)"
    using t by (simp add: active_of_def seq_at_def)
  moreover have "active_of (q\<lparr>timers := ts, activeTimers := as\<rparr>) = active_of q" for ts as
    by (rule active_of_cong) simp
  ultimately show ?thesis
    using inv p t by (auto simp: tq_inv_def set_insort_key)
qed

lemma insert_timer_ok:
  assumes inv: "tq_inv P q" and p: "p \<in> P" and t: "heap q p = Some t" and thread: "inLoopThread env"
  shows "insert_timer env p q =
    Inr (timers q = [] \<or> expiration t < fst (hd (timers q)),
         q\<lparr>timers := insort (expiration t, p) (timers q),
           activeTimers := insort (p, sequence t) (activeTimers q)\<rparr>)"
proof -
  have "(expiration t, p) \<notin> set (timers q)" using inv p unfolding tq_inv_def by force
  moreover have "(p, sequence t) \<notin> set (activeTimers q)"
    using inv p calculation by (simp add: tq_inv_active_iff t)
  moreover have "assert_sizes (q\<lparr>timers := insort (expiration t, p) (timers q),
      activeTimers := insort (p, sequence t) (activeTimers q)\<rparr>) = Inr ()"
    using tq_inv_lengths [OF inv] by (simp add: assert_sizes_def check_def)
  ultimately show ?thesis
    using thread t
    by (simp add: insert_timer_def assertInLoop_def deref_def Let_def assert_sizes_ok [OF inv])
qed

text \<open>The first entry after an insertion.\<close>

lemma hd_timers_insort:
  assumes "is_std_set ts" "(w, p) \<notin> set ts"
  shows "fst (hd (insort (w, p) ts)) = (if ts = [] \<or> w < fst (hd ts) then w else fst (hd ts))"
proof -
  have "hd (insort (w, p) ts) = (if ts = [] \<or> (w, p) < hd ts then (w, p) else hd ts)"
    using ss.hd_after_ins [of ts "(w, p)" "insort (w, p) ts" True] assms by simp
  then show ?thesis by (cases "hd ts") (auto simp: less_prod_def not_less)
qed

definition after_add :: "'cb env \<Rightarrow> addr \<Rightarrow> 'cb timer \<Rightarrow> 'cb timer_queue \<Rightarrow> 'cb timer_queue" where
  "after_add env p t q =
     (let q' = q\<lparr>timers := insort (expiration t, p) (timers q),
                 activeTimers := insort (p, sequence t) (activeTimers q)\<rparr>
      in if timers q = [] \<or> expiration t < fst (hd (timers q))
         then resetTimerfd env (expiration t) q' else q')"

lemma after_add_simps [simp]:
  "heap (after_add env p t q) = heap q"
  "timers (after_add env p t q) = insort (expiration t, p) (timers q)"
  "cancelingTimers (after_add env p t q) = cancelingTimers q"
  "callingExpiredTimers (after_add env p t q) = callingExpiredTimers q"
  "fired (after_add env p t q) = fired q"
  "numCreated (after_add env p t q) = numCreated q"
  by (simp_all add: after_add_def resetTimerfd_def read_clock_def Let_def)

lemma alarm_after_add:
  "alarm (after_add env p t q) =
     (if timers q = [] \<or> expiration t < fst (hd (timers q)) then Some (expiration t) else alarm q)"
  by (simp add: after_add_def resetTimerfd_def read_clock_def Let_def)

lemma tq_inv_after_add:
  assumes "tq_inv P q" "p \<in> P" "heap q p = Some t"
  shows "tq_inv (P - {p}) (after_add env p t q)"
  using tq_inv_insert [OF assms] by (simp add: after_add_def resetTimerfd_def read_clock_def Let_def)

lemma addTimerInLoop_ok:
  assumes "tq_inv P q" "p \<in> P" "heap q p = Some t" "inLoopThread env"
  shows "addTimerInLoop env p q = Inr (after_add env p t q)"
  using assms(3,4) insert_timer_ok [OF assms]
  by (simp add: addTimerInLoop_def assertInLoop_def deref_def after_add_def Let_def)

section \<open>Cancelling\<close>

lemma mset_map_remove1:
  "x \<in> set xs \<Longrightarrow> mset (map f (remove1 x xs)) = mset (map f xs) - {#f x#}"
  by (simp add: image_mset_Diff)

text \<open>The state after the entry of an active timer has been erased and the timer deleted.\<close>

definition after_cancel :: "addr \<Rightarrow> 'cb timer \<Rightarrow> 'cb timer_queue \<Rightarrow> 'cb timer_queue" where
  "after_cancel p t q =
     q\<lparr>heap := (heap q)(p := None), timers := remove1 (expiration t, p) (timers q),
       activeTimers := remove1 (p, sequence t) (activeTimers q)\<rparr>"

lemma tq_inv_after_cancel:
  assumes inv: "tq_inv P q" and t: "heap q p = Some t" and e: "(expiration t, p) \<in> set (timers q)"
  shows "tq_inv P (after_cancel p t q)"
proof -
  let ?e = "(expiration t, p)" and ?q = "after_cancel p t q"
  note D = tq_invD [OF inv]
  have rest: "set (timers ?q) = set (timers q) - {?e}"
    by (simp add: after_cancel_def set_remove1_eq is_std_set_distinct D)
  have other: "p \<notin> snd ` set (timers ?q)"
    using tq_inv_unique [OF inv e] by (auto simp: rest)
  have p: "p \<notin> P" using D(4) e by force
  have snds: "snd ` set (timers ?q) = snd ` set (timers q) - {p}"
    using other by (auto simp: rest image_iff)
  show ?thesis
  proof (rule tq_invI [where f = "active_of q"])
    show "is_std_set (timers ?q)" by (simp add: after_cancel_def is_std_set_remove1 D)
    show "\<exists>t. heap ?q p' = Some t \<and> expiration t = w" if "(w, p') \<in> set (timers ?q)" for w p'
      using that other tq_inv_timerD [OF inv, of w p'] by (force simp: rest after_cancel_def)
    show "active_of ?q e' = active_of q e'" if "e' \<in> set (timers ?q)" for e'
      using that other by (auto simp: after_cancel_def active_of_def seq_at_def)
    have "active_of q ?e = (p, sequence t)" using t by (simp add: active_of_def seq_at_def)
    then show "mset (activeTimers ?q) = mset (map (active_of q) (timers ?q))"
      using mset_map_remove1 [OF e, of "active_of q"] D(2) by (simp add: after_cancel_def)
    show "dom (heap ?q) = P \<union> snd ` set (timers ?q)"
      unfolding snds using D(3) p by (auto simp: after_cancel_def)
    show "P \<inter> snd ` set (timers ?q) = {}" unfolding snds using D(4) by blast
    show "- 1 \<notin> dom (heap ?q)" using D(5) by (simp add: after_cancel_def)
  qed
qed

lemma cancelInLoop_active:
  assumes inv: "tq_inv P q" and thread: "inLoopThread env"
    and t: "heap q (id_timer tid) = Some t" "sequence t = id_sequence tid"
    and e: "(expiration t, id_timer tid) \<in> set (timers q)"
  shows "cancelInLoop env tid q = Inr (after_cancel (id_timer tid) t q)"
proof -
  have "(id_timer tid, id_sequence tid) \<in> set (activeTimers q)"
    using tq_inv_active_iff [OF inv] t e by simp
  moreover have "length (remove1 (expiration t, id_timer tid) (timers q)) =
      length (remove1 (id_timer tid, id_sequence tid) (activeTimers q))"
    using tq_inv_lengths [OF tq_inv_after_cancel [OF inv t(1) e]] t by (simp add: after_cancel_def)
  ultimately show ?thesis
    using thread t e tq_inv_lengths [OF inv]
    by (simp add: cancelInLoop_def assertInLoop_def assert_sizes_def check_def Let_def deref_def
        delete_timer_def set_erase_def after_cancel_def)
qed

lemma cancelInLoop_inactive:
  assumes inv: "tq_inv P q" and thread: "inLoopThread env"
    and no: "(id_timer tid, id_sequence tid) \<notin> set (activeTimers q)"
  shows "cancelInLoop env tid q =
    Inr (if callingExpiredTimers q
         then q\<lparr>cancelingTimers := fst (set_insert (id_timer tid, id_sequence tid) (cancelingTimers q))\<rparr>
         else q)"
  using thread no tq_inv_lengths [OF inv]
  by (simp add: cancelInLoop_def assertInLoop_def assert_sizes_def check_def Let_def)

section \<open>What callbacks may do\<close>

text \<open>
  The actions of a callback keep the queue well-formed, leave the timers outside the queue
  alone, forget no cancellation, and run no timer.
\<close>

definition undisturbed :: "addr set \<Rightarrow> 'cb timer_queue \<Rightarrow> 'cb timer_queue \<Rightarrow> bool" where
  "undisturbed P q q' \<longleftrightarrow> tq_inv P q' \<and> (\<forall>p\<in>P. heap q' p = heap q p) \<and>
     set (cancelingTimers q) \<subseteq> set (cancelingTimers q') \<and> fired q' = fired q \<and>
     callingExpiredTimers q' = callingExpiredTimers q"

lemma undisturbed_refl: "tq_inv P q \<Longrightarrow> undisturbed P q q"
  by (simp add: undisturbed_def)

lemma undisturbed_trans: "undisturbed P q q' \<Longrightarrow> undisturbed P q' q'' \<Longrightarrow> undisturbed P q q''"
  by (auto simp: undisturbed_def)

lemma set_fst_set_insert [simp]: "set (fst (set_insert x xs)) = insert x (set xs)"
  by (auto simp: set_insert_def set_insort_key)

lemma cancelInLoop_undisturbed:
  assumes inv: "tq_inv P q" and thread: "inLoopThread env"
  shows "yields E (undisturbed P q) (cancelInLoop env tid q)"
proof (cases "(id_timer tid, id_sequence tid) \<in> set (activeTimers q)")
  case True
  then obtain t where t: "heap q (id_timer tid) = Some t" "sequence t = id_sequence tid"
    "(expiration t, id_timer tid) \<in> set (timers q)"
    using tq_inv_active_iff [OF inv] by blast
  have "id_timer tid \<notin> P" using inv t(3) unfolding tq_inv_def by force
  then show ?thesis
    using cancelInLoop_active [OF inv thread t] tq_inv_after_cancel [OF inv t(1,3)]
    by (auto simp: undisturbed_def) (auto simp: after_cancel_def)
next
  case False
  then show ?thesis
    using cancelInLoop_inactive [OF inv thread] inv by (auto simp: undisturbed_def)
qed

lemma tq_inv_alloc:
  assumes inv: "tq_inv P q" and p: "p \<notin> dom (heap q)" "p \<noteq> - 1"
  shows "tq_inv (insert p P) (q\<lparr>heap := (heap q)(p \<mapsto> t), numCreated := c\<rparr>)"
proof -
  let ?q = "q\<lparr>heap := (heap q)(p \<mapsto> t), numCreated := c\<rparr>"
  note D = tq_invD [OF inv]
  have fresh: "p \<notin> snd ` set (timers q)" using D(3) p by auto
  show ?thesis
  proof (rule tq_invI [where f = "active_of q"])
    show "\<exists>t. heap ?q p' = Some t \<and> expiration t = w" if "(w, p') \<in> set (timers ?q)" for w p'
      using that fresh tq_inv_timerD [OF inv, of w p'] by force
    show "active_of ?q e = active_of q e" if "e \<in> set (timers ?q)" for e
      using that fresh by (auto simp: active_of_def seq_at_def)
  qed (use D fresh p in \<open>auto simp del: mset_map\<close>)
qed

lemma create_timer_ok:
  assumes "tq_inv P q" "alloc_ok env"
  shows "yields {BadAlloc} (\<lambda>(p, q'). p \<notin> dom (heap q) \<and> tq_inv (insert p P) q' \<and>
      (\<exists>t. q' = q\<lparr>heap := (heap q)(p \<mapsto> t), numCreated := numCreated q + 1\<rparr> \<and>
           t = \<lparr>callback = cb, expiration = when, interval = ivl, repeats = double_pos ivl,
                sequence = sint (numCreated q + 1)\<rparr>))
    (create_timer env cb when ivl q)"
  using assms tq_inv_alloc [OF assms(1)]
  by (auto simp: create_timer_def Timer_new_def incrementAndGet_def addAndGet_def Let_def
      alloc_ok_def split: option.split)

text \<open>What \<^verbatim>\<open>addTimer\<close> does to the queue.\<close>

definition timer_added :: "'cb \<Rightarrow> timestamp \<Rightarrow> 'cb timer_queue \<Rightarrow> timer_id \<Rightarrow> 'cb timer_queue \<Rightarrow> bool" where
  "timer_added cb w q tid q' \<longleftrightarrow>
     (\<exists>t. heap q' = (heap q)(id_timer tid \<mapsto> t) \<and> id_timer tid \<notin> dom (heap q) \<and>
          sequence t = id_sequence tid \<and> callback t = cb \<and> expiration t = w) \<and>
     timers q' = insort (w, id_timer tid) (timers q) \<and>
     alarm q' = (if timers q = [] \<or> w < fst (hd (timers q)) then Some w else alarm q)"

lemma addTimer_ok:
  assumes inv: "tq_inv P q" and alloc: "alloc_ok env" and thread: "inLoopThread env"
  shows "yields {BadAlloc} (\<lambda>(tid, q'). undisturbed P q q' \<and> timer_added cb w q tid q')
    (addTimer env cb w ivl q)"
  unfolding addTimer_def
proof (rule yields_bind [OF create_timer_ok [OF inv alloc]])
  fix x
  let ?t = "\<lparr>callback = cb, expiration = w, interval = ivl, repeats = double_pos ivl,
             sequence = sint (numCreated q + 1)\<rparr>"
  assume "case x of (p, q') \<Rightarrow> p \<notin> dom (heap q) \<and> tq_inv (insert p P) q' \<and>
      (\<exists>t. q' = q\<lparr>heap := (heap q)(p \<mapsto> t), numCreated := numCreated q + 1\<rparr> \<and> t = ?t)"
  then obtain p q1 where x: "x = (p, q1)" and p: "p \<notin> dom (heap q)" and inv1: "tq_inv (insert p P) q1"
    and q1: "q1 = q\<lparr>heap := (heap q)(p \<mapsto> ?t), numCreated := numCreated q + 1\<rparr>"
    by blast
  let ?q = q1
  have add: "addTimerInLoop env p ?q = Inr (after_add env p ?t ?q)"
    using inv1 thread by (intro addTimerInLoop_ok) (auto simp: q1)
  have "p \<notin> P" using tq_invD(3) [OF inv] p by blast
  moreover have "tq_inv (insert p P - {p}) (after_add env p ?t ?q)"
    using inv1 by (intro tq_inv_after_add) (auto simp: q1)
  ultimately have "undisturbed P q (after_add env p ?t ?q)"
    by (auto simp: undisturbed_def) (auto simp: q1)
  moreover have "timer_added cb w q \<lparr>id_timer = p, id_sequence = sint (numCreated q + 1)\<rparr> (after_add env p ?t ?q)"
    unfolding timer_added_def
    using p by (intro conjI exI [where x = ?t]) (simp_all add: alarm_after_add q1)
  ultimately show "yields {BadAlloc} (\<lambda>(tid, q'). undisturbed P q q' \<and> timer_added cb w q tid q')
      (case x of (p, q1) \<Rightarrow> rbind (addTimerInLoop env p q1) (\<lambda>q2.
         rbind (deref p q2) (\<lambda>t. Inr (\<lparr>id_timer = p, id_sequence = sequence t\<rparr>, q2))))"
    using add by (simp add: x deref_def) (simp add: q1)
qed

lemma do_action_undisturbed:
  assumes "tq_inv P q" "alloc_ok env" "inLoopThread env"
  shows "yields {BadAlloc} (undisturbed P q) (do_action env a q)"
proof (cases a)
  case (AddTimer cb w ivl)
  then show ?thesis
    using addTimer_ok [OF assms, of cb w ivl] by (auto intro!: yields_bind elim: yields_mono)
next
  case (CancelTimer tid)
  with cancelInLoop_undisturbed [OF assms(1,3)] show ?thesis by simp
qed

lemma actions_undisturbed:
  assumes "tq_inv P q" "alloc_ok env" "inLoopThread env"
  shows "yields {BadAlloc} (undisturbed P q) (rfold (do_action env) as q)"
proof (rule yields_rfold [where I = "\<lambda>_. undisturbed P q"])
  show "undisturbed P q q" using assms(1) by (rule undisturbed_refl)
next
  fix a s
  assume s: "undisturbed P q s"
  then have "yields {BadAlloc} (undisturbed P s) (do_action env a s)"
    using assms by (intro do_action_undisturbed) (simp_all add: undisturbed_def)
  then show "yields {BadAlloc} (undisturbed P q) (do_action env a s)"
    using s by (auto elim: yields_mono undisturbed_trans)
qed

section \<open>Taking out the expired timers\<close>

definition due :: "timestamp \<Rightarrow> 'cb timer_queue \<Rightarrow> entry list" where
  "due now q = filter (\<lambda>e. fst e \<le> now) (timers q)"

definition not_due :: "timestamp \<Rightarrow> 'cb timer_queue \<Rightarrow> entry list" where
  "not_due now q = filter (\<lambda>e. now < fst e) (timers q)"

text \<open>The search key separates the entries by their time alone.\<close>

lemma before_key: "p \<noteq> - 1 \<Longrightarrow> (w, p) < (now, - 1 :: addr) \<longleftrightarrow> w \<le> (now :: timestamp)"
  by (auto simp: less_prod_def simp flip: word_order.not_eq_extremum)

lemma lower_bound_due:
  assumes inv: "tq_inv P q"
  shows "set_lower_bound (now, - 1) (timers q) = (due now q, not_due now q)"
proof -
  obtain lo hi where lh: "set_lower_bound (now, - 1) (timers q) = (lo, hi)" by fastforce
  have split: "timers q = lo @ hi" "\<forall>x\<in>set lo. x < (now, - 1)" "\<forall>x\<in>set hi. (now, - 1) \<le> x"
    using ss.lower_split [OF tq_invD(1) [OF inv] lh] by simp_all
  have key: "e < (now, - 1) \<longleftrightarrow> fst e \<le> now" if "e \<in> set (timers q)" for e
    using that tq_inv_last_addr [OF inv, of "fst e" "snd e"] before_key [of "snd e" "fst e" now] by simp
  have "\<forall>e\<in>set lo. fst e \<le> now" "\<forall>e\<in>set hi. \<not> fst e \<le> now"
    using split key by (auto simp: not_less [symmetric])
  then have "due now q = lo" "not_due now q = hi"
    by (simp_all add: due_def not_due_def split(1) filter_id_conv filter_empty_conv not_le not_less)
  with lh show ?thesis by simp
qed

lemma timers_split: "tq_inv P q \<Longrightarrow> timers q = due now q @ not_due now q"
  using ss.lower_split [OF tq_invD(1) lower_bound_due] by blast

lemma erase_active_all:
  assumes "\<And>e. e \<in> set E \<Longrightarrow> heap q (snd e) \<noteq> None"
    and "mset (activeTimers q) = mset (map (active_of q) (E @ R))"
  shows "\<exists>as. rfold erase_active E q = Inr (q\<lparr>activeTimers := as\<rparr>) \<and>
           mset as = mset (map (active_of q) R)"
  using assms
proof (induction E arbitrary: q)
  case Nil
  then show ?case by (intro exI [of _ "activeTimers q"]) simp
next
  case (Cons e E)
  obtain t where t: "heap q (snd e) = Some t" using Cons.prems(1) [of e] by auto
  let ?as = "remove1 (snd e, sequence t) (activeTimers q)"
  have ae: "active_of q e = (snd e, sequence t)" using t by (simp add: active_of_def seq_at_def)
  have "set (activeTimers q) = set (map (active_of q) (e # E @ R))"
    using mset_eq_setD [OF Cons.prems(2)] by simp
  then have "(snd e, sequence t) \<in> set (activeTimers q)" using ae by simp
  then have step: "erase_active e q = Inr (q\<lparr>activeTimers := ?as\<rparr>)"
    using t by (simp add: erase_active_def deref_def)
  have cong: "active_of (q\<lparr>activeTimers := ?as\<rparr>) = active_of q" by (rule active_of_cong) simp
  have "mset (activeTimers (q\<lparr>activeTimers := ?as\<rparr>)) = mset (map (active_of (q\<lparr>activeTimers := ?as\<rparr>)) (E @ R))"
    using Cons.prems(2) ae unfolding cong by simp
  then obtain as where "rfold erase_active E (q\<lparr>activeTimers := ?as\<rparr>) = Inr (q\<lparr>activeTimers := as\<rparr>)"
    "mset as = mset (map (active_of q) R)"
    using Cons.IH [of "q\<lparr>activeTimers := ?as\<rparr>"] Cons.prems(1) unfolding cong by auto
  with step show ?case by auto
qed

lemma getExpired_ok:
  assumes inv: "tq_inv P q"
  obtains as where
    "getExpired now q = Inr (due now q, q\<lparr>timers := not_due now q, activeTimers := as\<rparr>)"
    "tq_inv (P \<union> snd ` set (due now q)) (q\<lparr>timers := not_due now q, activeTimers := as\<rparr>)"
proof -
  note D = tq_invD [OF inv]
  have ts: "timers q = due now q @ not_due now q" by (rule timers_split [OF inv])
  let ?q = "q\<lparr>timers := not_due now q\<rparr>"
  have cong: "active_of ?q = active_of q" by (rule active_of_cong) simp
  have "heap ?q (snd e) \<noteq> None" if "e \<in> set (due now q)" for e
    using that tq_inv_timerD [OF inv, of "fst e" "snd e"] by (auto simp: ts)
  moreover have "mset (activeTimers ?q) = mset (map (active_of ?q) (due now q @ not_due now q))"
    using D(2) by (simp only: cong ts) simp
  ultimately obtain as where as: "rfold erase_active (due now q) ?q = Inr (?q\<lparr>activeTimers := as\<rparr>)"
    "mset as = mset (map (active_of q) (not_due now q))"
    using erase_active_all [of "due now q" ?q "not_due now q"] unfolding cong by auto
  have "distinct (map snd (timers q))"
    using is_std_set_distinct [OF D(1)] tq_inv_unique [OF inv]
    by (auto simp: distinct_map inj_on_def)
  then have disj: "snd ` set (due now q) \<inter> snd ` set (not_due now q) = {}" by (simp add: ts)
  have inv': "tq_inv (P \<union> snd ` set (due now q)) (?q\<lparr>activeTimers := as\<rparr>)"
  proof (rule tq_invI [where f = "active_of q"])
    show "is_std_set (timers (?q\<lparr>activeTimers := as\<rparr>))"
      using D(1) by (simp add: is_std_set_def not_due_def sorted_wrt_filter)
    show "\<exists>t. heap (?q\<lparr>activeTimers := as\<rparr>) p = Some t \<and> expiration t = w"
      if "(w, p) \<in> set (timers (?q\<lparr>activeTimers := as\<rparr>))" for w p
      using that tq_inv_timerD [OF inv, of w p] by (simp add: ts)
    show "active_of (?q\<lparr>activeTimers := as\<rparr>) e = active_of q e" for e
      by (simp add: active_of_def seq_at_def)
  qed (use as(2) D(3-5) disj in \<open>auto simp: ts simp del: mset_map\<close>)
  have "not_due now q = [] \<or> now < fst (hd (not_due now q))"
    using hd_in_set [of "not_due now q"] by (auto simp: not_due_def)
  then have "getExpired now q = Inr (due now q, ?q\<lparr>activeTimers := as\<rparr>)"
    using as(1) assert_sizes_ok [OF inv']
    by (simp add: getExpired_def assert_sizes_ok [OF inv] lower_bound_due [OF inv])
  with inv' that show ?thesis by simp
qed

section \<open>Running the expired timers\<close>

text \<open>Like \<open>undisturbed\<close>, but timers have been run.\<close>

definition after_runs :: "addr set \<Rightarrow> 'cb timer_queue \<Rightarrow> entry list \<Rightarrow> 'cb timer_queue \<Rightarrow> bool" where
  "after_runs P q E q' \<longleftrightarrow> tq_inv P q' \<and> (\<forall>p\<in>P. heap q' p = heap q p) \<and>
     set (cancelingTimers q) \<subseteq> set (cancelingTimers q') \<and> fired q' = fired q @ map snd E \<and>
     callingExpiredTimers q' = callingExpiredTimers q"

lemma run_timer_ok:
  assumes inv: "tq_inv P q" and alloc: "alloc_ok env" and thread: "inLoopThread env" and e: "snd e \<in> P"
  shows "yields {BadAlloc} (after_runs P q [e]) (run_timer env e q)"
proof -
  obtain t where "heap q (snd e) = Some t" using tq_inv_detached [OF inv e] by blast
  moreover have "yields {BadAlloc} (undisturbed P (q\<lparr>fired := fired q @ [snd e]\<rparr>))
      (rfold (do_action env) as (q\<lparr>fired := fired q @ [snd e]\<rparr>))" for as
    using inv alloc thread by (intro actions_undisturbed) simp_all
  moreover have "undisturbed P (q\<lparr>fired := fired q @ [snd e]\<rparr>) q' \<Longrightarrow> after_runs P q [e] q'" for q'
    by (simp add: undisturbed_def after_runs_def)
  ultimately show ?thesis
    by (simp add: run_timer_def deref_def) (blast intro: yields_mono)
qed

lemma after_runs_trans:
  "after_runs P q E q1 \<Longrightarrow> after_runs P q1 F q2 \<Longrightarrow> after_runs P q (E @ F) q2"
  by (auto simp: after_runs_def)

lemma run_timers_ok:
  assumes alloc: "alloc_ok env" and thread: "inLoopThread env"
    and "tq_inv P q" "snd ` set E \<subseteq> P"
  shows "yields {BadAlloc} (after_runs P q E) (rfold (run_timer env) E q)"
  using assms(3,4)
proof (induction E arbitrary: q)
  case Nil
  then show ?case by (simp add: after_runs_def)
next
  case (Cons e E)
  have "yields {BadAlloc} (after_runs P q [e]) (run_timer env e q)"
    using Cons.prems alloc thread by (intro run_timer_ok) simp_all
  then show ?case
    unfolding rfold.simps
  proof (rule yields_bind)
    fix q1
    assume q1: "after_runs P q [e] q1"
    then have "yields {BadAlloc} (after_runs P q1 E) (rfold (run_timer env) E q1)"
      using Cons.prems by (intro Cons.IH) (simp_all add: after_runs_def)
    then show "yields {BadAlloc} (after_runs P q (e # E)) (rfold (run_timer env) E q1)"
      using after_runs_trans [OF q1] by (auto elim: yields_mono)
  qed
qed

section \<open>Rescheduling\<close>

lemma tq_inv_update_detached:
  assumes inv: "tq_inv P q" and p: "p \<in> P"
  shows "tq_inv P (q\<lparr>heap := (heap q)(p \<mapsto> t)\<rparr>)"
proof -
  note D = tq_invD [OF inv]
  have other: "p \<notin> snd ` set (timers q)" using D(4) p by blast
  show ?thesis
  proof (rule tq_invI [where f = "active_of q"])
    show "\<exists>t'. heap (q\<lparr>heap := (heap q)(p \<mapsto> t)\<rparr>) p' = Some t' \<and> expiration t' = w"
      if "(w, p') \<in> set (timers (q\<lparr>heap := (heap q)(p \<mapsto> t)\<rparr>))" for w p'
      using that other tq_inv_timerD [OF inv, of w p'] by force
    show "active_of (q\<lparr>heap := (heap q)(p \<mapsto> t)\<rparr>) e = active_of q e"
      if "e \<in> set (timers (q\<lparr>heap := (heap q)(p \<mapsto> t)\<rparr>))" for e
      using that other by (auto simp: active_of_def seq_at_def)
  qed (use D p in \<open>auto simp del: mset_map\<close>)
qed

lemma tq_inv_delete_detached:
  assumes inv: "tq_inv P q" and p: "p \<in> P"
  shows "tq_inv (P - {p}) (q\<lparr>heap := (heap q)(p := None)\<rparr>)"
proof -
  note D = tq_invD [OF inv]
  have other: "p \<notin> snd ` set (timers q)" using D(4) p by blast
  show ?thesis
  proof (rule tq_invI [where f = "active_of q"])
    show "\<exists>t'. heap (q\<lparr>heap := (heap q)(p := None)\<rparr>) p' = Some t' \<and> expiration t' = w"
      if "(w, p') \<in> set (timers (q\<lparr>heap := (heap q)(p := None)\<rparr>))" for w p'
      using that other tq_inv_timerD [OF inv, of w p'] by force
    show "active_of (q\<lparr>heap := (heap q)(p := None)\<rparr>) e = active_of q e"
      if "e \<in> set (timers (q\<lparr>heap := (heap q)(p := None)\<rparr>))" for e
      using that other by (auto simp: active_of_def seq_at_def)
  qed (use D p other in \<open>auto simp del: mset_map\<close>)
qed

text \<open>What becomes of an expired timer.\<close>

definition reset_result :: "timestamp \<Rightarrow> active_timer list \<Rightarrow> addr \<Rightarrow> 'cb timer \<Rightarrow> 'cb timer option" where
  "reset_result now cs p t =
     (if repeats t \<and> (p, sequence t) \<notin> set cs then Some (restart now t) else None)"

lemma reset_one_ok:
  assumes inv: "tq_inv P q" and thread: "inLoopThread env" and e: "snd e \<in> P"
    and t: "heap q (snd e) = Some t"
  obtains q' where "reset_one env now e q = Inr q'" "tq_inv (P - {snd e}) q'"
    "heap q' = (heap q)(snd e := reset_result now (cancelingTimers q) (snd e) t)"
    "cancelingTimers q' = cancelingTimers q" "fired q' = fired q" "alarm q' = alarm q"
    "callingExpiredTimers q' = callingExpiredTimers q"
    "set (timers q') = set (timers q) \<union>
       (case reset_result now (cancelingTimers q) (snd e) t of None \<Rightarrow> {} | Some t' \<Rightarrow> {(expiration t', snd e)})"
proof (cases "repeats t \<and> (snd e, sequence t) \<notin> set (cancelingTimers q)")
  case True
  let ?q = "q\<lparr>heap := (heap q)(snd e \<mapsto> restart now t)\<rparr>"
  let ?q' = "?q\<lparr>timers := insort (expiration (restart now t), snd e) (timers ?q),
                activeTimers := insort (snd e, sequence (restart now t)) (activeTimers ?q)\<rparr>"
  have inv1: "tq_inv P ?q" using inv e by (rule tq_inv_update_detached)
  have t1: "heap ?q (snd e) = Some (restart now t)" by simp
  have "reset_one env now e q = Inr ?q'"
    using True t insert_timer_ok [OF inv1 e t1 thread] by (simp add: reset_one_def Let_def deref_def)
  moreover have "tq_inv (P - {snd e}) ?q'" using inv1 e t1 by (rule tq_inv_insert)
  ultimately show ?thesis
    using True by (intro that [of ?q']) (simp_all add: reset_result_def set_insort_key)
next
  case False
  let ?q' = "q\<lparr>heap := (heap q)(snd e := None)\<rparr>"
  have "reset_one env now e q = Inr ?q'"
    using False t by (auto simp: reset_one_def Let_def deref_def delete_timer_def)
  moreover have "tq_inv (P - {snd e}) ?q'" using inv e by (rule tq_inv_delete_detached)
  ultimately show ?thesis
    using False by (intro that [of ?q']) (auto simp: reset_result_def)
qed

text \<open>The loop over the expired timers, for timers that are all different.\<close>

definition rescheduled :: "timestamp \<Rightarrow> entry list \<Rightarrow> 'cb timer_queue \<Rightarrow> 'cb timer_queue \<Rightarrow> bool" where
  "rescheduled now E q q' \<longleftrightarrow>
     (\<forall>p. heap q' p = (if p \<in> snd ` set E
        then Option.bind (heap q p) (reset_result now (cancelingTimers q) p) else heap q p)) \<and>
     cancelingTimers q' = cancelingTimers q \<and> fired q' = fired q \<and> alarm q' = alarm q \<and>
     callingExpiredTimers q' = callingExpiredTimers q \<and>
     (\<forall>w p. (w, p) \<in> set (timers q') \<longleftrightarrow> (w, p) \<in> set (timers q) \<or>
        (p \<in> snd ` set E \<and> (\<exists>t'. heap q' p = Some t' \<and> expiration t' = w)))"

lemma reset_loop_ok:
  assumes "inLoopThread env" "tq_inv (P \<union> snd ` set E) q" "P \<inter> snd ` set E = {}" "distinct (map snd E)"
  shows "\<exists>q'. rfold (reset_one env now) E q = Inr q' \<and> tq_inv P q' \<and> rescheduled now E q q'"
  using assms(2-4)
proof (induction E arbitrary: q)
  case Nil
  then show ?case by (simp add: rescheduled_def)
next
  case (Cons e E)
  obtain t where t: "heap q (snd e) = Some t"
    using tq_inv_detached [OF Cons.prems(1), of "snd e"] by auto
  obtain q1 where q1: "reset_one env now e q = Inr q1" "tq_inv (P \<union> snd ` set (e # E) - {snd e}) q1"
    "heap q1 = (heap q)(snd e := reset_result now (cancelingTimers q) (snd e) t)"
    "cancelingTimers q1 = cancelingTimers q" "fired q1 = fired q" "alarm q1 = alarm q"
    "callingExpiredTimers q1 = callingExpiredTimers q"
    "set (timers q1) = set (timers q) \<union>
       (case reset_result now (cancelingTimers q) (snd e) t of None \<Rightarrow> {} | Some t' \<Rightarrow> {(expiration t', snd e)})"
    by (rule reset_one_ok [OF Cons.prems(1) assms(1) _ t]) auto
  have "P \<union> snd ` set (e # E) - {snd e} = P \<union> snd ` set E" using Cons.prems(2,3) by auto
  then obtain q' where q': "rfold (reset_one env now) E q1 = Inr q'" "tq_inv P q'" "rescheduled now E q1 q'"
    using Cons.IH [of q1] q1(2) Cons.prems(2,3) by auto
  have ne: "snd e \<notin> snd ` set E" using Cons.prems(3) by auto
  have "rescheduled now (e # E) q q'"
    using q'(3) q1(3-8) ne t unfolding rescheduled_def
    by (auto split: option.splits if_splits)
  with q1(1) q'(1,2) show ?case by simp
qed

lemma resetTimerfd_simps [simp]:
  "heap (resetTimerfd env w q) = heap q" "timers (resetTimerfd env w q) = timers q"
  "cancelingTimers (resetTimerfd env w q) = cancelingTimers q"
  "fired (resetTimerfd env w q) = fired q" "alarm (resetTimerfd env w q) = Some w"
  "callingExpiredTimers (resetTimerfd env w q) = callingExpiredTimers q"
  "tq_inv P (resetTimerfd env w q) = tq_inv P q"
  by (simp_all add: resetTimerfd_def read_clock_def Let_def)

text \<open>The whole of \<^verbatim>\<open>reset\<close>: the loop, and the descriptor set to the first timer.\<close>

definition reset_done :: "timestamp \<Rightarrow> entry list \<Rightarrow> 'cb timer_queue \<Rightarrow> 'cb timer_queue \<Rightarrow> bool" where
  "reset_done now E q q' \<longleftrightarrow>
     (\<exists>q1. rescheduled now E q q1 \<and> heap q' = heap q1 \<and> timers q' = timers q1 \<and>
        cancelingTimers q' = cancelingTimers q \<and> fired q' = fired q \<and>
        callingExpiredTimers q' = callingExpiredTimers q \<and>
        alarm q' = (if timers q' \<noteq> [] \<and> valid (fst (hd (timers q')))
                    then Some (fst (hd (timers q'))) else alarm q))"

lemma reset_ok:
  assumes "inLoopThread env" "tq_inv (P \<union> snd ` set E) q" "P \<inter> snd ` set E = {}" "distinct (map snd E)"
  shows "\<exists>q'. reset env E now q = Inr q' \<and> tq_inv P q' \<and> reset_done now E q q'"
proof -
  obtain q1 where q1: "rfold (reset_one env now) E q = Inr q1" "tq_inv P q1" "rescheduled now E q q1"
    using reset_loop_ok [OF assms] by blast
  let ?next = "if timers q1 = [] then invalid else fst (hd (timers q1))"
  let ?q' = "if valid ?next then resetTimerfd env ?next q1 else q1"
  have "(if timers q1 = [] then Inr invalid
      else rbind (deref (snd (hd (timers q1))) q1) (\<lambda>t. Inr (expiration t))) = Inr ?next"
    using tq_inv_timerD [OF q1(2), of "fst (hd (timers q1))" "snd (hd (timers q1))"]
    by (auto simp: deref_def)
  then have "reset env E now q = Inr ?q'" by (simp add: reset_def q1(1))
  moreover have "tq_inv P ?q'" using q1(2) by simp
  moreover have "reset_done now E q ?q'"
    unfolding reset_done_def using q1(3)
    by (intro exI [of _ q1]) (auto simp: rescheduled_def valid_def invalid_def)
  ultimately show ?thesis by blast
qed

section \<open>Handling the kernel timer\<close>

text \<open>The state in which the callbacks start, and what \<^verbatim>\<open>handleRead\<close> makes of it.\<close>

definition callbacks_start :: "'cb env \<Rightarrow> active_timer list \<Rightarrow> 'cb timer_queue \<Rightarrow> 'cb timer_queue" where
  "callbacks_start env as q =
     q\<lparr>clockReads := Suc (clockReads q), alarm := None,
       timers := not_due (clock env (clockReads q)) q, activeTimers := as,
       callingExpiredTimers := True, cancelingTimers := []\<rparr>"

lemma callbacks_start_simps [simp]:
  "heap (callbacks_start env as q) = heap q" "fired (callbacks_start env as q) = fired q"
  "timers (callbacks_start env as q) = not_due (clock env (clockReads q)) q"
  "alarm (callbacks_start env as q) = None" "cancelingTimers (callbacks_start env as q) = []"
  "callingExpiredTimers (callbacks_start env as q)"
  by (simp_all add: callbacks_start_def)

lemma handleRead_start:
  assumes inv: "tq_inv P q" and thread: "inLoopThread env"
  defines "E \<equiv> due (clock env (clockReads q)) q"
  obtains as where "tq_inv (P \<union> snd ` set E) (callbacks_start env as q)"
    "P \<inter> snd ` set E = {}" "distinct (map snd E)"
    "handleRead env q =
       rbind (rfold (run_timer env) E (callbacks_start env as q)) (\<lambda>q3.
         reset env E (clock env (clockReads q)) (q3\<lparr>callingExpiredTimers := False\<rparr>))"
proof -
  let ?now = "clock env (clockReads q)"
  let ?q1 = "q\<lparr>clockReads := Suc (clockReads q), alarm := None\<rparr>"
  have dq: "due ?now ?q1 = E" "not_due ?now ?q1 = not_due ?now q"
    by (simp_all add: due_def not_due_def E_def)
  obtain as where as: "getExpired ?now ?q1 = Inr (due ?now ?q1, ?q1\<lparr>timers := not_due ?now ?q1, activeTimers := as\<rparr>)"
    "tq_inv (P \<union> snd ` set (due ?now ?q1)) (?q1\<lparr>timers := not_due ?now ?q1, activeTimers := as\<rparr>)"
    by (rule getExpired_ok [of P ?q1]) (use inv in simp_all)
  have "tq_inv (P \<union> snd ` set E) (callbacks_start env as q)"
    using as(2) by (simp add: dq callbacks_start_def)
  moreover have "P \<inter> snd ` set E = {}"
    using tq_invD(4) [OF inv] by (auto simp: E_def due_def)
  moreover have "distinct (map snd E)"
    using is_std_set_distinct [OF tq_invD(1) [OF inv]] tq_inv_unique [OF inv]
    by (auto simp: E_def due_def distinct_map inj_on_def)
  moreover have "handleRead env q =
       rbind (rfold (run_timer env) E (callbacks_start env as q)) (\<lambda>q3.
         reset env E ?now (q3\<lparr>callingExpiredTimers := False\<rparr>))"
    using thread as(1)
    by (simp add: handleRead_def assertInLoop_def read_clock_def readTimerfd_def dq callbacks_start_def)
  ultimately show ?thesis by (rule that)
qed

definition handled :: "timestamp \<Rightarrow> 'cb timer_queue \<Rightarrow> 'cb timer_queue \<Rightarrow> bool" where
  "handled now q q' \<longleftrightarrow>
     fired q' = fired q @ map snd (due now q) \<and> \<not> callingExpiredTimers q' \<and>
     (\<forall>p \<in> snd ` set (due now q).
        heap q' p = Option.bind (heap q p) (reset_result now (cancelingTimers q') p))"

lemma handled_by_reset:
  assumes q3: "after_runs (P \<union> snd ` set (due now q)) (callbacks_start env as q) (due now q) q3"
    and q': "reset_done now (due now q) (q3\<lparr>callingExpiredTimers := False\<rparr>) q'"
  shows "handled now q q'"
proof -
  obtain q1 where q1: "rescheduled now (due now q) (q3\<lparr>callingExpiredTimers := False\<rparr>) q1"
    "heap q' = heap q1" "cancelingTimers q' = cancelingTimers q3" "fired q' = fired q3"
    "\<not> callingExpiredTimers q'"
    using q' by (auto simp: reset_done_def)
  have "heap q' p = Option.bind (heap q p) (reset_result now (cancelingTimers q') p)"
    if p: "p \<in> snd ` set (due now q)" for p
  proof -
    have "heap q3 p = heap q p" using q3 p by (simp add: after_runs_def)
    with q1 p show ?thesis by (simp add: rescheduled_def)
  qed
  then show ?thesis
    using q3 q1 by (simp add: handled_def after_runs_def)
qed

lemma handleRead_ok:
  assumes inv: "tq_inv P q" and alloc: "alloc_ok env" and thread: "inLoopThread env"
  shows "yields {BadAlloc} (\<lambda>q'. tq_inv P q' \<and> handled (clock env (clockReads q)) q q') (handleRead env q)"
proof -
  let ?now = "clock env (clockReads q)" and ?E = "due (clock env (clockReads q)) q"
  obtain as where as: "tq_inv (P \<union> snd ` set ?E) (callbacks_start env as q)"
    "P \<inter> snd ` set ?E = {}" "distinct (map snd ?E)"
    "handleRead env q = rbind (rfold (run_timer env) ?E (callbacks_start env as q)) (\<lambda>q3.
         reset env ?E ?now (q3\<lparr>callingExpiredTimers := False\<rparr>))"
    by (rule handleRead_start [OF inv thread])
  have "yields {BadAlloc} (after_runs (P \<union> snd ` set ?E) (callbacks_start env as q) ?E)
      (rfold (run_timer env) ?E (callbacks_start env as q))"
    using as(1) by (intro run_timers_ok [OF alloc thread]) simp_all
  then show ?thesis
    unfolding as(4)
  proof (rule yields_bind)
    fix q3
    assume q3: "after_runs (P \<union> snd ` set ?E) (callbacks_start env as q) ?E q3"
    then obtain q' where q': "reset env ?E ?now (q3\<lparr>callingExpiredTimers := False\<rparr>) = Inr q'"
      "tq_inv P q'" "reset_done ?now ?E (q3\<lparr>callingExpiredTimers := False\<rparr>) q'"
      using reset_ok [OF thread _ as(2,3), of "q3\<lparr>callingExpiredTimers := False\<rparr>" ?now]
      by (auto simp: after_runs_def)
    have "handled ?now q q'"
      using q3 q'(3) by (rule handled_by_reset)
    with q'(1,2) show "yields {BadAlloc} (\<lambda>q'. tq_inv P q' \<and> handled ?now q q')
        (reset env ?E ?now (q3\<lparr>callingExpiredTimers := False\<rparr>))" by simp
  qed
qed

section \<open>The alarm\<close>

text \<open>
  The first timer is either late enough by the measure \<open>Q\<close>, or the alarm is set for it. The
  invariant \<open>alarm_inv\<close> is the case where nothing is late enough.
\<close>

definition alarmed :: "(timestamp \<Rightarrow> bool) \<Rightarrow> 'cb timer_queue \<Rightarrow> bool" where
  "alarmed Q q \<longleftrightarrow> (timers q \<noteq> [] \<longrightarrow> Q (fst (hd (timers q))) \<or>
     (\<exists>a. alarm q = Some a \<and> a \<le> fst (hd (timers q))))"

lemma alarm_inv_alarmed: "alarm_inv q = alarmed (\<lambda>_. False) q"
  by (simp add: alarm_inv_def alarmed_def)

lemma alarmed_frame [simp]: "alarmed Q (q\<lparr>fired := r\<rparr>) = alarmed Q q"
  by (simp add: alarmed_def)

lemma fst_mono_prod: "x \<le> y \<Longrightarrow> fst x \<le> fst (y :: entry)"
  by (auto simp: less_eq_prod_def)

lemma hd_timers_least: "tq_inv P q \<Longrightarrow> e \<in> set (timers q) \<Longrightarrow> fst (hd (timers q)) \<le> fst e"
  using ss.hd_least [OF tq_invD(1)] fst_mono_prod by blast

lemma alarmed_added:
  assumes "tq_inv P q" "alarmed Q q" "timer_added cb w q tid q'"
  shows "alarmed Q q'"
proof -
  have "id_timer tid \<notin> snd ` set (timers q)"
    using assms(1,3) tq_invD(3) by (auto simp: timer_added_def)
  then have "(w, id_timer tid) \<notin> set (timers q)" by force
  then have "fst (hd (timers q')) = (if timers q = [] \<or> w < fst (hd (timers q)) then w else fst (hd (timers q)))"
    using assms(3) hd_timers_insort [OF tq_invD(1) [OF assms(1)]] by (simp add: timer_added_def)
  then show ?thesis
    using assms(2,3) by (auto simp: alarmed_def timer_added_def)
qed

lemma alarmed_cancelled:
  assumes inv: "tq_inv P q" and al: "alarmed Q q" and mono: "\<And>a b. Q a \<Longrightarrow> a \<le> b \<Longrightarrow> Q b"
  shows "alarmed Q (after_cancel p t q)"
proof -
  let ?ts = "remove1 (expiration t, p) (timers q)"
  have "fst (hd (timers q)) \<le> fst (hd ?ts)" if "?ts \<noteq> []"
    using that hd_in_set [of ?ts] set_remove1_subset [of "(expiration t, p)" "timers q"]
    by (intro hd_timers_least [OF inv]) blast
  moreover have "timers q \<noteq> []" if "?ts \<noteq> []" using that by auto
  ultimately show ?thesis
    using al mono by (auto simp: alarmed_def after_cancel_def dest: order_trans)
qed

lemma cancelInLoop_alarmed:
  assumes inv: "tq_inv P q" and thread: "inLoopThread env" and al: "alarmed Q q"
    and mono: "\<And>a b. Q a \<Longrightarrow> a \<le> b \<Longrightarrow> Q b"
  shows "yields E (\<lambda>q'. tq_inv P q' \<and> alarmed Q q') (cancelInLoop env tid q)"
proof (cases "(id_timer tid, id_sequence tid) \<in> set (activeTimers q)")
  case True
  then obtain t where t: "heap q (id_timer tid) = Some t" "sequence t = id_sequence tid"
    "(expiration t, id_timer tid) \<in> set (timers q)"
    using tq_inv_active_iff [OF inv] by blast
  then show ?thesis
    using cancelInLoop_active [OF inv thread t] tq_inv_after_cancel [OF inv t(1,3)]
      alarmed_cancelled [OF inv al mono] by simp
next
  case False
  then show ?thesis
    using cancelInLoop_inactive [OF inv thread] inv al by (simp add: alarmed_def)
qed

lemma addTimer_alarmed:
  assumes "tq_inv P q" "alloc_ok env" "inLoopThread env" "alarmed Q q"
  shows "yields {BadAlloc} (\<lambda>(tid, q'). tq_inv P q' \<and> alarmed Q q') (addTimer env cb w ivl q)"
  by (rule yields_mono [OF addTimer_ok [OF assms(1-3), of cb w ivl]])
    (use alarmed_added [OF assms(1,4)] in \<open>auto simp: undisturbed_def\<close>)

lemma do_action_alarmed:
  assumes "tq_inv P q" "alloc_ok env" "inLoopThread env" "alarmed Q q"
    and mono: "\<And>a b. Q a \<Longrightarrow> a \<le> b \<Longrightarrow> Q b"
  shows "yields {BadAlloc} (\<lambda>q'. tq_inv P q' \<and> alarmed Q q') (do_action env a q)"
proof (cases a)
  case (AddTimer cb w ivl)
  then show ?thesis
    using addTimer_alarmed [OF assms(1-4), of cb w ivl] by (auto intro!: yields_bind)
next
  case (CancelTimer tid)
  with cancelInLoop_alarmed [OF assms(1,3,4) mono] show ?thesis by simp
qed

lemma run_timers_alarmed:
  assumes alloc: "alloc_ok env" and thread: "inLoopThread env"
    and mono: "\<And>a b. Q a \<Longrightarrow> a \<le> b \<Longrightarrow> Q b"
    and "tq_inv P q" "snd ` set E \<subseteq> P" "alarmed Q q"
  shows "yields {BadAlloc} (alarmed Q) (rfold (run_timer env) E q)"
proof -
  let ?I = "\<lambda>(ys :: entry list) q. tq_inv P q \<and> alarmed Q q \<and> snd ` set ys \<subseteq> P"
  have start: "?I E q" using assms by simp
  have step: "yields {BadAlloc} (?I ys) (run_timer env e q)" if I: "?I (e # ys) q" for e ys q
  proof -
    obtain t where t: "heap q (snd e) = Some t" using I tq_inv_detached [of P q "snd e"] by auto
    let ?q = "q\<lparr>fired := fired q @ [snd e]\<rparr>"
    have "yields {BadAlloc} (\<lambda>q. tq_inv P q \<and> alarmed Q q) (rfold (do_action env) as ?q)" for as
    proof (rule yields_rfold [where I = "\<lambda>_ q. tq_inv P q \<and> alarmed Q q"])
      show "tq_inv P ?q \<and> alarmed Q ?q" using I by simp
      show "yields {BadAlloc} (\<lambda>q. tq_inv P q \<and> alarmed Q q) (do_action env a s)"
        if "tq_inv P s \<and> alarmed Q s" for a s
        using that by (intro do_action_alarmed [OF _ alloc thread _ mono]) simp_all
    qed
    with t I show ?thesis
      by (auto simp: run_timer_def deref_def elim: yields_mono)
  qed
  have "yields {BadAlloc} (?I []) (rfold (run_timer env) E q)"
    by (rule yields_rfold [where I = ?I, OF start]) (rule step)
  then show ?thesis by (auto elim: yields_mono)
qed

lemma reset_done_entry:
  assumes rd: "reset_done now E q3 q'" and e: "(w, p) \<in> set (timers q')" "(w, p) \<notin> set (timers q3)"
  shows "p \<in> snd ` set E \<and> (\<exists>t t'. heap q' p = Some t' \<and> expiration t' = w \<and> heap q3 p = Some t \<and>
    reset_result now (cancelingTimers q3) p t = Some t')"
proof -
  obtain q1 where q1: "rescheduled now E q3 q1" "heap q' = heap q1" "timers q' = timers q1"
    using rd by (auto simp: reset_done_def)
  from q1(1,3) e obtain t' where t': "p \<in> snd ` set E" "heap q1 p = Some t'" "expiration t' = w"
    unfolding rescheduled_def by metis
  then have "Option.bind (heap q3 p) (reset_result now (cancelingTimers q3) p) = Some t'"
    using q1(1) by (simp add: rescheduled_def)
  with t' q1(2) show ?thesis by (auto simp only: bind_eq_Some_conv)
qed

lemma reset_done_alarm:
  assumes inv3: "tq_inv P3 q3" and inv': "tq_inv P q'" and al: "alarmed (\<lambda>w. now \<le> w) q3" and now: "valid now"
    and ahead: "\<And>p t. p \<in> snd ` set E \<Longrightarrow> heap q3 p = Some t \<Longrightarrow> repeats t \<Longrightarrow> now \<le> addTime now (interval t)"
    and rd: "reset_done now E q3 q'"
  shows "alarm_inv q'"
  unfolding alarm_inv_def
proof
  assume ne: "timers q' \<noteq> []"
  let ?h = "fst (hd (timers q'))"
  show "\<exists>a. alarm q' = Some a \<and> a \<le> ?h"
  proof (cases "valid ?h")
    case True
    with rd ne show ?thesis by (auto simp: reset_done_def)
  next
    case False
    then have low: "\<not> now \<le> ?h"
      using now by (cases now; cases ?h) (auto simp: valid_def)
    obtain w p where wp: "hd (timers q') = (w, p)" by fastforce
    then have mem: "(w, p) \<in> set (timers q')" using ne hd_in_set by fastforce
    have "(w, p) \<in> set (timers q3)"
    proof (rule ccontr)
      assume "(w, p) \<notin> set (timers q3)"
      then obtain t t' where t: "p \<in> snd ` set E" "heap q' p = Some t'" "expiration t' = w"
        "heap q3 p = Some t" "reset_result now (cancelingTimers q3) p t = Some t'"
        using reset_done_entry [OF rd mem] by blast
      then have "repeats t" "w = addTime now (interval t)"
        by (auto simp: reset_result_def restart_def split: if_splits)
      with ahead [OF t(1,4)] low wp show False by simp
    qed
    then have "timers q3 \<noteq> []" "fst (hd (timers q3)) \<le> w"
      using hd_timers_least [OF inv3, of "(w, p)"] by auto
    moreover from this have "\<not> now \<le> fst (hd (timers q3))" using low wp by auto
    ultimately obtain a where "alarm q3 = Some a" "a \<le> w" using al by (auto simp: alarmed_def)
    with rd False wp show ?thesis by (auto simp: reset_done_def)
  qed
qed

lemma handleRead_alarm:
  assumes inv: "tq_inv P q" and alloc: "alloc_ok env" and thread: "inLoopThread env"
    and now: "valid (clock env (clockReads q))"
    and ahead: "\<And>p t. heap q p = Some t \<Longrightarrow> repeats t \<Longrightarrow>
      clock env (clockReads q) \<le> addTime (clock env (clockReads q)) (interval t)"
  shows "yields {BadAlloc} alarm_inv (handleRead env q)"
proof -
  let ?now = "clock env (clockReads q)" and ?E = "due (clock env (clockReads q)) q"
  obtain as where as: "tq_inv (P \<union> snd ` set ?E) (callbacks_start env as q)"
    "P \<inter> snd ` set ?E = {}" "distinct (map snd ?E)"
    "handleRead env q = rbind (rfold (run_timer env) ?E (callbacks_start env as q)) (\<lambda>q3.
         reset env ?E ?now (q3\<lparr>callingExpiredTimers := False\<rparr>))"
    by (rule handleRead_start [OF inv thread])
  have "alarmed (\<lambda>w. ?now \<le> w) (callbacks_start env as q)"
    using hd_in_set [of "not_due ?now q"] by (auto simp: alarmed_def not_due_def)
  then have "yields {BadAlloc} (alarmed (\<lambda>w. ?now \<le> w)) (rfold (run_timer env) ?E (callbacks_start env as q))"
    using as(1) by (intro run_timers_alarmed [OF alloc thread]) auto
  moreover have "yields {BadAlloc} (after_runs (P \<union> snd ` set ?E) (callbacks_start env as q) ?E)
      (rfold (run_timer env) ?E (callbacks_start env as q))"
    using as(1) by (intro run_timers_ok [OF alloc thread]) simp_all
  ultimately show ?thesis
    unfolding as(4)
  proof (rule yields_bind [OF yields_conj])
    fix q3
    assume q3: "alarmed (\<lambda>w. ?now \<le> w) q3 \<and> after_runs (P \<union> snd ` set ?E) (callbacks_start env as q) ?E q3"
    let ?q3 = "q3\<lparr>callingExpiredTimers := False\<rparr>"
    have inv3: "tq_inv (P \<union> snd ` set ?E) ?q3" using q3 by (simp add: after_runs_def)
    obtain q' where q': "reset env ?E ?now ?q3 = Inr q'" "tq_inv P q'" "reset_done ?now ?E ?q3 q'"
      using reset_ok [OF thread inv3 as(2,3)] by blast
    have "alarm_inv q'"
      by (rule reset_done_alarm [OF inv3 q'(2) _ now _ q'(3)])
        (use q3 ahead in \<open>auto simp: after_runs_def alarmed_def\<close>)
    with q'(1) show "yields {BadAlloc} alarm_inv (reset env ?E ?now ?q3)" by simp
  qed
qed

section \<open>Cancelling from inside a callback\<close>

lemma action_marks_cancelled:
  assumes inv: "tq_inv P q" and thread: "inLoopThread env" and tid: "id_timer tid \<in> P"
    and calling: "callingExpiredTimers q"
  shows "yields E (\<lambda>q'. (id_timer tid, id_sequence tid) \<in> set (cancelingTimers q')) (do_action env (CancelTimer tid) q)"
proof -
  have "(id_timer tid, id_sequence tid) \<notin> set (activeTimers q)"
    using tq_inv_active_iff [OF inv] tq_invD(4) [OF inv] tid by force
  then show ?thesis using cancelInLoop_inactive [OF inv thread] calling by simp
qed

lemma actions_mark_cancelled:
  fixes env :: "'cb env"
  assumes inv: "tq_inv P q" and alloc: "alloc_ok env" and thread: "inLoopThread env"
    and tid: "id_timer tid \<in> P" and calling: "callingExpiredTimers q" and mem: "CancelTimer tid \<in> set as"
  shows "yields {BadAlloc} (\<lambda>q'. (id_timer tid, id_sequence tid) \<in> set (cancelingTimers q'))
    (rfold (do_action env) as q)"
proof -
  let ?at = "(id_timer tid, id_sequence tid)"
  let ?I = "\<lambda>(ys :: 'cb timer_action list) s. undisturbed P q s \<and> (CancelTimer tid \<in> set ys \<or> ?at \<in> set (cancelingTimers s))"
  show ?thesis
  proof (rule yields_mono [OF yields_rfold [where I = ?I and xs = as and s = q and f = "do_action env"]])
    show "?I as q" using mem undisturbed_refl [OF inv] by simp
  next
    fix a ys s
    assume I: "?I (a # ys) s"
    then have inv_s: "tq_inv P s" and calling_s: "callingExpiredTimers s"
      using calling by (simp_all add: undisturbed_def)
    have "yields {BadAlloc} (undisturbed P s) (do_action env a s)"
      by (rule do_action_undisturbed [OF inv_s alloc thread])
    moreover have "yields {BadAlloc} (\<lambda>s'. a = CancelTimer tid \<longrightarrow> ?at \<in> set (cancelingTimers s')) (do_action env a s)"
    proof (cases "a = CancelTimer tid")
      case True
      then show ?thesis using action_marks_cancelled [OF inv_s thread tid calling_s] by simp
    next
      case False
      then show ?thesis using yields_True [OF do_action_undisturbed [OF inv_s alloc thread]] by simp
    qed
    ultimately show "yields {BadAlloc} (?I ys) (do_action env a s)"
      by (rule yields_mono [OF yields_conj])
        (use I in \<open>auto intro: undisturbed_trans simp: undisturbed_def\<close>)
  qed simp
qed

lemma run_timer_marks_cancelled:
  assumes inv: "tq_inv P q" and alloc: "alloc_ok env" and thread: "inLoopThread env"
    and e: "heap q (snd e) = Some t" and tid: "id_timer tid \<in> P" and calling: "callingExpiredTimers q"
    and prog: "\<And>s. CancelTimer tid \<in> set (program env (callback t) s)"
  shows "yields {BadAlloc} (\<lambda>q'. (id_timer tid, id_sequence tid) \<in> set (cancelingTimers q')) (run_timer env e q)"
  using actions_mark_cancelled [OF _ alloc thread tid _ prog, of "q\<lparr>fired := fired q @ [snd e]\<rparr>"] inv calling e
  by (simp add: run_timer_def deref_def)

lemma run_timers_mark_cancelled:
  assumes inv: "tq_inv P q" and alloc: "alloc_ok env" and thread: "inLoopThread env"
    and E: "snd ` set E \<subseteq> P" and e: "e \<in> set E" "heap q (snd e) = Some t" and tid: "id_timer tid \<in> P"
    and calling: "callingExpiredTimers q"
    and prog: "\<And>s. CancelTimer tid \<in> set (program env (callback t) s)"
  shows "yields {BadAlloc} (\<lambda>q'. (id_timer tid, id_sequence tid) \<in> set (cancelingTimers q'))
    (rfold (run_timer env) E q)"
proof -
  let ?at = "(id_timer tid, id_sequence tid)"
  let ?I = "\<lambda>(ys :: entry list) s. tq_inv P s \<and> snd ` set ys \<subseteq> P \<and> callingExpiredTimers s \<and>
    heap s (snd e) = Some t \<and> (e \<in> set ys \<or> ?at \<in> set (cancelingTimers s))"
  have eP: "snd e \<in> P" using E e(1) by auto
  show ?thesis
  proof (rule yields_mono [OF yields_rfold [where I = ?I and xs = E and s = q and f = "run_timer env"]])
    show "?I E q" using assms by simp
  next
    fix x ys s
    assume I: "?I (x # ys) s"
    have ok: "yields {BadAlloc} (after_runs P s [x]) (run_timer env x s)"
      using I by (intro run_timer_ok [OF _ alloc thread]) simp_all
    have "yields {BadAlloc} (\<lambda>s'. x = e \<longrightarrow> ?at \<in> set (cancelingTimers s')) (run_timer env x s)"
    proof (cases "x = e")
      case True
      then show ?thesis
        using I run_timer_marks_cancelled [OF _ alloc thread _ tid _ prog, of s e] by simp
    next
      case False
      then show ?thesis using yields_True [OF ok] by simp
    qed
    with ok show "yields {BadAlloc} (?I ys) (run_timer env x s)"
      by (rule yields_mono [OF yields_conj]) (use I eP in \<open>auto simp: after_runs_def\<close>)
  qed simp
qed

lemma handleRead_cancelled:
  assumes inv: "tq_inv P q" and alloc: "alloc_ok env" and thread: "inLoopThread env"
    and e: "e \<in> set (due (clock env (clockReads q)) q)" "heap q (snd e) = Some t"
    and tid: "id_timer tid \<in> snd ` set (due (clock env (clockReads q)) q)"
    and prog: "\<And>s. CancelTimer tid \<in> set (program env (callback t) s)"
  shows "yields {BadAlloc} (\<lambda>q'. (id_timer tid, id_sequence tid) \<in> set (cancelingTimers q')) (handleRead env q)"
proof -
  let ?now = "clock env (clockReads q)" and ?E = "due (clock env (clockReads q)) q"
  let ?at = "(id_timer tid, id_sequence tid)"
  obtain as where as: "tq_inv (P \<union> snd ` set ?E) (callbacks_start env as q)"
    "P \<inter> snd ` set ?E = {}" "distinct (map snd ?E)"
    "handleRead env q = rbind (rfold (run_timer env) ?E (callbacks_start env as q)) (\<lambda>q3.
         reset env ?E ?now (q3\<lparr>callingExpiredTimers := False\<rparr>))"
    by (rule handleRead_start [OF inv thread])
  have "yields {BadAlloc} (\<lambda>q'. ?at \<in> set (cancelingTimers q')) (rfold (run_timer env) ?E (callbacks_start env as q))"
    using e tid by (intro run_timers_mark_cancelled [OF as(1) alloc thread, of ?E e t]) (auto simp: prog)
  moreover have "yields {BadAlloc} (after_runs (P \<union> snd ` set ?E) (callbacks_start env as q) ?E)
      (rfold (run_timer env) ?E (callbacks_start env as q))"
    using as(1) by (intro run_timers_ok [OF alloc thread]) simp_all
  ultimately show ?thesis
    unfolding as(4)
  proof (rule yields_bind [OF yields_conj])
    fix q3
    assume q3: "?at \<in> set (cancelingTimers q3) \<and> after_runs (P \<union> snd ` set ?E) (callbacks_start env as q) ?E q3"
    let ?q3 = "q3\<lparr>callingExpiredTimers := False\<rparr>"
    have inv3: "tq_inv (P \<union> snd ` set ?E) ?q3" using q3 by (simp add: after_runs_def)
    obtain q' where q': "reset env ?E ?now ?q3 = Inr q'" "reset_done ?now ?E ?q3 q'"
      using reset_ok [OF thread inv3 as(2,3)] by blast
    with q3 show "yields {BadAlloc} (\<lambda>q'. ?at \<in> set (cancelingTimers q')) (reset env ?E ?now ?q3)"
      by (auto simp: reset_done_def)
  qed
qed

section \<open>Sequences of events\<close>

text \<open>
  The calls the loop makes on its queue: a request from user code that runs in the loop
  (\<^verbatim>\<open>addTimer\<close> and \<^verbatim>\<open>cancel\<close> are run at once there), or the descriptor being readable.
\<close>

datatype 'cb tq_event = Request "'cb timer_action" | Readable

fun tq_step :: "'cb env \<Rightarrow> 'cb tq_event \<Rightarrow> 'cb timer_queue \<Rightarrow> 'cb timer_queue result" where
  "tq_step env (Request a) q = do_action env a q"
| "tq_step env Readable q = handleRead env q"

lemma tq_inv_new: "tq_inv {} (TimerQueue_new Map.empty c)"
  by (simp add: tq_inv_def TimerQueue_new_def is_std_set_def)

lemma tq_step_inv:
  assumes "tq_inv P q" "alloc_ok env" "inLoopThread env"
  shows "yields {BadAlloc} (tq_inv P) (tq_step env ev q)"
proof (cases ev)
  case (Request a)
  then show ?thesis
    using do_action_undisturbed [OF assms, of a] by (auto simp: undisturbed_def elim: yields_mono)
next
  case Readable
  then show ?thesis using handleRead_ok [OF assms] by (auto elim: yields_mono)
qed

lemma TimerQueue_delete_ok:
  "distinct (map snd E) \<Longrightarrow> snd ` set E \<subseteq> dom (heap q) \<Longrightarrow>
   rfold (\<lambda>e. delete_timer (snd e)) E q = Inr (q\<lparr>heap := (heap q) |` (- (snd ` set E))\<rparr>)"
proof (induction E arbitrary: q)
  case (Cons e E)
  then obtain t where t: "heap q (snd e) = Some t" by auto
  let ?q = "q\<lparr>heap := (heap q)(snd e := None)\<rparr>"
  have sub: "snd ` set E \<subseteq> dom (heap ?q)" using Cons.prems by (simp add: subset_Diff_insert)
  have "rfold (\<lambda>e. delete_timer (snd e)) E ?q = Inr (?q\<lparr>heap := heap ?q |` (- (snd ` set E))\<rparr>)"
    by (rule Cons.IH [OF _ sub]) (use Cons.prems(1) in simp)
  moreover have "delete_timer (snd e) q = Inr ?q" using t by (simp add: delete_timer_def deref_def)
  moreover have "heap ?q |` (- (snd ` set E)) = heap q |` (- (snd ` set (e # E)))"
    by (auto simp: restrict_map_def fun_eq_iff)
  ultimately show ?case by (simp add: Compl_insert)
qed (simp add: restrict_map_def)

lemma addTimer_cancel:
  assumes inv: "tq_inv P q" and alloc: "alloc_ok env" and thread: "inLoopThread env"
    and add: "addTimer env cb w ivl q = Inr (tid, q1)"
  shows "\<exists>q2. cancelInLoop env tid q1 = Inr q2 \<and> heap q2 = heap q \<and> timers q2 = timers q"
proof -
  have un: "undisturbed P q q1" "timer_added cb w q tid q1"
    using yieldsD [OF addTimer_ok [OF inv alloc thread] add] by simp_all
  then obtain t where t: "heap q1 = (heap q)(id_timer tid \<mapsto> t)" "id_timer tid \<notin> dom (heap q)"
    "sequence t = id_sequence tid" "expiration t = w" "timers q1 = insort (w, id_timer tid) (timers q)"
    by (auto simp: timer_added_def)
  have "cancelInLoop env tid q1 = Inr (after_cancel (id_timer tid) t q1)"
    using un t by (intro cancelInLoop_active [OF _ thread]) (auto simp: undisturbed_def set_insort_key)
  moreover have "(w, id_timer tid) \<notin> set (timers q)"
    using t(2) tq_invD(3) [OF inv] by force
  then have "remove1 (w, id_timer tid) (insort (w, id_timer tid) (timers q)) = timers q"
    by (intro remove1_insort_key)
  moreover have "(heap q)(id_timer tid := None) = heap q" using t(2) by auto
  ultimately show ?thesis using t by (simp add: after_cancel_def)
qed

section \<open>Properties\<close>

text \<open>A callback that does nothing or cancels one timer, for concrete runs.\<close>

definition sample_env :: "nat env" where
  "sample_env = \<lparr>alloc = (\<lambda>h. if h 16 = None then Some 16 else if h 32 = None then Some 32 else None),
     clock = (\<lambda>n. Timestamp (1000000 * (int n + 1))), inLoopThread = True,
     program = (\<lambda>cb q. if cb = 0 then [] else [CancelTimer \<lparr>id_timer = 16, id_sequence = 1\<rparr>])\<rparr>"

definition sample_timer :: "nat \<Rightarrow> nat timer" where
  "sample_timer cb = \<lparr>callback = cb, expiration = Timestamp 5, interval = double_of_int 2,
     repeats = True, sequence = 1\<rparr>"

definition sample_queue :: "nat \<Rightarrow> nat timer_queue" where
  "sample_queue cb = (TimerQueue_new [16 \<mapsto> sample_timer cb] 1)
     \<lparr>timers := [(Timestamp 5, 16)], activeTimers := [(16, 1)], alarm := Some (Timestamp 5)\<rparr>"

lemma sample_ok: "alloc_ok sample_env" "inLoopThread sample_env" "tq_inv {} (sample_queue cb)"
  by (auto simp: alloc_ok_def sample_env_def tq_inv_def sample_queue_def TimerQueue_new_def
      is_std_set_def active_of_def seq_at_def sample_timer_def split: if_splits)




lemma sample_expired:
  "set_lower_bound (Timestamp 1000000, - 1) [(Timestamp 5, 16 :: addr)] = ([(Timestamp 5, 16)], [])"
  by (simp add: set_lower_bound_def less_prod_def less_timestamp_def)

lemmas sample_defs = sample_env_def sample_queue_def sample_timer_def TimerQueue_new_def

lemma sample_handleRead:
  "handleRead sample_env (sample_queue 0) = Inr ((sample_queue 0)
     \<lparr>heap := [16 \<mapsto> (sample_timer 0)\<lparr>expiration := Timestamp 3000000\<rparr>], clockReads := 2,
      timers := [(Timestamp 3000000, 16)], settimes := [\<lparr>tv_sec = 1, tv_nsec = 0\<rparr>],
      alarm := Some (Timestamp 3000000), fired := [16]\<rparr>)"
proof -
  have "addTime (Timestamp 1000000) (double_of_int 2) = Timestamp 3000000"
    using micros_of_int [of 2] by (simp add: addTime_def i64_def)
  moreover have "howMuchTimeFromNow (Timestamp 2000000) (Timestamp 3000000) = \<lparr>tv_sec = 1, tv_nsec = 0\<rparr>"
    by (simp add: howMuchTimeFromNow_def cdiv_def cmod_def i64_def kMicroSecondsPerSecond_def)
  ultimately show ?thesis
    by (simp add: sample_defs handleRead_def assertInLoop_def read_clock_def readTimerfd_def
        getExpired_def assert_sizes_def sample_expired erase_active_def deref_def set_erase_def
        run_timer_def reset_def reset_one_def insert_timer_def restart_def set_insert_def
        resetTimerfd_def valid_def Let_def numeral_2_eq_2)
qed


text \<open>
  A repeating timer can be stopped from inside a callback: if the callback of a timer that
  expires in a round cancels a timer of the same round (itself, for one), that timer is not
  put back into the queue but freed, even though it is in neither index set at that moment.
\<close>

theorem cancelled_in_callback_freed:
  assumes "tq_inv {} q" "alloc_ok env" "inLoopThread env"
    and "now = clock env (clockReads q)"
    and "(w, p) \<in> set (timers q)" "w \<le> now" "heap q p = Some t"
    and "(w', p') \<in> set (timers q)" "w' \<le> now" "heap q p' = Some t'"
    and "\<forall>s. CancelTimer \<lparr>id_timer = p', id_sequence = sequence t'\<rparr> \<in> set (program env (callback t) s)"
  shows "yields {BadAlloc} (\<lambda>q'. heap q' p' = None \<and> p' \<notin> snd ` set (timers q')) (handleRead env q)"
proof -
  let ?tid = "\<lparr>id_timer = p', id_sequence = sequence t'\<rparr>"
  have due: "(w, p) \<in> set (due now q)" "p' \<in> snd ` set (due now q)"
    using assms(5,6,8,9) by (auto simp: due_def image_iff intro!: bexI [where x = "(w', p')"])
  have "yields {BadAlloc} (\<lambda>q'. (id_timer ?tid, id_sequence ?tid) \<in> set (cancelingTimers q')) (handleRead env q)"
    using due assms(4,7,11) by (intro handleRead_cancelled [OF assms(1-3), of "(w, p)" t]) simp_all
  then show ?thesis
  proof (rule yields_mono [OF yields_conj [OF _ handleRead_ok [OF assms(1-3)]]])
    fix q'
    assume q': "(id_timer ?tid, id_sequence ?tid) \<in> set (cancelingTimers q') \<and>
      tq_inv {} q' \<and> handled (clock env (clockReads q)) q q'"
    then have "heap q' p' = Option.bind (heap q p') (reset_result now (cancelingTimers q') p')"
      using due(2) assms(4) unfolding handled_def by blast
    then have "heap q' p' = None" using q' assms(10) by (simp add: reset_result_def)
    then show "heap q' p' = None \<and> p' \<notin> snd ` set (timers q')"
      using q' tq_invD(3) [of "{}" q'] by auto
  qed
qed

theorem cancelled_in_callback_freed_witness:
  "yields {BadAlloc} (\<lambda>q'. heap q' 16 = None \<and> 16 \<notin> snd ` set (timers q'))
     (handleRead sample_env (sample_queue 1))"
  by (rule cancelled_in_callback_freed [OF sample_ok(3,1,2) refl,
      where w = "Timestamp 5" and p = 16 and t = "sample_timer 1" and w' = "Timestamp 5" and t' = "sample_timer 1"]) (simp_all add: sample_defs less_eq_timestamp_def)



text \<open>
  The kernel timer is never disarmed by accident: for every clock reading and expiration,
  past ones included, the relative time given to \<^verbatim>\<open>timerfd_settime\<close> is a proper \<^verbatim>\<open>timespec\<close> of at
  least 100 microseconds, and it is the exact difference when that is representable and longer.
\<close>

theorem howMuchTimeFromNow_armed:
  "let ts = howMuchTimeFromNow now w; us = microSecondsSinceEpoch w - microSecondsSinceEpoch now in
     0 \<le> tv_sec ts \<and> 0 \<le> tv_nsec ts \<and> tv_nsec ts < 10 ^ 9 \<and>
     100 * 1000 \<le> tv_sec ts * 10 ^ 9 + tv_nsec ts \<and>
     (in_i64 us \<longrightarrow> tv_sec ts * 10 ^ 9 + tv_nsec ts = max 100 us * 1000)"
proof -
  let ?us = "microSecondsSinceEpoch w - microSecondsSinceEpoch now"
  define m where "m = (if i64 ?us < 100 then 100 else i64 ?us)"
  have m: "100 \<le> m" by (simp add: m_def)
  then have ts: "howMuchTimeFromNow now w = \<lparr>tv_sec = m div 1000000, tv_nsec = m mod 1000000 * 1000\<rparr>"
    using minus_mult_div_eq_mod [of m 1000000]
    by (simp add: howMuchTimeFromNow_def m_def [symmetric] Let_def cdiv_def cmod_def
        kMicroSecondsPerSecond_def)
  have thousandfold: "a * 1000000 + b = m \<Longrightarrow> a * 10 ^ 9 + b * 1000 = m * 1000" for a b :: int by auto
  have "m mod 1000000 < 1000000" "0 \<le> m mod 1000000" by simp_all
  moreover have "m div 1000000 * 10 ^ 9 + m mod 1000000 * 1000 = m * 1000"
    by (rule thousandfold [OF div_mult_mod_eq])
  moreover have "0 \<le> m div 1000000" using m by (simp add: pos_imp_zdiv_nonneg_iff)
  moreover have "max 100 ?us = m" if "in_i64 ?us"
    using that by (simp add: m_def i64_id)
  ultimately show ?thesis using m by (simp add: ts Let_def)
qed

theorem howMuchTimeFromNow_armed_witness:
  "tv_sec (howMuchTimeFromNow (Timestamp 7) (Timestamp 2000009)) * 10 ^ 9 +
   tv_nsec (howMuchTimeFromNow (Timestamp 7) (Timestamp 2000009)) = 2000002000"
  using howMuchTimeFromNow_armed [of "Timestamp 7" "Timestamp 2000009"]
  by (simp add: Let_def in_i64_def)

text \<open>
  C38. The id that \<^verbatim>\<open>addTimer\<close> returns is the key to cancel with: cancelling it at once always
  succeeds, frees the timer and leaves the queue with the timers it had.
\<close>

theorem addTimer_cancel_roundtrip:
  assumes "tq_inv {} q" "alloc_ok env" "inLoopThread env" "addTimer env cb w ivl q = Inr (tid, q1)"
  shows "\<exists>q2. cancelInLoop env tid q1 = Inr q2 \<and> heap q2 = heap q \<and> timers q2 = timers q"
  by (rule addTimer_cancel [OF assms])

theorem addTimer_cancel_roundtrip_witness:
  "\<exists>tid q1 q2. addTimer sample_env 0 (Timestamp 9) (double_of_int 0) (sample_queue 0) = Inr (tid, q1) \<and>
     cancelInLoop sample_env tid q1 = Inr q2 \<and> heap q2 = [16 \<mapsto> sample_timer 0] \<and> timers q2 = [(Timestamp 5, 16)]"
proof -
  obtain tid q1 where add: "addTimer sample_env 0 (Timestamp 9) (double_of_int 0) (sample_queue 0) = Inr (tid, q1)"
    by (simp add: sample_defs addTimer_def create_timer_def Timer_new_def incrementAndGet_def addAndGet_def
        addTimerInLoop_def assertInLoop_def insert_timer_def assert_sizes_def deref_def set_insert_def
        less_timestamp_def less_prod_def Let_def double_pos_def double_of_int_def)
  show ?thesis
    using addTimer_cancel_roundtrip [OF sample_ok(3,1,2) add] add
    by (auto simp: sample_queue_def TimerQueue_new_def)
qed

text \<open>
  Cancelling is safe for any id: an id whose timer has expired, was cancelled before or
  never existed (also one whose address has been reused by a newer timer) leaves every timer
  and the kernel timer alone; inside a round of callbacks it is only noted.
\<close>

theorem cancel_stale_id:
  assumes "tq_inv P q" "inLoopThread env"
    "\<forall>t. heap q (id_timer tid) = Some t \<longrightarrow> sequence t \<noteq> id_sequence tid \<or> id_timer tid \<in> P"
  shows "\<exists>cs. cancelInLoop env tid q = Inr (q\<lparr>cancelingTimers := cs\<rparr>) \<and>
    (\<not> callingExpiredTimers q \<longrightarrow> cs = cancelingTimers q)"
proof -
  have "(id_timer tid, id_sequence tid) \<notin> set (activeTimers q)"
    using assms(3) tq_inv_active_iff [OF assms(1)] tq_invD(4) [OF assms(1)] by force
  then show ?thesis
    using cancelInLoop_inactive [OF assms(1,2)]
    by (cases "callingExpiredTimers q") (auto intro: exI [of _ "cancelingTimers q"])
qed

theorem cancel_stale_id_witness:
  "\<exists>cs. cancelInLoop sample_env \<lparr>id_timer = 16, id_sequence = 2\<rparr> (sample_queue 0) =
     Inr ((sample_queue 0)\<lparr>cancelingTimers := cs\<rparr>)"
  using cancel_stale_id [OF sample_ok(3,2), of 0 "\<lparr>id_timer = 16, id_sequence = 2\<rparr>"]
  by (auto simp: sample_queue_def TimerQueue_new_def sample_timer_def)

end
