(* ===== verification/EventLoop.thy ===== *)
theory EventLoop
  imports EPoller TimerQueue
begin

text \<open>
  \<^verbatim>\<open>EventLoop.h\<close> and \<^verbatim>\<open>EventLoop.cc\<close>, in two views.

  First the members that only the thread of the loop runs, with the poller and the channels:
  one turn of \<^verbatim>\<open>loop\<close> polls, dispatches to the active channels and runs the pending functors.
  The functors and callbacks of the user are values of a type \<open>'cb\<close>, and what calling one does
  is a function of the whole state.

  Then the hand-over of functors between threads: a step relation interleaves the loop with any
  number of threads that call \<^verbatim>\<open>queueInLoop\<close> and \<^verbatim>\<open>quit\<close>. What the mutex makes atomic is one step,
  everything else is separate: a thread that has queued a functor has yet to write to the
  event descriptor. The counter of the descriptor is \<open>wakeupCount\<close>; writing adds one unless it
  is at its maximum, reading clears it, and it is readable when it is not zero.
\<close>

section \<open>The queue of functors\<close>

record 'f functor_queue =
  looping :: bool
  quit_flag :: bool
  callingPendingFunctors :: bool
  pendingFunctors :: "'f list"
  wakeupCount :: nat

definition functor_queue_new :: "'f functor_queue" where
  "functor_queue_new = \<lparr>looping = False, quit_flag = False, callingPendingFunctors = False,
     pendingFunctors = [], wakeupCount = 0\<rparr>"

definition wakeup :: "'f functor_queue \<Rightarrow> 'f functor_queue" where
  "wakeup q = (if wakeupCount q < 2 ^ 64 - 2 then q\<lparr>wakeupCount := wakeupCount q + 1\<rparr> else q)"

text \<open>\<^verbatim>\<open>EventLoop::handleRead\<close>, the callback of the event descriptor.\<close>

definition wakeup_read :: "'f functor_queue \<Rightarrow> 'f functor_queue" where
  "wakeup_read q = q\<lparr>wakeupCount := 0\<rparr>"

text \<open>\<^verbatim>\<open>queueInLoop\<close>: the part under the mutex, and the rest.\<close>

definition queue_push :: "'f \<Rightarrow> 'f functor_queue \<Rightarrow> 'f functor_queue" where
  "queue_push cb q = q\<lparr>pendingFunctors := pendingFunctors q @ [cb]\<rparr>"

definition queue_wake :: "bool \<Rightarrow> 'f functor_queue \<Rightarrow> 'f functor_queue" where
  "queue_wake inLoop q = (if \<not> inLoop \<or> callingPendingFunctors q then wakeup q else q)"

definition queueInLoop :: "bool \<Rightarrow> 'f \<Rightarrow> 'f functor_queue \<Rightarrow> 'f functor_queue" where
  "queueInLoop inLoop cb q = queue_wake inLoop (queue_push cb q)"

definition quit :: "bool \<Rightarrow> 'f functor_queue \<Rightarrow> 'f functor_queue" where
  "quit inLoop q = (let q = q\<lparr>quit_flag := True\<rparr> in if \<not> inLoop then wakeup q else q)"

text \<open>\<^verbatim>\<open>doPendingFunctors\<close>: before the functors run, and after.\<close>

definition pending_swap :: "'f functor_queue \<Rightarrow> 'f list \<times> 'f functor_queue" where
  "pending_swap q = (pendingFunctors q, q\<lparr>pendingFunctors := []\<rparr>)"

definition set_calling :: "'f functor_queue \<Rightarrow> 'f functor_queue" where
  "set_calling q = q\<lparr>callingPendingFunctors := True\<rparr>"

section \<open>The loop in its own thread\<close>

record ('cb, 'k) eventloop = "('cb, 'k) poller" +
  queue :: "'cb functor_queue"
  threadId :: int
  pollReturnTime :: timestamp
  activeChannels :: "addr list"

type_synonym ('cb, 'k) call =
  "timestamp option \<Rightarrow> 'cb \<Rightarrow> ('cb, 'k) eventloop \<Rightarrow> ('cb, 'k) eventloop result"

definition isInLoopThread :: "int \<Rightarrow> ('cb, 'k) eventloop \<Rightarrow> bool" where
  "isInLoopThread tid l \<longleftrightarrow> threadId l = tid"

definition assertInLoopThread :: "int \<Rightarrow> ('cb, 'k) eventloop \<Rightarrow> unit result" where
  "assertInLoopThread tid l = check (isInLoopThread tid l) FatalLog"

definition runInLoop :: "('cb, 'k) call \<Rightarrow> int \<Rightarrow> 'cb \<Rightarrow> ('cb, 'k) eventloop \<Rightarrow> ('cb, 'k) eventloop result" where
  "runInLoop call tid cb l =
     (if isInLoopThread tid l then call None cb l
      else Inr (l\<lparr>queue := queueInLoop False cb (queue l)\<rparr>))"

definition doPendingFunctors :: "('cb, 'k) call \<Rightarrow> ('cb, 'k) eventloop \<Rightarrow> ('cb, 'k) eventloop result" where
  "doPendingFunctors call l =
     (let (functors, q) = pending_swap (set_calling (queue l)) in
      rbind (rfold (call None) functors (l\<lparr>queue := q\<rparr>)) (\<lambda>l.
        Inr (l\<lparr>queue := set_calling (queue l)\<rparr>)))"

definition kPollTimeMs :: int where "kPollTimeMs = 10000"

text \<open>The body of the \<^verbatim>\<open>while\<close> of \<^verbatim>\<open>loop\<close>.\<close>

definition loop_turn :: "'k epoll_sys \<Rightarrow> ('cb, 'k) call \<Rightarrow> timestamp \<Rightarrow>
    ('cb, 'k) eventloop \<Rightarrow> ('cb, 'k) eventloop result" where
  "loop_turn sys call now l =
     rbind (ep_poll sys kPollTimeMs [] (l\<lparr>activeChannels := []\<rparr>)) (\<lambda>(active, l).
     rbind (rfold (handleEvent call now) active (l\<lparr>activeChannels := active, pollReturnTime := now\<rparr>)) (\<lambda>l.
       doPendingFunctors call l))"

text \<open>The loop, for a bounded number of turns; \<^term>\<open>None\<close> when they are used up.\<close>

fun loop_while :: "'k epoll_sys \<Rightarrow> ('cb, 'k) call \<Rightarrow> (nat \<Rightarrow> timestamp) \<Rightarrow> nat \<Rightarrow>
    ('cb, 'k) eventloop \<Rightarrow> ('cb, 'k) eventloop result option" where
  "loop_while sys call nows 0 l = (if quit_flag (queue l) then Some (Inr l) else None)"
| "loop_while sys call nows (Suc n) l =
     (if quit_flag (queue l) then Some (Inr l)
      else case loop_turn sys call (nows n) l of
          Inl e \<Rightarrow> Some (Inl e) | Inr l' \<Rightarrow> loop_while sys call nows n l')"

definition loop :: "'k epoll_sys \<Rightarrow> ('cb, 'k) call \<Rightarrow> (nat \<Rightarrow> timestamp) \<Rightarrow> nat \<Rightarrow> int \<Rightarrow>
    ('cb, 'k) eventloop \<Rightarrow> ('cb, 'k) eventloop result option" where
  "loop sys call nows n tid l =
     (case rbind (check (\<not> looping (queue l)) AssertFailure) (\<lambda>_. assertInLoopThread tid l) of
        Inl e \<Rightarrow> Some (Inl e)
      | Inr _ \<Rightarrow> map_option (\<lambda>r. rbind r (\<lambda>l. Inr (l\<lparr>queue := (queue l)\<lparr>looping := False\<rparr>\<rparr>)))
          (loop_while sys call nows n (l\<lparr>queue := (queue l)\<lparr>looping := True, quit_flag := False\<rparr>\<rparr>)))"

section \<open>Timers\<close>

definition runAt :: "'cb env \<Rightarrow> timestamp \<Rightarrow> 'cb \<Rightarrow> 'cb timer_queue \<Rightarrow> (timer_id \<times> 'cb timer_queue) result" where
  "runAt env time cb q = addTimer env cb time (double_of_int 0) q"

definition runAfter :: "'cb env \<Rightarrow> double \<Rightarrow> 'cb \<Rightarrow> 'cb timer_queue \<Rightarrow> (timer_id \<times> 'cb timer_queue) result" where
  "runAfter env delay cb q =
     (let (now, q) = read_clock env q in addTimer env cb (addTime now delay) (double_of_int 0) q)"

definition runEvery :: "'cb env \<Rightarrow> double \<Rightarrow> 'cb \<Rightarrow> 'cb timer_queue \<Rightarrow> (timer_id \<times> 'cb timer_queue) result" where
  "runEvery env ivl cb q =
     (let (now, q) = read_clock env q in addTimer env cb (addTime now ivl) ivl q)"

text \<open>In the thread of the loop, where \<^verbatim>\<open>TimerQueue::cancel\<close> runs \<^verbatim>\<open>cancelInLoop\<close> at once.\<close>

definition loop_cancel :: "'cb env \<Rightarrow> timer_id \<Rightarrow> 'cb timer_queue \<Rightarrow> 'cb timer_queue result" where
  "loop_cancel env timerId q = cancelInLoop env timerId q"

section \<open>The loop among other threads\<close>

text \<open>
  Where the thread of the loop is: not in \<^verbatim>\<open>loop\<close>, at the test of the \<^verbatim>\<open>while\<close>, in the poll, among
  the handlers, before the swap in \<^verbatim>\<open>doPendingFunctors\<close>, or with functors left to run.
  \<open>owing\<close> counts the other threads that have queued a functor or set \<^verbatim>\<open>quit_\<close> and have yet to
  wake the loop, \<open>loopOwes\<close> says the same of the thread of the loop. \<open>queued\<close> and \<open>executed\<close>
  record the functors in the order they were queued and run, and \<open>early\<close> that the thread of
  the loop has queued a functor while it was not in \<^verbatim>\<open>loop\<close>.
\<close>

datatype 'f loop_pc = Outside | Test | Poll | Handle | Swap | Run "'f list"

record 'f system =
  fq :: "'f functor_queue"
  pc :: "'f loop_pc"
  owing :: nat
  loopOwes :: bool
  queued :: "'f list"
  executed :: "'f list"
  early :: bool

definition system_new :: "'f system" where
  "system_new = \<lparr>fq = functor_queue_new, pc = Outside, owing = 0, loopOwes = False,
     queued = [], executed = [], early = False\<rparr>"

fun can_call :: "'f loop_pc \<Rightarrow> bool" where
  "can_call Outside = True"
| "can_call Handle = True"
| "can_call (Run fs) = True"
| "can_call _ = False"

inductive step :: "'f system \<Rightarrow> 'f system \<Rightarrow> bool" where
  other_push: "step s (s\<lparr>fq := queue_push f (fq s), owing := Suc (owing s), queued := queued s @ [f]\<rparr>)"
| other_quit: "step s (s\<lparr>fq := (fq s)\<lparr>quit_flag := True\<rparr>, owing := Suc (owing s)\<rparr>)"
| other_wake: "owing s = Suc n \<Longrightarrow> step s (s\<lparr>fq := queue_wake False (fq s), owing := n\<rparr>)"
| loop_push: "can_call (pc s) \<Longrightarrow> \<not> loopOwes s \<Longrightarrow>
    step s (s\<lparr>fq := queue_push f (fq s), loopOwes := True, queued := queued s @ [f],
      early := early s \<or> pc s = Outside\<rparr>)"
| loop_wake: "loopOwes s \<Longrightarrow> step s (s\<lparr>fq := queue_wake True (fq s), loopOwes := False\<rparr>)"
| loop_quit: "can_call (pc s) \<Longrightarrow> \<not> loopOwes s \<Longrightarrow> step s (s\<lparr>fq := quit True (fq s)\<rparr>)"
| enter: "pc s = Outside \<Longrightarrow> \<not> loopOwes s \<Longrightarrow> \<not> looping (fq s) \<Longrightarrow>
    step s (s\<lparr>fq := (fq s)\<lparr>looping := True, quit_flag := False\<rparr>, pc := Test\<rparr>)"
| again: "pc s = Test \<Longrightarrow> \<not> quit_flag (fq s) \<Longrightarrow> step s (s\<lparr>pc := Poll\<rparr>)"
| leave: "pc s = Test \<Longrightarrow> quit_flag (fq s) \<Longrightarrow> step s (s\<lparr>fq := (fq s)\<lparr>looping := False\<rparr>, pc := Outside\<rparr>)"
| poll_returns: "pc s = Poll \<Longrightarrow> step s (s\<lparr>pc := Handle\<rparr>)"
| woken: "pc s = Handle \<Longrightarrow> \<not> loopOwes s \<Longrightarrow> step s (s\<lparr>fq := wakeup_read (fq s)\<rparr>)"
| handled_all: "pc s = Handle \<Longrightarrow> \<not> loopOwes s \<Longrightarrow> step s (s\<lparr>fq := set_calling (fq s), pc := Swap\<rparr>)"
| swap: "pc s = Swap \<Longrightarrow> pending_swap (fq s) = (fs, q) \<Longrightarrow>
    step s (s\<lparr>fq := q, pc := Run fs, early := False\<rparr>)"
| run: "pc s = Run (f # fs) \<Longrightarrow> \<not> loopOwes s \<Longrightarrow> step s (s\<lparr>pc := Run fs, executed := executed s @ [f]\<rparr>)"
| run_end: "pc s = Run [] \<Longrightarrow> \<not> loopOwes s \<Longrightarrow> step s (s\<lparr>fq := set_calling (fq s), pc := Test\<rparr>)"

inductive reachable :: "'f system \<Rightarrow> bool" where
  start: "reachable system_new"
| next_step: "reachable s \<Longrightarrow> step s s' \<Longrightarrow> reachable s'"

inductive_cases stepE: "step s s'"

section \<open>No wake-up is lost\<close>

text \<open>The descriptor is readable, or a thread is about to make it readable.\<close>

definition signalled :: "'f system \<Rightarrow> bool" where
  "signalled s \<longleftrightarrow> wakeupCount (fq s) \<noteq> 0 \<or> owing s \<noteq> 0"

fun running :: "'f loop_pc \<Rightarrow> 'f list" where
  "running (Run fs) = fs"
| "running _ = []"

definition fifo :: "'f system \<Rightarrow> bool" where
  "fifo s \<longleftrightarrow> queued s = executed s @ running (pc s) @ pendingFunctors (fq s)"

fun awake :: "'f loop_pc \<Rightarrow> 'f system \<Rightarrow> bool" where
  "awake Outside s \<longleftrightarrow> (pendingFunctors (fq s) \<noteq> [] \<longrightarrow> signalled s \<or> early s)"
| "awake Test s \<longleftrightarrow> \<not> loopOwes s \<and> (pendingFunctors (fq s) \<noteq> [] \<longrightarrow> signalled s \<or> early s)"
| "awake Poll s \<longleftrightarrow> \<not> loopOwes s \<and> (pendingFunctors (fq s) \<noteq> [] \<longrightarrow> signalled s \<or> early s) \<and>
     (quit_flag (fq s) \<longrightarrow> signalled s)"
| "awake Handle s \<longleftrightarrow> True"
| "awake Swap s \<longleftrightarrow> \<not> loopOwes s \<and> callingPendingFunctors (fq s)"
| "awake (Run fs) s \<longleftrightarrow> callingPendingFunctors (fq s) \<and>
     (pendingFunctors (fq s) \<noteq> [] \<longrightarrow> signalled s \<or> loopOwes s)"

lemma wakeup_simps [simp]:
  "wakeupCount (wakeup q) \<noteq> 0" "pendingFunctors (wakeup q) = pendingFunctors q"
  "quit_flag (wakeup q) = quit_flag q" "looping (wakeup q) = looping q"
  "callingPendingFunctors (wakeup q) = callingPendingFunctors q"
  by (simp_all add: wakeup_def)

lemma queue_wake_simps [simp]:
  "pendingFunctors (queue_wake b q) = pendingFunctors q" "quit_flag (queue_wake b q) = quit_flag q"
  "looping (queue_wake b q) = looping q"
  "callingPendingFunctors (queue_wake b q) = callingPendingFunctors q"
  "wakeupCount (queue_wake b q) = 0 \<longleftrightarrow> wakeupCount q = 0 \<and> b \<and> \<not> callingPendingFunctors q"
  by (simp_all add: queue_wake_def wakeup_def)

lemmas queue_op_defs = queue_push_def quit_def wakeup_read_def pending_swap_def set_calling_def

lemma step_fifo: "step s s' \<Longrightarrow> fifo s \<Longrightarrow> fifo s'"
  by (erule stepE) (auto simp: fifo_def queue_op_defs)

lemma step_awake:
  assumes "step s s'" "awake (pc s) s"
  shows "awake (pc s') s'"
  using assms(1)
proof cases
  case (other_push f)
  with assms(2) show ?thesis by (cases "pc s") (auto simp: queue_op_defs signalled_def)
next
  case other_quit
  with assms(2) show ?thesis by (cases "pc s") (auto simp: signalled_def)
next
  case (other_wake n)
  with assms(2) show ?thesis by (cases "pc s") (auto simp: signalled_def)
next
  case (loop_push f)
  with assms(2) show ?thesis by (cases "pc s") (auto simp: queue_op_defs signalled_def)
next
  case loop_wake
  with assms(2) show ?thesis by (cases "pc s") (auto simp: signalled_def)
next
  case loop_quit
  with assms(2) show ?thesis by (cases "pc s") (auto simp: queue_op_defs signalled_def)
qed (use assms(2) in \<open>auto simp: queue_op_defs signalled_def\<close>)

lemma reachable_inv: "reachable s \<Longrightarrow> fifo s \<and> awake (pc s) s"
proof (induction rule: reachable.induct)
  case start
  show ?case by (simp add: fifo_def system_new_def functor_queue_new_def)
next
  case (next_step s s')
  then show ?case using step_fifo step_awake by blast
qed

section \<open>A turn of the loop\<close>

text \<open>
  The callbacks in the slots of the channels are from a set \<open>K\<close> of handlers, and handlers
  destroy no channel (they leave that to functors). Functors only have to keep the poller in
  sync. \<open>F\<close> are the faults that callbacks may raise themselves.
\<close>

definition slots_in :: "'cb set \<Rightarrow> ('cb, 'x) channels_scheme \<Rightarrow> bool" where
  "slots_in K s \<longleftrightarrow> (\<forall>p c. chan s p = Some c \<longrightarrow>
     set_option (readCallback c) \<union> set_option (writeCallback c) \<union>
     set_option (errorCallback c) \<union> set_option (closeCallback c) \<subseteq> K)"

definition loop_ok :: "'k epoll_sys \<Rightarrow> 'cb set \<Rightarrow> addr set \<Rightarrow> ('cb, 'k) eventloop \<Rightarrow> bool" where
  "loop_ok sys K A l \<longleftrightarrow> ep_inv sys l \<and> slots_in K l \<and> A \<subseteq> dom (chan l)"

definition handlers_ok :: "fault set \<Rightarrow> 'k epoll_sys \<Rightarrow> 'cb set \<Rightarrow> ('cb, 'k) call \<Rightarrow> bool" where
  "handlers_ok F sys K call \<longleftrightarrow>
     (\<forall>A t l. \<forall>cb\<in>K. loop_ok sys K A l \<longrightarrow> yields F (loop_ok sys K A) (call t cb l))"

definition functors_ok :: "fault set \<Rightarrow> 'k epoll_sys \<Rightarrow> 'cb set \<Rightarrow> ('cb, 'k) call \<Rightarrow> bool" where
  "functors_ok F sys K call \<longleftrightarrow>
     (\<forall>t l cb. loop_ok sys K {} l \<longrightarrow> yields F (loop_ok sys K {}) (call t cb l))"

lemma ep_inv_handling:
  assumes inv: "ep_inv sys s" and p: "chan s p = Some c"
  shows "ep_inv sys (s\<lparr>chan := (chan s)(p \<mapsto> c\<lparr>eventHandling := b\<rparr>)\<rparr>)"
proof (rule ep_invI)
  let ?s = "s\<lparr>chan := (chan s)(p \<mapsto> c\<lparr>eventHandling := b\<rparr>)\<rparr>"
  note D = ep_invD [OF inv]
  show "ch_index c' = kNew \<or> ch_index c' = kAdded \<or> ch_index c' = kDeleted" if "chan ?s p' = Some c'" for p' c'
    using that p by (auto dest: D(1) split: if_splits)
  show "channels_ep ?s (ch_fd c') = Some p'" if "chan ?s p' = Some c'" "ch_index c' \<noteq> kNew" for p' c'
    using that p by (auto dest: D(2) split: if_splits)
  show "\<exists>c. chan ?s p' = Some c \<and> ch_fd c = d \<and> ch_index c \<noteq> kNew" if "channels_ep ?s d = Some p'" for d p'
    using that p D(3) [of d p'] by auto
  show "interest sys (kernel ?s) = interest_of ?s"
    using p by (auto simp: D(4) interest_of_def fun_eq_iff split: option.split)
qed

lemma change_handling_ok:
  assumes "loop_ok sys K A l" "p \<in> A"
  shows "yields F (loop_ok sys K A) (change p (\<lambda>c. c\<lparr>eventHandling := b\<rparr>) l)"
proof -
  obtain c where c: "chan l p = Some c" using assms by (auto simp: loop_ok_def)
  then have "loop_ok sys K A (l\<lparr>chan := (chan l)(p \<mapsto> c\<lparr>eventHandling := b\<rparr>)\<rparr>)"
    using assms ep_inv_handling [of sys l p c b] unfolding loop_ok_def slots_in_def by auto
  with c show ?thesis by (simp add: change_def load_def)
qed

lemma dispatch_ok:
  assumes "handlers_ok F sys K call" "loop_ok sys K A l" "p \<in> A"
    and "slot \<in> {readCallback, writeCallback, errorCallback, closeCallback}"
  shows "yields F (loop_ok sys K A) (dispatch (call t) cond slot p l)"
proof -
  obtain c where c: "chan l p = Some c" using assms by (auto simp: loop_ok_def)
  then have "cb \<in> K" if "slot c = Some cb" for cb
    using assms(2,4) that unfolding loop_ok_def slots_in_def by fastforce
  then show ?thesis
    using assms(1,2) c unfolding handlers_ok_def by (auto simp: dispatch_def load_def split: option.split)
qed

lemma handleEvent_ok:
  assumes h: "handlers_ok F sys K call" and l: "loop_ok sys K A l" and p: "p \<in> A"
  shows "yields F (loop_ok sys K A) (handleEvent call now p l)"
  unfolding handleEvent_def
  by (rule yields_bind [OF change_handling_ok [OF l p]],
      rule yields_bind [OF dispatch_ok [OF h _ p]], assumption, simp,
      rule yields_bind [OF dispatch_ok [OF h _ p]], assumption, simp,
      rule yields_bind [OF dispatch_ok [OF h _ p]], assumption, simp,
      rule yields_bind [OF dispatch_ok [OF h _ p]], assumption, simp)
    (rule change_handling_ok [OF _ p])

lemma loop_ok_fields [simp]:
  "loop_ok sys K A (l\<lparr>queue := q\<rparr>) = loop_ok sys K A l"
  "loop_ok sys K A (l\<lparr>activeChannels := as\<rparr>) = loop_ok sys K A l"
  "loop_ok sys K A (l\<lparr>pollReturnTime := t\<rparr>) = loop_ok sys K A l"
  by (simp_all add: loop_ok_def slots_in_def ep_inv_def interest_of_def fun_eq_iff cong: option.case_cong)

lemma handlers_run_ok:
  assumes "handlers_ok F sys K call" "loop_ok sys K A l" "set active \<subseteq> A"
  shows "yields F (loop_ok sys K A) (rfold (handleEvent call now) active l)"
proof (rule yields_mono [OF yields_rfold [where I = "\<lambda>ps l. set ps \<subseteq> A \<and> loop_ok sys K A l"]])
  show "yields F (\<lambda>l. set ps \<subseteq> A \<and> loop_ok sys K A l) (handleEvent call now p l)"
    if "set (p # ps) \<subseteq> A \<and> loop_ok sys K A l" for p ps l
    using that handleEvent_ok [OF assms(1), of A l p now] by (auto elim: yields_mono)
qed (use assms in auto)

lemma doPendingFunctors_ok:
  assumes "functors_ok F sys K call" "loop_ok sys K {} l"
  shows "yields F (loop_ok sys K {}) (doPendingFunctors call l)"
  unfolding doPendingFunctors_def Let_def prod.case_eq_if
proof (rule yields_bind)
  show "yields F (loop_ok sys K {}) (rfold (call None) fs (l\<lparr>queue := q\<rparr>))" for fs q
    by (rule yields_rfold [where I = "\<lambda>_. loop_ok sys K {}"])
      (use assms in \<open>auto simp: functors_ok_def\<close>)
qed simp

lemma polled_loop_ok:
  assumes "loop_ok sys K {} l" "ep_inv sys l'" "polled evs l l'"
  shows "loop_ok sys K (snd ` set evs) l'"
proof -
  have reported: "\<exists>m c. chan l p = Some c \<and> chan l' p = Some (set_revents m c)" if "p \<in> snd ` set evs" for p
  proof -
    obtain m where "(m, p) \<in> set evs" using \<open>p \<in> snd ` set evs\<close> by force
    then show ?thesis using assms(3) unfolding polled_def by fast
  qed
  have others: "chan l' p = chan l p" if "p \<notin> snd ` set evs" for p
    using that assms(3) unfolding polled_def by blast
  have "slots_in K l'"
    unfolding slots_in_def
  proof (intro allI impI)
    fix p c'
    assume c': "chan l' p = Some c'"
    then obtain c where c: "chan l p = Some c" "c' = c \<or> (\<exists>m. c' = set_revents m c)"
      using reported [of p] others [of p] by (cases "p \<in> snd ` set evs") auto
    have "set_option (readCallback c) \<union> set_option (writeCallback c) \<union>
        set_option (errorCallback c) \<union> set_option (closeCallback c) \<subseteq> K"
      using assms(1) c(1) unfolding loop_ok_def slots_in_def by blast
    with c(2) show "set_option (readCallback c') \<union> set_option (writeCallback c') \<union>
        set_option (errorCallback c') \<union> set_option (closeCallback c') \<subseteq> K"
      by (elim disjE exE) (simp_all add: set_revents_def)
  qed
  with assms(2) reported show ?thesis by (fastforce simp: loop_ok_def)
qed

lemma loop_ok_mono: "loop_ok sys K A l \<Longrightarrow> loop_ok sys K {} l"
  by (simp add: loop_ok_def)

lemma loop_turn_ok:
  assumes wait: "epoll_wait_ok sys" and h: "handlers_ok F sys K call" and fs: "functors_ok F sys K call"
    and l: "loop_ok sys K {} l"
  shows "yields F (loop_ok sys K {}) (loop_turn sys call now l)"
proof -
  let ?l = "l\<lparr>activeChannels := []\<rparr>"
  have l0: "loop_ok sys K {} ?l" using l by simp
  then have inv: "ep_inv sys ?l" by (simp add: loop_ok_def)
  obtain r k where "epoll_wait sys (int_of_size (events_size ?l)) kPollTimeMs (kernel ?l) = (r, k)" by fastforce
  then obtain l1 evs where l1: "ep_poll sys kPollTimeMs [] ?l = Inr (map snd evs, l1)" "ep_inv sys l1" "polled evs ?l l1"
    using ep_poll_ok [OF wait inv, of kPollTimeMs r k "[]"] by auto
  have "yields F (loop_ok sys K {}) (rfold (handleEvent call now) (map snd evs)
      (l1\<lparr>activeChannels := map snd evs, pollReturnTime := now\<rparr>))"
    by (rule yields_mono [OF handlers_run_ok [OF h, where A = "snd ` set evs"] loop_ok_mono])
      (use polled_loop_ok [OF l0 l1(2,3)] in simp_all)
  then show ?thesis
    using doPendingFunctors_ok [OF fs] by (auto simp: loop_turn_def l1(1) intro: yields_bind)
qed

lemma loop_while_ok:
  assumes "epoll_wait_ok sys" "handlers_ok F sys K call" "functors_ok F sys K call" "loop_ok sys K {} l"
    and "loop_while sys call nows n l = Some r"
  shows "yields F (\<lambda>l'. loop_ok sys K {} l' \<and> quit_flag (queue l')) r"
  using assms(4,5)
proof (induction n arbitrary: l)
  case 0
  then show ?case by (auto split: if_splits)
next
  case (Suc n)
  have turn: "yields F (loop_ok sys K {}) (loop_turn sys call (nows n) l)"
    by (rule loop_turn_ok [OF assms(1-3) Suc.prems(1)])
  show ?case
  proof (cases "quit_flag (queue l)")
    case True
    then have "r = Inr l" using Suc.prems(2) by simp
    with True Suc.prems(1) show ?thesis by simp
  next
    case go: False
    show ?thesis
    proof (cases "loop_turn sys call (nows n) l")
      case (Inl e)
      then have "r = Inl e" using go Suc.prems(2) by simp
      moreover have "e \<in> F" using turn Inl by simp
      ultimately show ?thesis by simp
    next
      case (Inr l')
      then have "loop_while sys call nows n l' = Some r" using go Suc.prems(2) by simp
      moreover have "loop_ok sys K {} l'" using turn Inr by simp
      ultimately show ?thesis by (rule Suc.IH [rotated])
    qed
  qed
qed

section \<open>Properties\<close>

text \<open>
  C6. Functors run once and in order: however the threads that queue functors interleave with
  the loop, the functors run so far, followed by those taken out and those still pending, are
  exactly the functors queued, in the order in which they were queued.
\<close>

theorem functors_fifo_once:
  assumes "reachable s"
  shows "queued s = executed s @ running (pc s) @ pendingFunctors (fq s)"
  using reachable_inv [OF assms] by (simp add: fifo_def)

theorem functors_fifo_once_witness:
  "\<exists>s :: nat system. reachable s \<and> queued s = [7] \<and> pendingFunctors (fq s) = [7] \<and> executed s @ running (pc s) = []"
proof -
  define s1 :: "nat system" where "s1 = system_new\<lparr>fq := queue_push 7 (fq system_new),
    owing := Suc (owing (system_new :: nat system)), queued := queued system_new @ [7]\<rparr>"
  have r: "reachable s1" unfolding s1_def by (rule next_step [OF start other_push])
  have "queued s1 = [7]" "pendingFunctors (fq s1) = [7]"
    by (simp_all add: s1_def system_new_def functor_queue_new_def queue_push_def)
  then show ?thesis using functors_fifo_once [OF r] r by (intro exI [of _ s1]) simp
qed


lemma sample_poll:
  fixes s1 s2 s3 s4 :: "nat system"
  defines "s1 \<equiv> system_new\<lparr>fq := (fq system_new)\<lparr>looping := True, quit_flag := False\<rparr>, pc := Test\<rparr>"
  defines "s2 \<equiv> s1\<lparr>pc := Poll\<rparr>"
  defines "s3 \<equiv> s2\<lparr>fq := queue_push 7 (fq s2), owing := Suc (owing s2), queued := queued s2 @ [7]\<rparr>"
  defines "s4 \<equiv> s3\<lparr>fq := queue_wake False (fq s3), owing := 0\<rparr>"
  shows "reachable s4 \<and> pc s4 = Poll \<and> owing s4 = 0 \<and> pendingFunctors (fq s4) = [7] \<and> \<not> early s4"
proof -
  have "reachable s1"
    unfolding s1_def by (rule next_step [OF start enter]) (simp_all add: system_new_def functor_queue_new_def)
  then have "reachable s2"
    unfolding s2_def by (rule next_step [OF _ again]) (simp_all add: s1_def)
  then have "reachable s3"
    unfolding s3_def by (rule next_step [OF _ other_push])
  then have "reachable s4"
    unfolding s4_def by (rule next_step [OF _ other_wake]) (simp add: s3_def s2_def s1_def system_new_def)
  then show ?thesis
    by (simp add: s4_def s3_def s2_def s1_def queue_push_def system_new_def functor_queue_new_def)
qed


text \<open>
  The exception is real: a functor that the thread of the loop queues before it calls
  \<^verbatim>\<open>loop\<close> writes nothing to the event descriptor, so the loop can sit in its first poll (for
  up to ten seconds) with the functor pending, the descriptor not readable and no thread
  about to write to it.
\<close>

theorem early_functor_waits:
  "\<exists>s :: 'f system. reachable s \<and> pc s = Poll \<and> pendingFunctors (fq s) = [f] \<and> wakeupCount (fq s) = 0 \<and>
     owing s = 0 \<and> \<not> loopOwes s"
proof -
  define s1 :: "'f system" where "s1 = system_new\<lparr>fq := queue_push f (fq system_new), loopOwes := True,
    queued := queued system_new @ [f], early := early (system_new :: 'f system) \<or> pc (system_new :: 'f system) = Outside\<rparr>"
  define s2 where "s2 = s1\<lparr>fq := queue_wake True (fq s1), loopOwes := False\<rparr>"
  define s3 where "s3 = s2\<lparr>fq := (fq s2)\<lparr>looping := True, quit_flag := False\<rparr>, pc := Test\<rparr>"
  define s4 where "s4 = s3\<lparr>pc := Poll\<rparr>"
  note defs = s1_def s2_def s3_def s4_def system_new_def functor_queue_new_def queue_push_def queue_wake_def
  have "reachable s1"
    unfolding s1_def by (rule next_step [OF start loop_push]) (simp_all add: system_new_def)
  then have "reachable s2"
    unfolding s2_def by (rule next_step [OF _ loop_wake]) (simp add: s1_def)
  then have "reachable s3"
    unfolding s3_def by (rule next_step [OF _ enter]) (simp_all add: defs)
  then have "reachable s4"
    unfolding s4_def by (rule next_step [OF _ again]) (simp_all add: defs)
  then show ?thesis by (intro exI [of _ s4]) (simp add: defs)
qed


text \<open>A loop with one channel whose handler calls \<^verbatim>\<open>quit\<close>.\<close>

definition sample_call :: "(nat, fd \<rightharpoonup> epoll_event) call" where
  "sample_call t cb l = Inr (if cb = 0 then l else l\<lparr>queue := quit True (queue l)\<rparr>)"

definition sample_loop :: "(nat, fd \<rightharpoonup> epoll_event) eventloop" where
  "sample_loop = \<lparr>chan = [8 \<mapsto> (Channel_new 0 5)\<lparr>ch_events := 3, ch_index := kAdded, readCallback := Some 1\<rparr>],
     channels_ep = [5 \<mapsto> 8], events_size = 16, kernel = [5 \<mapsto> (3, 8)], ownerLoop = 0,
     queue = functor_queue_new, threadId = 42, pollReturnTime = invalid, activeChannels = []\<rparr>"


text \<open>
  A \<^verbatim>\<open>quit\<close> that comes before \<^verbatim>\<open>loop\<close> is forgotten: \<^verbatim>\<open>loop\<close> clears \<^verbatim>\<open>quit_\<close> when it starts, so a
  loop that was told to quit before it started runs exactly as if it had not been told.
\<close>

theorem quit_before_loop_ignored:
  "loop sys call nows n tid (l\<lparr>queue := quit True (queue l)\<rparr>) = loop sys call nows n tid l"
  by (simp add: loop_def quit_def assertInLoopThread_def isInLoopThread_def Let_def split: sum.split)

text \<open>
  The flag for running functors is never cleared: once the loop has made a turn without a
  fault, \<^verbatim>\<open>callingPendingFunctors_\<close> is on for good as far as \<^verbatim>\<open>doPendingFunctors\<close> is concerned, so
  every functor queued by a handler in the thread of the loop writes to the event descriptor.
\<close>

theorem calling_flag_sticks:
  assumes "loop_turn sys call now l = Inr l'"
  shows "callingPendingFunctors (queue l') \<and> 0 < wakeupCount (queueInLoop True f (queue l'))"
proof -
  have "callingPendingFunctors (queue l')"
    using assms by (auto simp: loop_turn_def doPendingFunctors_def pending_swap_def Let_def set_calling_def)
  moreover from this have "wakeupCount (queueInLoop True f (queue l')) \<noteq> 0"
    unfolding queueInLoop_def queue_wake_simps by (simp add: queue_push_def)
  ultimately show ?thesis by simp
qed

theorem calling_flag_sticks_witness:
  "\<exists>l'. loop_turn sample_sys sample_call (Timestamp 9) (sample_loop\<lparr>chan := Map.empty, kernel := Map.empty\<rparr>) = Inr l' \<and>
     callingPendingFunctors (queue l')"
proof -
  obtain l' where l': "loop_turn sample_sys sample_call (Timestamp 9) (sample_loop\<lparr>chan := Map.empty, kernel := Map.empty\<rparr>) = Inr l'"
    by (simp add: loop_turn_def sample_loop_def ep_poll_def sample_sys_def doPendingFunctors_def functor_queue_new_def
        pending_swap_def set_calling_def Let_def)
  with calling_flag_sticks [OF l'] show ?thesis by blast
qed

section \<open>Timers of a loop\<close>

text \<open>Whatever timer the loop was asked for, cancelling the id it returned restores the timers there were.\<close>

lemma tq_inv_clockReads [simp]: "tq_inv P (q\<lparr>clockReads := n\<rparr>) = tq_inv P q"
proof -
  have "active_of (q\<lparr>clockReads := n\<rparr>) = active_of q" by (rule ext) (simp add: active_of_def seq_at_def)
  then show ?thesis by (simp add: tq_inv_def)
qed

theorem loop_timer_cancel:
  assumes "tq_inv {} q" "alloc_ok env" "inLoopThread env"
    and "runAt env w cb q = Inr (tid, q1) \<or> runAfter env d cb q = Inr (tid, q1) \<or> runEvery env d cb q = Inr (tid, q1)"
  shows "\<exists>q2. loop_cancel env tid q1 = Inr q2 \<and> heap q2 = heap q \<and> timers q2 = timers q"
proof -
  let ?q = "q\<lparr>clockReads := Suc (clockReads q)\<rparr>"
  obtain q0 w' ivl where q0: "addTimer env cb w' ivl q0 = Inr (tid, q1)" "q0 = q \<or> q0 = ?q"
    using assms(4) by (auto simp: runAt_def runAfter_def runEvery_def read_clock_def)
  then have "tq_inv {} q0" "heap q0 = heap q" "timers q0 = timers q" using assms(1) by auto
  with addTimer_cancel [OF _ assms(2,3) q0(1)] show ?thesis by (simp add: loop_cancel_def)
qed

end
