(* ===== verification/Sockets.thy ===== *)
theory Sockets
  imports Text_Format
begin

text \<open>
  \<^verbatim>\<open>SocketsOps.h\<close>, \<^verbatim>\<open>SocketsOps.cc\<close>, \<^verbatim>\<open>InetAddress\<close> and \<^verbatim>\<open>Socket\<close>: byte order, addresses and their texts,
  and what the wrappers of the socket calls make of the answers of the kernel, which are
  arguments. The machine is little-endian. \<^verbatim>\<open>inet_ntop\<close> and \<^verbatim>\<open>inet_pton\<close> are those of the C
  library, for \<^verbatim>\<open>AF_INET\<close>.
\<close>

unbundle bit_operations_syntax

section \<open>Byte order\<close>

definition byte_at :: "nat \<Rightarrow> 'w::len word \<Rightarrow> byte" where
  "byte_at i w = ucast (drop_bit (8 * i) w)"

text \<open>The bytes of an integer in the order of their addresses.\<close>

definition mem16 :: "16 word \<Rightarrow> byte list" where
  "mem16 w = map (\<lambda>i. byte_at i w) [0, 1]"
definition mem32 :: "32 word \<Rightarrow> byte list" where
  "mem32 w = map (\<lambda>i. byte_at i w) [0, 1, 2, 3]"
definition mem64 :: "64 word \<Rightarrow> byte list" where
  "mem64 w = map (\<lambda>i. byte_at i w) [0, 1, 2, 3, 4, 5, 6, 7]"

definition htons :: "16 word \<Rightarrow> 16 word" where
  "htons w = push_bit 8 w OR drop_bit 8 w"

definition htonl :: "32 word \<Rightarrow> 32 word" where
  "htonl w = push_bit 24 w OR (push_bit 8 w AND 0xFF0000) OR (drop_bit 8 w AND 0xFF00) OR drop_bit 24 w"

definition htobe64 :: "64 word \<Rightarrow> 64 word" where
  "htobe64 w = push_bit 32 (ucast (htonl (ucast w))) OR ucast (htonl (ucast (drop_bit 32 w)))"

definition hostToNetwork64 :: "64 word \<Rightarrow> 64 word" where
  "hostToNetwork64 host64 = htobe64 host64"
definition hostToNetwork32 :: "32 word \<Rightarrow> 32 word" where
  "hostToNetwork32 host32 = htonl host32"
definition hostToNetwork16 :: "16 word \<Rightarrow> 16 word" where
  "hostToNetwork16 host16 = htons host16"

text \<open>The arguments of all three are \<^verbatim>\<open>uint64_t\<close>; the calls inside cut them to their width.\<close>

definition networkToHost64 :: "64 word \<Rightarrow> 64 word" where
  "networkToHost64 net64 = htobe64 net64"
definition networkToHost32 :: "64 word \<Rightarrow> 32 word" where
  "networkToHost32 net32 = htonl (ucast net32)"
definition networkToHost16 :: "64 word \<Rightarrow> 16 word" where
  "networkToHost16 net16 = htons (ucast net16)"

lemma bit_mask_16_24: "bit (0xFF0000 :: 32 word) n \<longleftrightarrow> 16 \<le> n \<and> n < 24"
proof -
  have eq: "(0xFF0000 :: 32 word) = push_bit 16 (mask 8)" by (simp add: mask_eq_exp_minus_1 push_bit_eq_mult)
  show ?thesis unfolding eq by (auto simp: bit_simps)
qed

lemma bit_mask_8_16: "bit (0xFF00 :: 32 word) n \<longleftrightarrow> 8 \<le> n \<and> n < 16"
proof -
  have eq: "(0xFF00 :: 32 word) = push_bit 8 (mask 8)" by (simp add: mask_eq_exp_minus_1 push_bit_eq_mult)
  show ?thesis unfolding eq by (auto simp: bit_simps)
qed

lemma bit_htons: "bit (htons w) n \<longleftrightarrow> n < 16 \<and> bit w (if n < 8 then n + 8 else n - 8)"
  by (auto simp: htons_def bit_simps add.commute dest: bit_imp_le_length)

lemma bit_htonl: "bit (htonl w) n \<longleftrightarrow> n < 32 \<and>
    bit w (if n < 8 then n + 24 else if n < 16 then n + 8 else if n < 24 then n - 8 else n - 24)"
  unfolding htonl_def bit_or_iff bit_and_iff bit_mask_16_24 bit_mask_8_16
  by (auto simp: bit_simps add.commute dest: bit_imp_le_length)

lemma htons_htons [simp]: "htons (htons w) = w"
  by (rule bit_word_eqI) (auto simp: bit_htons)

lemma htonl_htonl [simp]: "htonl (htonl w) = w"
  by (rule bit_word_eqI) (auto simp: bit_htonl)

lemma bit_htobe64: "bit (htobe64 w) n \<longleftrightarrow> n < 64 \<and>
    (if n < 32 then bit (htonl (ucast (drop_bit 32 w))) n else bit (htonl (ucast w)) (n - 32))"
  by (auto simp: htobe64_def bit_simps bit_htonl)

lemma ucast_htobe64 [simp]:
  "ucast (htobe64 w) = htonl (ucast (drop_bit 32 w))" "ucast (drop_bit 32 (htobe64 w)) = htonl (ucast w)"
  by (rule bit_word_eqI; simp add: bit_simps bit_htobe64)+

lemma htobe64_htobe64 [simp]: "htobe64 (htobe64 w) = w"
  by (rule bit_word_eqI) (auto simp: bit_htobe64 bit_simps)

lemma mem32_swap: "mem32 (htonl w) = rev (mem32 w)"
  by (simp add: mem32_def byte_at_def bit_eq_iff bit_simps bit_htonl add.commute)

section \<open>Addresses\<close>

record sockaddr_in =
  sin_family :: "16 word"
  sin_port :: "16 word"
  sin_addr :: "32 word"

definition AF_INET :: "16 word" where "AF_INET = 2"
definition INET_ADDRSTRLEN :: nat where "INET_ADDRSTRLEN = 16"

text \<open>An address after \<^verbatim>\<open>bzero\<close>.\<close>

definition sockaddr_zero :: sockaddr_in where
  "sockaddr_zero = \<lparr>sin_family = 0, sin_port = 0, sin_addr = 0\<rparr>"

fun join_with :: "char \<Rightarrow> string list \<Rightarrow> string" where
  "join_with c [] = []"
| "join_with c [s] = s"
| "join_with c (s # ss) = s @ c # join_with c ss"

fun split_on :: "char \<Rightarrow> string \<Rightarrow> string list" where
  "split_on c [] = [[]]"
| "split_on c (x # xs) = (if x = c then [] # split_on c xs
     else case split_on c xs of [] \<Rightarrow> [[x]] | y # ys \<Rightarrow> (x # y) # ys)"

definition inet_ntop :: "32 word \<Rightarrow> nat \<Rightarrow> string option" where
  "inet_ntop a n =
     (let t = join_with CHR ''.'' (map (\<lambda>b. show_nat (unat b)) (mem32 a)) in
      if length t < n then Some t else None)"

definition read_octet :: "string \<Rightarrow> byte option" where
  "read_octet s = (case read_nat s of None \<Rightarrow> None
     | Some n \<Rightarrow> if 255 < n \<or> (hd s = CHR ''0'' \<and> tl s \<noteq> []) then None else Some (word_of_nat n))"

definition in_addr_of :: "byte \<Rightarrow> byte \<Rightarrow> byte \<Rightarrow> byte \<Rightarrow> 32 word" where
  "in_addr_of a b c d = ucast a OR push_bit 8 (ucast b) OR push_bit 16 (ucast c) OR push_bit 24 (ucast d)"

definition inet_pton :: "string \<Rightarrow> 32 word option" where
  "inet_pton s = (case map read_octet (split_on CHR ''.'' s) of
       [Some a, Some b, Some c, Some d] \<Rightarrow> Some (in_addr_of a b c d)
     | _ \<Rightarrow> None)"

definition toHostPort :: "nat \<Rightarrow> sockaddr_in \<Rightarrow> string" where
  "toHostPort n addr =
     (let host = (case inet_ntop (sin_addr addr) INET_ADDRSTRLEN of None \<Rightarrow> ''INVALID'' | Some h \<Rightarrow> h);
          port = networkToHost16 (ucast (sin_port addr))
      in snprintf n (host @ '':'' @ show_nat (unat port)))"

definition fromHostPort :: "string \<Rightarrow> 16 word \<Rightarrow> sockaddr_in \<Rightarrow> sockaddr_in" where
  "fromHostPort ip port addr =
     (let addr = addr\<lparr>sin_family := AF_INET, sin_port := hostToNetwork16 port\<rparr> in
      case inet_pton ip of None \<Rightarrow> addr | Some a \<Rightarrow> addr\<lparr>sin_addr := a\<rparr>)"

definition kInaddrAny :: "32 word" where "kInaddrAny = 0"

definition InetAddress_port :: "16 word \<Rightarrow> sockaddr_in" where
  "InetAddress_port port = sockaddr_zero\<lparr>sin_family := AF_INET,
     sin_addr := hostToNetwork32 kInaddrAny, sin_port := hostToNetwork16 port\<rparr>"

definition InetAddress_ip :: "string \<Rightarrow> 16 word \<Rightarrow> sockaddr_in" where
  "InetAddress_ip ip port = fromHostPort ip port sockaddr_zero"

definition InetAddress_toHostPort :: "sockaddr_in \<Rightarrow> string" where
  "InetAddress_toHostPort addr = toHostPort 32 addr"

section \<open>Socket calls\<close>

text \<open>
  \<open>r\<close> is what the system call returns and \<open>errno\<close> the error number it sets; an address the kernel
  reports is an option, \<^term>\<open>None\<close> when the call fails.
\<close>

definition createNonBlockingOrDie :: "int \<Rightarrow> fd result" where
  "createNonBlockingOrDie r = (if r < 0 then Inl FatalLog else Inr r)"

definition bindOrDie :: "int \<Rightarrow> unit result" where
  "bindOrDie r = (if r < 0 then Inl FatalLog else Inr ())"

definition listenOrDie :: "int \<Rightarrow> unit result" where
  "listenOrDie r = (if r < 0 then Inl FatalLog else Inr ())"

text \<open>\<^verbatim>\<open>EAGAIN\<close>, \<^verbatim>\<open>ECONNABORTED\<close>, \<^verbatim>\<open>EINTR\<close>, \<^verbatim>\<open>EPROTO\<close>, \<^verbatim>\<open>EPERM\<close> and \<^verbatim>\<open>EMFILE\<close>.\<close>

definition accept_errnos :: "int list" where
  "accept_errnos = [11, 103, 4, 71, 1, 24]"

definition sockets_accept :: "int \<Rightarrow> int \<Rightarrow> fd result" where
  "sockets_accept connfd savedErrno =
     (if connfd < 0 then if savedErrno \<in> set accept_errnos then Inr connfd else Inl FatalLog
      else Inr connfd)"

definition getLocalAddr :: "sockaddr_in option \<Rightarrow> sockaddr_in" where
  "getLocalAddr r = (case r of None \<Rightarrow> sockaddr_zero | Some a \<Rightarrow> a)"

definition getPeerAddr :: "sockaddr_in option \<Rightarrow> sockaddr_in" where
  "getPeerAddr r = (case r of None \<Rightarrow> sockaddr_zero | Some a \<Rightarrow> a)"

definition getSocketError :: "int \<Rightarrow> int \<Rightarrow> int \<Rightarrow> int" where
  "getSocketError r errno optval = (if r < 0 then errno else optval)"

definition isSelfConnect :: "sockaddr_in option \<Rightarrow> sockaddr_in option \<Rightarrow> bool" where
  "isSelfConnect lr pr =
     (let localaddr = getLocalAddr lr; peeraddr = getPeerAddr pr in
      sin_port localaddr = sin_port peeraddr \<and> sin_addr localaddr = sin_addr peeraddr)"

text \<open>\<^verbatim>\<open>Socket::accept\<close>, with the address that the kernel filled in; gives the new value of \<^verbatim>\<open>*peeraddr\<close>.\<close>

definition Socket_accept :: "int \<Rightarrow> int \<Rightarrow> sockaddr_in \<Rightarrow> sockaddr_in \<Rightarrow> (fd \<times> sockaddr_in) result" where
  "Socket_accept r errno addr peeraddr =
     rbind (sockets_accept r errno) (\<lambda>connfd. Inr (connfd, if 0 \<le> connfd then addr else peeraddr))"

text \<open>A failure of \<^verbatim>\<open>connect\<close> or \<^verbatim>\<open>shutdown\<close> is handed on, one of \<^verbatim>\<open>close\<close> is only logged.\<close>

definition sockets_connect :: "int \<Rightarrow> int" where
  "sockets_connect r = r"

definition sockets_shutdownWrite :: "int \<Rightarrow> int" where
  "sockets_shutdownWrite r = (let ret = r in ret)"

text \<open>
  \<^verbatim>\<open>setNonBlockAndCloseOnExec\<close>: the calls of \<^verbatim>\<open>fcntl\<close> that change flags, when the two queries answer \<open>fl\<close> and
  \<open>fdfl\<close> and the first change returns \<open>r\<close>. It is used nowhere.
\<close>

datatype fcntl_call = F_SETFL "32 word" | F_SETFD "32 word"

definition O_NONBLOCK :: "32 word" where "O_NONBLOCK = 0x800"
definition FD_CLOEXEC :: "32 word" where "FD_CLOEXEC = 1"

definition setNonBlockAndCloseOnExec :: "32 word \<Rightarrow> int \<Rightarrow> 32 word \<Rightarrow> fcntl_call list" where
  "setNonBlockAndCloseOnExec fl r fdfl =
     (let flags = fl OR O_NONBLOCK in
      if r < 0 then [F_SETFL flags] else [F_SETFL flags, F_SETFD (fdfl OR FD_CLOEXEC)])"

text \<open>The options: the value that is set, and the result of \<^verbatim>\<open>setsockopt\<close>, which is handed on.\<close>

datatype sockopt = SO_REUSEADDR int | TCP_NODELAY int

definition setReuseAddr :: "bool \<Rightarrow> int \<Rightarrow> sockopt \<times> int" where
  "setReuseAddr on r = (let optval = (if on then 1 else 0); ret = r in (SO_REUSEADDR optval, ret))"

definition setTcpNoDelay :: "bool \<Rightarrow> int \<Rightarrow> sockopt \<times> int" where
  "setTcpNoDelay on r = (let optval = (if on then 1 else 0); ret = r in (TCP_NODELAY optval, ret))"

definition Socket_bindAddress :: "int \<Rightarrow> unit result" where
  "Socket_bindAddress r = bindOrDie r"

definition Socket_listen :: "int \<Rightarrow> unit result" where
  "Socket_listen r = listenOrDie r"

definition Socket_shutdownWrite :: "int \<Rightarrow> int" where
  "Socket_shutdownWrite r = (let ret = sockets_shutdownWrite r in ret)"

section \<open>Lemmas on address texts\<close>

lemma split_on_plain: "c \<notin> set s \<Longrightarrow> split_on c s = [s]"
  by (induction s) auto

lemma split_on_append: "c \<notin> set s \<Longrightarrow> split_on c (s @ c # t) = s # split_on c t"
  by (induction s) auto

lemma show_nat_leading: "hd (show_nat n) = CHR ''0'' \<Longrightarrow> n = 0"
proof (induction n rule: show_nat.induct)
  case (1 n)
  show ?case
  proof (cases "n < 10")
    case True
    then have "digit_val (digit_char n) = digit_val CHR ''0''" using 1(2) by (simp add: show_nat.simps [of n])
    then show ?thesis using True by (simp add: digit_val_def [of "CHR ''0''"])
  next
    case False
    then show ?thesis using 1 by (simp add: show_nat.simps [of n])
  qed
qed

lemma unat_byte: "unat (b :: byte) < 256"
  using unsigned_less [of b, where ?'a = nat] by simp

lemma read_octet_show [simp]: "read_octet (show_nat (unat b)) = Some b"
  using unat_byte [of b] show_nat_leading [of "unat b"]
  by (auto simp: read_octet_def show_nat.simps [of 0] not_less)

lemma length_show_octet: "length (show_nat (unat (b :: byte))) \<le> 3"
  using length_show_nat [of "unat b" 2] unat_byte [of b] by simp

lemma in_addr_of_mem32: "in_addr_of (byte_at 0 a) (byte_at 1 a) (byte_at 2 a) (byte_at 3 a) = a"
proof (rule bit_word_eqI)
  fix n assume "n < LENGTH(32)"
  then consider "n < 8" | "8 \<le> n" "n < 16" | "16 \<le> n" "n < 24" | "24 \<le> n" "n < 32" by fastforce
  then show "bit (in_addr_of (byte_at 0 a) (byte_at 1 a) (byte_at 2 a) (byte_at 3 a)) n = bit a n"
    by cases (auto simp: in_addr_of_def byte_at_def bit_simps)
qed

definition dotted :: "32 word \<Rightarrow> string" where
  "dotted a = join_with CHR ''.'' (map (\<lambda>b. show_nat (unat b)) (mem32 a))"

lemma length_dotted: "length (dotted a) \<le> 15"
  using length_show_octet [of "byte_at 0 a"] length_show_octet [of "byte_at 1 a"]
    length_show_octet [of "byte_at 2 a"] length_show_octet [of "byte_at 3 a"]
  by (simp add: dotted_def mem32_def)

lemma inet_ntop_dotted: "inet_ntop a INET_ADDRSTRLEN = Some (dotted a)"
  using length_dotted [of a] by (simp add: inet_ntop_def dotted_def INET_ADDRSTRLEN_def Let_def)

lemma inet_pton_dotted: "inet_pton (dotted a) = Some a"
  by (simp add: inet_pton_def dotted_def mem32_def split_on_append split_on_plain digit_notin_show
    in_addr_of_mem32 [simplified])

lemma networkToHost16_ucast [simp]: "networkToHost16 (ucast p) = htons p"
proof -
  have "ucast (ucast p :: 64 word) = p" by (rule bit_word_eqI) (simp add: bit_simps)
  then show ?thesis by (simp add: networkToHost16_def)
qed

lemma InetAddress_toHostPort_eq:
  "InetAddress_toHostPort a = dotted (sin_addr a) @ '':'' @ show_nat (unat (htons (sin_port a)))"
proof -
  let ?t = "dotted (sin_addr a) @ '':'' @ show_nat (unat (htons (sin_port a)))"
  have "unat (htons (sin_port a)) < 10 ^ 5"
    using unsigned_less [of "htons (sin_port a)", where ?'a = nat] by simp
  then have "length ?t \<le> 31"
    using length_dotted [of "sin_addr a"] length_show_nat [of "unat (htons (sin_port a))" 4] by simp
  then have "snprintf 32 ?t = ?t" by (simp only: snprintf_def) (simp only: take_all)
  then show ?thesis
    by (simp only: InetAddress_toHostPort_def toHostPort_def inet_ntop_dotted networkToHost16_ucast Let_def option.case)
qed

lemma colon_notin_dotted: "CHR '':'' \<notin> set (dotted a)"
  by (simp add: dotted_def mem32_def digit_notin_show)

text \<open>
  C37. The text of an address determines it: \<^verbatim>\<open>toHostPort\<close> of an \<^verbatim>\<open>AF_INET\<close> address is a host and a port
  separated by a colon, never cut off by the arrays it is printed into, and the constructor of
  \<^verbatim>\<open>InetAddress\<close> gives the same address back for them, in network byte order.
\<close>

theorem host_port_roundtrip:
  assumes "sin_family a = AF_INET"
  shows "\<exists>host port. split_on CHR '':'' (InetAddress_toHostPort a) = [host, port] \<and>
    map_option (\<lambda>n. InetAddress_ip host (word_of_nat n)) (read_nat port) = Some a"
proof (intro exI conjI)
  show "split_on CHR '':'' (InetAddress_toHostPort a) = [dotted (sin_addr a), show_nat (unat (htons (sin_port a)))]"
    by (simp add: InetAddress_toHostPort_eq split_on_append split_on_plain colon_notin_dotted digit_notin_show)
  show "map_option (\<lambda>n. InetAddress_ip (dotted (sin_addr a)) (word_of_nat n))
      (read_nat (show_nat (unat (htons (sin_port a))))) = Some a"
    using assms by (simp add: InetAddress_ip_def fromHostPort_def inet_pton_dotted sockaddr_zero_def hostToNetwork16_def)
qed

theorem host_port_roundtrip_witness:
  "\<exists>host port. split_on CHR '':'' (InetAddress_toHostPort (InetAddress_port 9876)) = [host, port] \<and>
    map_option (\<lambda>n. InetAddress_ip host (word_of_nat n)) (read_nat port) = Some (InetAddress_port 9876)"
  using host_port_roundtrip [of "InetAddress_port 9876"] by (simp add: InetAddress_port_def)

end
