(* ===== verification/Connector.thy ===== *)
theory Connector
  imports EPoller Sockets "HOL-Library.Multiset"
begin

text \<open>
  \<^verbatim>\<open>Connector.h\<close> and \<^verbatim>\<open>Connector.cc\<close>: the state machine of an outgoing connection, in the thread
  of its loop. Its state extends that of the poller, so that the channel of an attempt is really
  registered and taken out again.

  What the kernel answers is an argument: the descriptor of a new socket and the error number of
  \<^verbatim>\<open>connect\<close>, the pending error of a socket, and its two addresses; with a new socket comes the address of
  the channel that is allocated for it. The timers that call \<^verbatim>\<open>startInLoop\<close> again are the numbers in
  \<open>liveTimers\<close>, \<^verbatim>\<open>timerId_\<close> is the last of them, and \<open>resets\<close> counts the queued calls of \<^verbatim>\<open>resetChannel\<close>.
  \<open>created\<close>, \<open>closedSocks\<close> and \<open>handed\<close> record the sockets that were made, closed and given to the
  new-connection callback; \<open>delays\<close> the retry delays since the connector was created or restarted.
\<close>

section \<open>State\<close>

datatype states = Disconnected | Connecting | Connected

record ('cb, 'k) connector = "('cb, 'k) poller" +
  connect_flag :: bool
  cn_state :: states
  cn_channel :: "addr option"
  hasNewConnectionCallback :: bool
  onWrite :: 'cb
  onError :: 'cb
  retryDelayMs :: int
  timerId :: "nat option"
  nextTimer :: nat
  liveTimers :: "nat list"
  resets :: nat
  created :: "fd list"
  closedSocks :: "fd list"
  handed :: "fd list"
  delays :: "int list"

text \<open>A new socket: the address of its channel, its descriptor, and the error number of \<^verbatim>\<open>connect\<close>.\<close>

type_synonym new_socket = "addr \<times> fd \<times> int"

definition kMaxRetryDelayMs :: int where "kMaxRetryDelayMs = 30 * 1000"
definition kInitRetryDelayMs :: int where "kInitRetryDelayMs = 500"

text \<open>Error numbers of Linux.\<close>

definition in_progress_errnos :: "int list" where
  "in_progress_errnos = [0, 115, 4, 106]"
definition retry_errnos :: "int list" where
  "retry_errnos = [11, 98, 99, 111, 101]"

text \<open>The constructor; \<open>w\<close> and \<open>e\<close> are the callbacks bound to \<^verbatim>\<open>handleWrite\<close> and \<^verbatim>\<open>handleError\<close>.\<close>

definition Connector_new :: "('cb, 'k) poller \<Rightarrow> 'cb \<Rightarrow> 'cb \<Rightarrow> ('cb, 'k) connector" where
  "Connector_new pl w e = \<lparr>chan = chan pl, channels_ep = channels_ep pl, events_size = events_size pl,
     kernel = kernel pl, ownerLoop = ownerLoop pl, connect_flag = False, cn_state = Disconnected, cn_channel = None,
     hasNewConnectionCallback = False, onWrite = w, onError = e, retryDelayMs = kInitRetryDelayMs, timerId = None,
     nextTimer = 0, liveTimers = [], resets = 0, created = [], closedSocks = [], handed = [], delays = []\<rparr>"

section \<open>Operations\<close>

definition setNewConnectionCallback :: "('cb, 'k) connector \<Rightarrow> ('cb, 'k) connector" where
  "setNewConnectionCallback s = s\<lparr>hasNewConnectionCallback := True\<rparr>"

definition close_sock :: "fd \<Rightarrow> ('cb, 'k) connector \<Rightarrow> ('cb, 'k) connector" where
  "close_sock d s = s\<lparr>closedSocks := closedSocks s @ [d]\<rparr>"

text \<open>\<^verbatim>\<open>loop_->cancel(timerId_)\<close>.\<close>

definition cancel_timer :: "('cb, 'k) connector \<Rightarrow> ('cb, 'k) connector" where
  "cancel_timer s = (case timerId s of None \<Rightarrow> s | Some i \<Rightarrow> s\<lparr>liveTimers := removeAll i (liveTimers s)\<rparr>)"

definition Connector_delete :: "('cb, 'k) connector \<Rightarrow> ('cb, 'k) connector result" where
  "Connector_delete s =
     (let s = cancel_timer s in rbind (check (cn_channel s = None) AssertFailure) (\<lambda>_. Inr s))"

definition retry :: "fd \<Rightarrow> ('cb, 'k) connector \<Rightarrow> ('cb, 'k) connector" where
  "retry sockfd s =
     (let s = (close_sock sockfd s)\<lparr>cn_state := Disconnected\<rparr> in
      if connect_flag s then
        s\<lparr>timerId := Some (nextTimer s), nextTimer := Suc (nextTimer s),
          liveTimers := liveTimers s @ [nextTimer s], delays := delays s @ [retryDelayMs s],
          retryDelayMs := min (retryDelayMs s * 2) kMaxRetryDelayMs\<rparr>
      else s)"

definition connecting :: "'k epoll_sys \<Rightarrow> addr \<Rightarrow> fd \<Rightarrow> ('cb, 'k) connector \<Rightarrow> ('cb, 'k) connector result" where
  "connecting sys p sockfd s =
     (let s = s\<lparr>cn_state := Connecting\<rparr> in
      rbind (check (cn_channel s = None) AssertFailure) (\<lambda>_.
      let c = setErrorCallback (onError s) (setWriteCallback (onWrite s) (Channel_new (ownerLoop s) sockfd));
          s = s\<lparr>chan := (chan s)(p \<mapsto> c), cn_channel := Some p\<rparr>
      in Channel_request sys True EnableWriting p s))"

definition cn_connect :: "'k epoll_sys \<Rightarrow> new_socket \<Rightarrow> ('cb, 'k) connector \<Rightarrow> ('cb, 'k) connector result" where
  "cn_connect sys ns s = (case ns of (p, r, savedErrno) \<Rightarrow>
     rbind (createNonBlockingOrDie r) (\<lambda>sockfd.
     let s = s\<lparr>created := created s @ [sockfd]\<rparr> in
     if savedErrno \<in> set in_progress_errnos then connecting sys p sockfd s
     else if savedErrno \<in> set retry_errnos then Inr (retry sockfd s)
     else Inr (close_sock sockfd s)))"

definition startInLoop :: "'k epoll_sys \<Rightarrow> bool \<Rightarrow> new_socket \<Rightarrow> ('cb, 'k) connector \<Rightarrow> ('cb, 'k) connector result" where
  "startInLoop sys inLoop ns s =
     rbind (check inLoop FatalLog) (\<lambda>_.
     rbind (check (cn_state s = Disconnected) AssertFailure) (\<lambda>_.
       if connect_flag s then cn_connect sys ns s else Inr s))"

text \<open>\<^verbatim>\<open>start\<close> in the thread of the loop, where \<^verbatim>\<open>runInLoop\<close> runs its argument at once.\<close>

definition start :: "'k epoll_sys \<Rightarrow> new_socket \<Rightarrow> ('cb, 'k) connector \<Rightarrow> ('cb, 'k) connector result" where
  "start sys ns s = startInLoop sys True ns (s\<lparr>connect_flag := True\<rparr>)"

definition cn_restart :: "'k epoll_sys \<Rightarrow> bool \<Rightarrow> new_socket \<Rightarrow> ('cb, 'k) connector \<Rightarrow> ('cb, 'k) connector result" where
  "cn_restart sys inLoop ns s =
     rbind (check inLoop FatalLog) (\<lambda>_.
       startInLoop sys inLoop ns
         (s\<lparr>cn_state := Disconnected, retryDelayMs := kInitRetryDelayMs, delays := [], connect_flag := True\<rparr>))"

definition stop :: "('cb, 'k) connector \<Rightarrow> ('cb, 'k) connector" where
  "stop s = cancel_timer (s\<lparr>connect_flag := False\<rparr>)"

text \<open>\<^verbatim>\<open>channel_->...\<close> with a null pointer is a fault.\<close>

definition removeAndResetChannel :: "'k epoll_sys \<Rightarrow> ('cb, 'k) connector \<Rightarrow> (fd \<times> ('cb, 'k) connector) result" where
  "removeAndResetChannel sys s = (case cn_channel s of
       None \<Rightarrow> Inl DanglingPointer
     | Some p \<Rightarrow>
         rbind (Channel_request sys True DisableAll p s) (\<lambda>s.
         rbind (EventLoop_removeChannel sys True p s) (\<lambda>s.
         rbind (load p s) (\<lambda>c. Inr (ch_fd c, s\<lparr>resets := Suc (resets s)\<rparr>)))))"

text \<open>\<^verbatim>\<open>channel_.reset()\<close>, run as a functor.\<close>

definition resetChannel :: "('cb, 'k) connector \<Rightarrow> ('cb, 'k) connector result" where
  "resetChannel s =
     (let s = s\<lparr>resets := resets s - 1\<rparr> in
      case cn_channel s of None \<Rightarrow> Inr s
      | Some p \<Rightarrow> rbind (load p s) (\<lambda>c. rbind (Channel_delete c) (\<lambda>_.
          Inr (s\<lparr>chan := (chan s)(p := None), cn_channel := None\<rparr>))))"

text \<open>\<open>err\<close> is what \<^verbatim>\<open>getSocketError\<close> gives, \<open>la\<close> and \<open>pa\<close> the answers to the queries of \<^verbatim>\<open>isSelfConnect\<close>.\<close>

definition cn_handleWrite :: "'k epoll_sys \<Rightarrow> int \<Rightarrow> sockaddr_in option \<Rightarrow> sockaddr_in option \<Rightarrow>
    ('cb, 'k) connector \<Rightarrow> ('cb, 'k) connector result" where
  "cn_handleWrite sys err la pa s =
     (if cn_state s = Connecting then
        rbind (removeAndResetChannel sys s) (\<lambda>(sockfd, s).
        if err \<noteq> 0 then Inr (retry sockfd s)
        else if isSelfConnect la pa then Inr (retry sockfd s)
        else let s = s\<lparr>cn_state := Connected\<rparr> in
          Inr (if connect_flag s
               then if hasNewConnectionCallback s then s\<lparr>handed := handed s @ [sockfd]\<rparr> else s
               else close_sock sockfd s))
      else Inr s)"

definition cn_handleError :: "'k epoll_sys \<Rightarrow> ('cb, 'k) connector \<Rightarrow> ('cb, 'k) connector result" where
  "cn_handleError sys s =
     rbind (check (cn_state s = Connecting) AssertFailure) (\<lambda>_.
     rbind (removeAndResetChannel sys s) (\<lambda>(sockfd, s). Inr (retry sockfd s)))"

section \<open>Sequences of events\<close>

text \<open>
  The calls of the user and of the loop. The poller reports errors only for a channel that is
  registered, the loop only runs timers that are alive and functors that are queued: other
  events do nothing. Room to write may still be reported after the error callback of the same
  dispatch has taken the channel out.
\<close>

definition watching :: "('cb, 'k) connector \<Rightarrow> bool" where
  "watching s \<longleftrightarrow> (case cn_channel s of None \<Rightarrow> False | Some p \<Rightarrow>
     (case chan s p of None \<Rightarrow> False | Some c \<Rightarrow> ch_index c \<noteq> kNew))"

datatype cn_op =
    Start new_socket
  | TimerFires nat new_socket
  | Restart new_socket
  | Stop
  | Writable int "sockaddr_in option" "sockaddr_in option"
  | AttemptError
  | RunReset

fun cn_step :: "'k epoll_sys \<Rightarrow> cn_op \<Rightarrow> ('cb, 'k) connector \<Rightarrow> ('cb, 'k) connector result" where
  "cn_step sys (Start ns) s = start sys ns s"
| "cn_step sys (TimerFires i ns) s =
     (if i \<in> set (liveTimers s) then startInLoop sys True ns (s\<lparr>liveTimers := removeAll i (liveTimers s)\<rparr>) else Inr s)"
| "cn_step sys (Restart ns) s = cn_restart sys True ns s"
| "cn_step sys Stop s = Inr (stop s)"
| "cn_step sys (Writable err la pa) s = cn_handleWrite sys err la pa s"
| "cn_step sys AttemptError s = (if watching s then cn_handleError sys s else Inr s)"
| "cn_step sys RunReset s = (if 0 < resets s then resetChannel s else Inr s)"

text \<open>A new channel has a new address, and a new descriptor is not registered.\<close>

fun cn_ok :: "cn_op \<Rightarrow> ('cb, 'k) connector \<Rightarrow> bool" where
  "cn_ok (Start (p, d, e)) s = (chan s p = None \<and> channels_ep s d = None)"
| "cn_ok (TimerFires i (p, d, e)) s = (chan s p = None \<and> channels_ep s d = None)"
| "cn_ok (Restart (p, d, e)) s = (chan s p = None \<and> channels_ep s d = None)"
| "cn_ok _ s = True"

section \<open>Invariant\<close>

text \<open>The poller is in sync and the channel, if there is one, is alive and belongs to this loop.\<close>

definition reg_ok :: "'k epoll_sys \<Rightarrow> ('cb, 'k) connector \<Rightarrow> bool" where
  "reg_ok sys s \<longleftrightarrow> ep_inv sys s \<and> (\<forall>p. cn_channel s = Some p \<longrightarrow>
     (\<exists>c. chan s p = Some c \<and> ch_loop c = ownerLoop s \<and> \<not> eventHandling c))"

text \<open>The socket of the attempt in progress.\<close>

definition attempt :: "('cb, 'k) connector \<Rightarrow> fd list" where
  "attempt s = (case cn_channel s of None \<Rightarrow> [] | Some p \<Rightarrow>
     (case chan s p of None \<Rightarrow> [] | Some c \<Rightarrow> if ch_index c \<noteq> kNew then [ch_fd c] else []))"

text \<open>
  A socket is at one place: the attempt in progress, closed, or handed over; \<open>X\<close> are the sockets that
  the running operation holds. The connector has a channel registered while it is connecting.
\<close>

definition cn_owns :: "fd multiset \<Rightarrow> ('cb, 'k) connector \<Rightarrow> bool" where
  "cn_owns X s \<longleftrightarrow> hasNewConnectionCallback s \<and>
     mset (created s) = mset (closedSocks s) + mset (handed s) + mset (attempt s) + X \<and>
     (resets s = 0 \<or> resets s = 1 \<and> cn_channel s \<noteq> None \<and> \<not> watching s) \<and>
     (cn_state s = Connecting \<longrightarrow> watching s) \<and>
     retryDelayMs s = min (500 * 2 ^ length (delays s)) 30000 \<and>
     delays s = map (\<lambda>i. min (500 * 2 ^ i) 30000) [0..<length (delays s)]"

definition cn_inv :: "'k epoll_sys \<Rightarrow> ('cb, 'k) connector \<Rightarrow> bool" where
  "cn_inv sys s \<longleftrightarrow> reg_ok sys s \<and> cn_owns {#} s"

lemma ep_inv_fields:
  fixes s :: "('cb, 'k, 'x) poller_scheme" and s' :: "('cb, 'k, 'y) poller_scheme"
  assumes "chan s' = chan s" "channels_ep s' = channels_ep s" "kernel s' = kernel s"
  shows "ep_inv sys s' = ep_inv sys s"
proof -
  have "interest_of s' = interest_of s" by (rule ext) (simp only: interest_of_def assms)
  then show ?thesis by (simp add: ep_inv_def assms)
qed

lemma cn_inv_new:
  "ep_inv sys pl \<Longrightarrow> cn_inv sys (setNewConnectionCallback (Connector_new pl w e))"
  using ep_inv_fields [of "setNewConnectionCallback (Connector_new pl w e)" pl sys]
  by (simp add: cn_inv_def reg_ok_def cn_owns_def setNewConnectionCallback_def Connector_new_def attempt_def
      watching_def kInitRetryDelayMs_def)

text \<open>The bookkeeping of the connector does not touch the registration.\<close>

lemma reg_ok_frame [simp]:
  "reg_ok sys (s\<lparr>cn_state := st\<rparr>) = reg_ok sys s" "reg_ok sys (s\<lparr>connect_flag := b\<rparr>) = reg_ok sys s"
  "reg_ok sys (s\<lparr>liveTimers := ts\<rparr>) = reg_ok sys s" "reg_ok sys (s\<lparr>created := ds\<rparr>) = reg_ok sys s"
  "reg_ok sys (s\<lparr>closedSocks := ds\<rparr>) = reg_ok sys s" "reg_ok sys (s\<lparr>handed := ds\<rparr>) = reg_ok sys s"
  "reg_ok sys (s\<lparr>timerId := i\<rparr>) = reg_ok sys s" "reg_ok sys (s\<lparr>nextTimer := n\<rparr>) = reg_ok sys s"
  "reg_ok sys (s\<lparr>delays := xs\<rparr>) = reg_ok sys s" "reg_ok sys (s\<lparr>retryDelayMs := x\<rparr>) = reg_ok sys s"
  "reg_ok sys (s\<lparr>resets := n\<rparr>) = reg_ok sys s"
  by (simp_all add: reg_ok_def ep_inv_def interest_of_def fun_eq_iff cong: option.case_cong)

lemma watching_frame [simp]:
  "watching (s\<lparr>cn_state := st\<rparr>) = watching s" "watching (s\<lparr>connect_flag := b\<rparr>) = watching s"
  "watching (s\<lparr>liveTimers := ts\<rparr>) = watching s" "watching (s\<lparr>created := ds\<rparr>) = watching s"
  "watching (s\<lparr>closedSocks := ds\<rparr>) = watching s" "watching (s\<lparr>handed := ds\<rparr>) = watching s"
  "watching (s\<lparr>timerId := i\<rparr>) = watching s" "watching (s\<lparr>nextTimer := n\<rparr>) = watching s"
  "watching (s\<lparr>delays := xs\<rparr>) = watching s" "watching (s\<lparr>retryDelayMs := x\<rparr>) = watching s"
  "watching (s\<lparr>resets := n\<rparr>) = watching s"
  by (simp_all add: watching_def cong: option.case_cong)

lemma attempt_frame [simp]:
  "attempt (s\<lparr>cn_state := st\<rparr>) = attempt s" "attempt (s\<lparr>connect_flag := b\<rparr>) = attempt s"
  "attempt (s\<lparr>liveTimers := ts\<rparr>) = attempt s" "attempt (s\<lparr>created := ds\<rparr>) = attempt s"
  "attempt (s\<lparr>closedSocks := ds\<rparr>) = attempt s" "attempt (s\<lparr>handed := ds\<rparr>) = attempt s"
  "attempt (s\<lparr>timerId := i\<rparr>) = attempt s" "attempt (s\<lparr>nextTimer := n\<rparr>) = attempt s"
  "attempt (s\<lparr>delays := xs\<rparr>) = attempt s" "attempt (s\<lparr>retryDelayMs := x\<rparr>) = attempt s"
  "attempt (s\<lparr>resets := n\<rparr>) = attempt s"
  by (simp_all add: attempt_def cong: option.case_cong)

lemma attempt_unwatched: "\<not> watching s \<Longrightarrow> attempt s = []"
  by (auto simp: attempt_def watching_def split: option.splits)

lemma reg_ok_retry [simp]: "reg_ok sys (retry d s) = reg_ok sys s"
  by (simp add: retry_def close_sock_def Let_def)

section \<open>The channel\<close>

lemma connecting_ok:
  assumes sys: "epoll_ctl_ok sys" and reg: "reg_ok sys s" and none: "cn_channel s = None"
    and fresh: "chan s p = None" "channels_ep s d = None"
  obtains s' where "connecting sys p d s = Inr s'" "reg_ok sys s'" "watching s'" "attempt s' = [d]"
    "\<exists>ch ce k. s' = s\<lparr>cn_state := Connecting, cn_channel := Some p, chan := ch, channels_ep := ce, kernel := k\<rparr>"
proof -
  let ?c = "setErrorCallback (onError s) (setWriteCallback (onWrite s) (Channel_new (ownerLoop s) d))"
  let ?s = "s\<lparr>cn_state := Connecting, chan := (chan s)(p \<mapsto> ?c), cn_channel := Some p\<rparr>"
  have c: "ch_fd ?c = d" "ch_loop ?c = ownerLoop s" "ch_index ?c = kNew" "\<not> eventHandling ?c"
    by (simp_all add: setErrorCallback_def setWriteCallback_def Channel_new_def kNew_def)
  have "ep_inv sys (s\<lparr>chan := (chan s)(p \<mapsto> ?c)\<rparr>)"
    using reg fresh(1) c(3) by (intro ep_inv_store) (auto simp: reg_ok_def)
  then have inv: "ep_inv sys ?s" by (subst ep_inv_fields [of _ "s\<lparr>chan := (chan s)(p \<mapsto> ?c)\<rparr>"]) simp_all
  obtain k where k: "Channel_request sys True EnableWriting p ?s = Inr (?s\<lparr>chan := (chan ?s)(p \<mapsto> after_request EnableWriting ?c),
      channels_ep := (channels_ep ?s)(ch_fd ?c \<mapsto> p), kernel := k\<rparr>)"
    "ep_inv sys (?s\<lparr>chan := (chan ?s)(p \<mapsto> after_request EnableWriting ?c),
      channels_ep := (channels_ep ?s)(ch_fd ?c \<mapsto> p), kernel := k\<rparr>)"
    by (rule Channel_request_ok [OF sys inv, of p ?c EnableWriting]) (use c fresh(2) in simp_all)
  let ?r = "?s\<lparr>chan := (chan ?s)(p \<mapsto> after_request EnableWriting ?c),
      channels_ep := (channels_ep ?s)(ch_fd ?c \<mapsto> p), kernel := k\<rparr>"
  have a: "ch_fd (after_request EnableWriting ?c) = d" "ch_loop (after_request EnableWriting ?c) = ownerLoop s"
    "ch_index (after_request EnableWriting ?c) = kAdded" "\<not> eventHandling (after_request EnableWriting ?c)"
    using c by (simp_all add: after_request_def set_index_def Let_def)
  show ?thesis
  proof (rule that [of ?r])
    show "connecting sys p d s = Inr ?r" using k(1) none by (simp add: connecting_def Let_def)
    show "reg_ok sys ?r" using k(2) a by (simp add: reg_ok_def)
    show "watching ?r" "attempt ?r = [d]" using a by (simp_all add: watching_def attempt_def)
  qed auto
qed

lemma removeAndResetChannel_ok:
  assumes sys: "epoll_ctl_ok sys" and reg: "reg_ok sys s" and w: "watching s"
  obtains d s' where "removeAndResetChannel sys s = Inr (d, s')" "attempt s = [d]" "reg_ok sys s'" "\<not> watching s'"
    "channels_ep s' d = None" "\<exists>ch ce k. s' = s\<lparr>chan := ch, channels_ep := ce, kernel := k, resets := Suc (resets s)\<rparr>"
proof -
  obtain p c where p: "cn_channel s = Some p" "chan s p = Some c" "ch_index c \<noteq> kNew"
    using w by (auto simp: watching_def split: option.splits)
  have inv: "ep_inv sys s" and own: "ch_loop c = ownerLoop s" "\<not> eventHandling c"
    using reg p by (auto simp: reg_ok_def)
  let ?c = "after_request DisableAll c"
  obtain k where k: "Channel_request sys True DisableAll p s = Inr (s\<lparr>chan := (chan s)(p \<mapsto> ?c),
      channels_ep := (channels_ep s)(ch_fd c \<mapsto> p), kernel := k\<rparr>)"
    "ep_inv sys (s\<lparr>chan := (chan s)(p \<mapsto> ?c), channels_ep := (channels_ep s)(ch_fd c \<mapsto> p), kernel := k\<rparr>)"
    by (rule Channel_request_ok [OF sys inv p(2) own(1), of DisableAll]) (use p(3) in auto)
  let ?s = "s\<lparr>chan := (chan s)(p \<mapsto> ?c), channels_ep := (channels_ep s)(ch_fd c \<mapsto> p), kernel := k\<rparr>"
  have a: "ch_fd ?c = ch_fd c" "ch_loop ?c = ownerLoop s" "ch_index ?c \<noteq> kNew" "isNoneEvent ?c" "\<not> eventHandling ?c"
    using own by (simp_all add: after_request_def set_index_def isNoneEvent_def requested.simps Let_def)
  have c': "chan ?s p = Some ?c" "ch_loop ?c = ownerLoop ?s" using a by simp_all
  obtain k' where k': "EventLoop_removeChannel sys True p ?s = Inr (?s\<lparr>chan := (chan ?s)(p \<mapsto> set_index kNew ?c),
      channels_ep := (channels_ep ?s)(ch_fd ?c := None), kernel := k'\<rparr>)"
    "ep_inv sys (?s\<lparr>chan := (chan ?s)(p \<mapsto> set_index kNew ?c),
      channels_ep := (channels_ep ?s)(ch_fd ?c := None), kernel := k'\<rparr>)"
    by (rule EventLoop_removeChannel_ok [OF sys k(2) c' a(3,4)])
  let ?r = "?s\<lparr>chan := (chan ?s)(p \<mapsto> set_index kNew ?c), channels_ep := (channels_ep ?s)(ch_fd ?c := None), kernel := k'\<rparr>"
  show ?thesis
  proof (rule that [of "ch_fd c" "?r\<lparr>resets := Suc (resets s)\<rparr>"])
    show "removeAndResetChannel sys s = Inr (ch_fd c, ?r\<lparr>resets := Suc (resets s)\<rparr>)"
      using k(1) k'(1) p(1) a(1) by (simp add: removeAndResetChannel_def load_def set_index_def)
    show "attempt s = [ch_fd c]" using p by (simp add: attempt_def)
    have "reg_ok sys ?r" using k'(2) p(1) a by (simp add: reg_ok_def set_index_def)
    then show "reg_ok sys (?r\<lparr>resets := Suc (resets s)\<rparr>)" by (simp only: reg_ok_frame)
    show "\<not> watching (?r\<lparr>resets := Suc (resets s)\<rparr>)" using p(1) by (simp add: watching_def set_index_def)
    show "channels_ep (?r\<lparr>resets := Suc (resets s)\<rparr>) (ch_fd c) = None" using a(1) by simp
  qed auto
qed

lemma resetChannel_ok:
  assumes reg: "reg_ok sys s" and p: "cn_channel s = Some p" and w: "\<not> watching s"
  shows "resetChannel s = Inr (s\<lparr>resets := resets s - 1, chan := (chan s)(p := None), cn_channel := None\<rparr>)"
    "reg_ok sys (s\<lparr>resets := resets s - 1, chan := (chan s)(p := None), cn_channel := None\<rparr>)"
proof -
  obtain c where c: "chan s p = Some c" "\<not> eventHandling c" "ch_index c = kNew"
    using reg p w by (auto simp: reg_ok_def watching_def split: option.splits)
  show "resetChannel s = Inr (s\<lparr>resets := resets s - 1, chan := (chan s)(p := None), cn_channel := None\<rparr>)"
    using c p by (simp add: resetChannel_def load_def Channel_delete_def Let_def)
  have "ep_inv sys (s\<lparr>chan := (chan s)(p := None)\<rparr>)"
    using reg c by (intro ep_inv_store) (auto simp: reg_ok_def)
  then have "ep_inv sys (s\<lparr>resets := resets s - 1, chan := (chan s)(p := None), cn_channel := None\<rparr>)"
    by (subst ep_inv_fields [of _ "s\<lparr>chan := (chan s)(p := None)\<rparr>"]) simp_all
  then show "reg_ok sys (s\<lparr>resets := resets s - 1, chan := (chan s)(p := None), cn_channel := None\<rparr>)"
    by (simp add: reg_ok_def)
qed

section \<open>Steps keep the invariant\<close>

lemma cn_owns_close: "cn_owns (add_mset d X) s \<Longrightarrow> cn_owns X (close_sock d s)"
  by (simp add: cn_owns_def close_sock_def)

lemma cn_owns_idle: "cn_owns X s \<Longrightarrow> st \<noteq> Connecting \<Longrightarrow> cn_owns X (s\<lparr>cn_state := st\<rparr>)"
  by (simp add: cn_owns_def)

lemma next_delay: "min (min (500 * 2 ^ n) 30000 * 2) 30000 = min (500 * 2 ^ Suc n) (30000 :: int)"
  by (simp add: min_def)

lemma cn_owns_schedule:
  assumes "cn_owns X s"
  shows "cn_owns X (s\<lparr>timerId := i, nextTimer := n, liveTimers := ts, delays := delays s @ [retryDelayMs s],
    retryDelayMs := min (retryDelayMs s * 2) kMaxRetryDelayMs\<rparr>)"
proof -
  let ?n = "length (delays s)"
  have d: "retryDelayMs s = min (500 * 2 ^ ?n) 30000" "delays s = map (\<lambda>i. min (500 * 2 ^ i) 30000) [0..<?n]"
    using assms by (simp_all add: cn_owns_def)
  have "min (retryDelayMs s * 2) kMaxRetryDelayMs = min (500 * 2 ^ Suc ?n) 30000"
    unfolding d(1) kMaxRetryDelayMs_def using next_delay [of ?n] by simp
  moreover have "delays s @ [retryDelayMs s] = map (\<lambda>i. min (500 * 2 ^ i) 30000) [0..<Suc ?n]"
    using d by simp
  ultimately show ?thesis using assms by (simp add: cn_owns_def)
qed

lemma cn_owns_retry:
  assumes "cn_owns (add_mset d X) s"
  shows "cn_owns X (retry d s)"
  using cn_owns_schedule [OF cn_owns_idle [OF cn_owns_close [OF assms], of Disconnected]]
    cn_owns_idle [OF cn_owns_close [OF assms], of Disconnected]
  by (simp add: retry_def Let_def close_sock_def)

lemma cn_connect_inv:
  assumes sys: "epoll_ctl_ok sys" and inv: "cn_inv sys s" and fresh: "chan s p = None" "channels_ep s d = None"
    and run: "cn_connect sys (p, d, e) s = Inr s'"
  shows "cn_inv sys s'"
proof -
  let ?s = "s\<lparr>created := created s @ [d]\<rparr>"
  have reg: "reg_ok sys ?s" and own: "cn_owns {#d#} ?s" using inv by (simp_all add: cn_inv_def cn_owns_def)
  show ?thesis
  proof (cases "e \<in> set in_progress_errnos")
    case True
    then have c: "connecting sys p d ?s = Inr s'" using run by (auto simp: cn_connect_def createNonBlockingOrDie_def split: if_splits)
    then have none: "cn_channel ?s = None" by (auto simp: connecting_def Let_def)
    then have idle: "attempt s = []" "resets s = 0" using own by (auto simp: attempt_def cn_owns_def)
    obtain s1 where s1: "connecting sys p d ?s = Inr s1" "reg_ok sys s1" "watching s1" "attempt s1 = [d]"
      "\<exists>ch ce k. s1 = ?s\<lparr>cn_state := Connecting, cn_channel := Some p, chan := ch, channels_ep := ce, kernel := k\<rparr>"
      by (rule connecting_ok [OF sys reg none]) (use fresh in simp_all)
    have "cn_owns {#} s1"
      using own idle s1(3-5) by (auto simp: cn_owns_def)
    then show ?thesis using c s1(1,2) by (simp add: cn_inv_def)
  next
    case False
    then have "s' = retry d ?s \<or> s' = close_sock d ?s"
      using run by (auto simp: cn_connect_def createNonBlockingOrDie_def Let_def split: if_splits)
    then show ?thesis
      using cn_owns_retry [OF own] cn_owns_close [OF own] reg by (auto simp: cn_inv_def) (simp add: close_sock_def)
  qed
qed

lemma startInLoop_inv:
  "epoll_ctl_ok sys \<Longrightarrow> cn_inv sys s \<Longrightarrow> chan s p = None \<Longrightarrow> channels_ep s d = None \<Longrightarrow>
   startInLoop sys b (p, d, e) s = Inr s' \<Longrightarrow> cn_inv sys s'"
  by (auto simp: startInLoop_def intro: cn_connect_inv split: if_splits)

text \<open>Taking the channel out leaves the socket with the operation.\<close>

lemma taken_out:
  assumes sys: "epoll_ctl_ok sys" and inv: "cn_inv sys s" and st: "cn_state s = Connecting"
  obtains d s' where "removeAndResetChannel sys s = Inr (d, s')" "reg_ok sys s'" "channels_ep s' d = None"
    "\<And>st. st \<noteq> Connecting \<Longrightarrow> cn_owns {#d#} (s'\<lparr>cn_state := st\<rparr>)"
    "connect_flag s' = connect_flag s" "handed s' = handed s" "hasNewConnectionCallback s'"
proof -
  have w: "watching s" "resets s = 0" and own: "cn_owns {#} s" and reg: "reg_ok sys s"
    using inv st by (auto simp: cn_inv_def cn_owns_def)
  obtain d s' where d: "removeAndResetChannel sys s = Inr (d, s')" "attempt s = [d]" "reg_ok sys s'" "\<not> watching s'"
    "channels_ep s' d = None" "\<exists>ch ce k. s' = s\<lparr>chan := ch, channels_ep := ce, kernel := k, resets := Suc (resets s)\<rparr>"
    by (rule removeAndResetChannel_ok [OF sys reg w(1)])
  have "cn_channel s \<noteq> None" using w(1) by (auto simp: watching_def split: option.splits)
  then have "cn_owns {#d#} (s'\<lparr>cn_state := st'\<rparr>)" if "st' \<noteq> Connecting" for st'
    using own w(2) d(2,4,6) attempt_unwatched [OF d(4)] that by (auto simp: cn_owns_def)
  moreover have "connect_flag s' = connect_flag s" "handed s' = handed s" "hasNewConnectionCallback s'"
    using d(6) own by (auto simp: cn_owns_def)
  ultimately show ?thesis using that d by blast
qed

lemma retry_state: "retry d s = retry d (s\<lparr>cn_state := st\<rparr>)"
  by (simp add: retry_def close_sock_def Let_def)

lemma taken_out_retry:
  assumes "reg_ok sys s" "cn_owns {#d#} (s\<lparr>cn_state := Disconnected\<rparr>)"
  shows "cn_inv sys (retry d s)"
  using assms(1) cn_owns_retry [OF assms(2)] retry_state [of d s Disconnected] by (simp add: cn_inv_def)

lemma cn_handleWrite_inv:
  assumes sys: "epoll_ctl_ok sys" and inv: "cn_inv sys s" and run: "cn_handleWrite sys err la pa s = Inr s'"
  shows "cn_inv sys s'"
proof (cases "cn_state s = Connecting")
  case True
  obtain d s1 where d: "removeAndResetChannel sys s = Inr (d, s1)" "reg_ok sys s1"
    "\<And>st. st \<noteq> Connecting \<Longrightarrow> cn_owns {#d#} (s1\<lparr>cn_state := st\<rparr>)" "hasNewConnectionCallback s1"
    by (rule taken_out [OF sys inv True]) blast
  have "cn_inv sys (retry d s1)" using taken_out_retry [OF d(2)] d(3) by simp
  moreover have "cn_inv sys (close_sock d (s1\<lparr>cn_state := Connected\<rparr>))"
    using cn_owns_close [OF d(3) [of Connected]] d(2) by (simp add: cn_inv_def close_sock_def)
  moreover have "cn_inv sys (s1\<lparr>cn_state := Connected, handed := handed s1 @ [d]\<rparr>)"
    using d(3) [of Connected] d(2) by (simp add: cn_inv_def cn_owns_def)
  ultimately show ?thesis using run True d(1,4) by (auto simp: cn_handleWrite_def Let_def split: if_splits)
next
  case False
  then show ?thesis using run inv by (simp add: cn_handleWrite_def)
qed

lemma cn_handleError_inv:
  assumes sys: "epoll_ctl_ok sys" and inv: "cn_inv sys s" and run: "cn_handleError sys s = Inr s'"
  shows "cn_inv sys s'"
proof -
  have st: "cn_state s = Connecting" using run by (simp add: cn_handleError_def)
  obtain d s1 where d: "removeAndResetChannel sys s = Inr (d, s1)" "reg_ok sys s1"
    "\<And>st. st \<noteq> Connecting \<Longrightarrow> cn_owns {#d#} (s1\<lparr>cn_state := st\<rparr>)"
    by (rule taken_out [OF sys inv st]) blast
  then show ?thesis using run st taken_out_retry [OF d(2)] d(3) by (auto simp: cn_handleError_def)
qed

lemma cn_inv_frame:
  "cn_inv sys s \<Longrightarrow> cn_inv sys (s\<lparr>connect_flag := b\<rparr>)" "cn_inv sys s \<Longrightarrow> cn_inv sys (s\<lparr>liveTimers := ts\<rparr>)"
  by (simp_all add: cn_inv_def cn_owns_def)

lemma resetChannel_inv:
  assumes inv: "cn_inv sys s" and "0 < resets s" and run: "resetChannel s = Inr s'"
  shows "cn_inv sys s'"
proof -
  obtain p where p: "cn_channel s = Some p" "\<not> watching s" "resets s = 1" using assms(1,2) by (auto simp: cn_inv_def cn_owns_def)
  have reg: "reg_ok sys s" and own: "cn_owns {#} s" using inv by (simp_all add: cn_inv_def)
  let ?s = "s\<lparr>resets := resets s - 1, chan := (chan s)(p := None), cn_channel := None\<rparr>"
  have s': "s' = ?s" using run resetChannel_ok(1) [OF reg p(1,2)] by simp
  have "\<not> watching ?s" by (simp add: watching_def)
  then have "cn_owns {#} ?s"
    using own p attempt_unwatched [OF p(2)] attempt_unwatched [of ?s] by (simp add: cn_owns_def)
  then show ?thesis using resetChannel_ok(2) [OF reg p(1,2)] by (simp add: s' cn_inv_def)
qed

lemma cn_step_inv:
  assumes sys: "epoll_ctl_ok sys" and inv: "cn_inv sys s" and ok: "cn_ok op s" and run: "cn_step sys op s = Inr s'"
  shows "cn_inv sys s'"
proof (cases op)
  case (Start ns)
  obtain p d e where ns: "ns = (p, d, e)" by (cases ns)
  show ?thesis
    using startInLoop_inv [OF sys cn_inv_frame(1) [OF inv, of True], where p = p and d = d and e = e] run ok Start ns by (simp add: start_def)
next
  case (TimerFires i ns)
  obtain p d e where ns: "ns = (p, d, e)" by (cases ns)
  show ?thesis
    using startInLoop_inv [OF sys cn_inv_frame(2) [OF inv], where p = p and d = d and e = e] run ok inv TimerFires ns
    by (simp split: if_splits)
next
  case (Restart ns)
  obtain p d e where ns: "ns = (p, d, e)" by (cases ns)
  have "cn_inv sys (s\<lparr>cn_state := Disconnected, retryDelayMs := kInitRetryDelayMs, delays := [], connect_flag := True\<rparr>)"
    using inv by (simp add: cn_inv_def cn_owns_def kInitRetryDelayMs_def)
  from startInLoop_inv [OF sys this, where p = p and d = d and e = e] run ok Restart ns show ?thesis by (simp add: cn_restart_def)
next
  case Stop
  then have "s' = cancel_timer (s\<lparr>connect_flag := False\<rparr>)" using run by (simp add: stop_def)
  then show ?thesis
    using cn_inv_frame(1) [OF inv] cn_inv_frame(2) by (auto simp: cancel_timer_def split: option.splits)
next
  case (Writable err la pa)
  with run cn_handleWrite_inv [OF sys inv] show ?thesis by simp
next
  case AttemptError
  with run inv cn_handleError_inv [OF sys inv] show ?thesis by (auto split: if_splits)
next
  case RunReset
  then show ?thesis using run inv resetChannel_inv [OF inv] by (auto split: if_splits)
qed

interpretation cn: machine "cn_step sys" cn_ok "\<lambda>s. epoll_ctl_ok sys \<and> cn_inv sys s" for sys
  by unfold_locales (use cn_step_inv in blast)

lemma cn_run_inv:
  assumes "epoll_ctl_ok sys" "cn_inv sys s" "run_ok cn_ok (cn_step sys) ops s" "rfold (cn_step sys) ops s = Inr s'"
  shows "cn_inv sys s'"
  using cn.run_inv [of sys s ops s'] assms by blast

section \<open>Properties\<close>

lemmas cn_eval [model_eval] = setNewConnectionCallback_def Connector_new_def start_def startInLoop_def cn_connect_def connecting_def
  in_progress_errnos_def retry_errnos_def retry_def close_sock_def cn_handleWrite_def cn_handleError_def cn_restart_def
  removeAndResetChannel_def resetChannel_def kInitRetryDelayMs_def kMaxRetryDelayMs_def attempt_def watching_def
  createNonBlockingOrDie_def isSelfConnect_def getLocalAddr_def getPeerAddr_def sockaddr_zero_def Let_def

lemmas poller_eval [model_eval] = EPoller_new_def Channel_new_def setErrorCallback_def setWriteCallback_def Channel_request_def
  change_def load_def EventLoop_updateChannel_def EventLoop_removeChannel_def ep_updateChannel_def ep_removeChannel_def
  ep_update_def set_index_def isNoneEvent_def mask_defs kNew_def kAdded_def kDeleted_def Channel_delete_def requested.simps
  sample_sys_def

text \<open>A connector on an empty poller, and two addresses that differ.\<close>

definition sample_connector :: "(nat, fd \<rightharpoonup> epoll_event) connector" where
  "sample_connector = setNewConnectionCallback (Connector_new (EPoller_new 0 Map.empty) 2 3)"

abbreviation other_addr :: "sockaddr_in option" where
  "other_addr \<equiv> Some \<lparr>sin_family = 2, sin_port = 1, sin_addr = 1\<rparr>"

lemma sample_connector_inv: "cn_inv sample_sys sample_connector"
  unfolding sample_connector_def by (rule cn_inv_new [OF ep_inv_new]) (simp add: sample_sys_def)

text \<open>
  C23. No socket is leaked or closed twice: after any sequence of starting, stopping, restarting,
  failing, connecting and retrying, every socket the connector created was closed once, or handed
  to the new-connection callback once, or is the one attempt in progress; and the poller is in
  sync, with no trace of the other sockets.
\<close>

theorem connector_sockets:
  assumes "epoll_ctl_ok sys" "ep_inv sys pl" "run_ok cn_ok (cn_step sys) ops (setNewConnectionCallback (Connector_new pl w e))"
    and "rfold (cn_step sys) ops (setNewConnectionCallback (Connector_new pl w e)) = Inr s"
  shows "mset (created s) = mset (closedSocks s) + mset (handed s) + mset (attempt s) \<and> length (attempt s) \<le> 1 \<and>
    ep_inv sys s"
proof -
  have "cn_inv sys s" by (rule cn_run_inv [OF assms(1) cn_inv_new [OF assms(2)] assms(3,4)])
  then show ?thesis by (auto simp: cn_inv_def cn_owns_def reg_ok_def) (auto simp: attempt_def split: option.split)
qed

theorem connector_sockets_witness:
  "\<exists>s. rfold (cn_step sample_sys) [Start (8, 3, 115), AttemptError, RunReset, TimerFires 0 (8, 4, 115), Writable 0 None other_addr]
     sample_connector = Inr s \<and>
     closedSocks s = [3] \<and> handed s = [4] \<and> mset (created s) = {#3#} + {#4#} + mset (attempt s)"
proof -
  let ?ops = "[Start (8, 3, 115), AttemptError, RunReset, TimerFires 0 (8, 4, 115), Writable 0 None other_addr]"
  have "yields {} (\<lambda>s. closedSocks s = [3] \<and> handed s = [4]) (rfold (cn_step sample_sys) ?ops sample_connector)"
    by (simp add: sample_connector_def model_eval)
  then obtain s where s: "rfold (cn_step sample_sys) ?ops sample_connector = Inr s" "closedSocks s = [3] \<and> handed s = [4]"
    unfolding yields_returns by blast
  have ok: "run_ok cn_ok (cn_step sample_sys) ?ops sample_connector"
    by (simp add: sample_connector_def model_eval)
  have pl: "ep_inv sample_sys (EPoller_new 0 Map.empty :: (nat, fd \<rightharpoonup> epoll_event) poller)"
    by (rule ep_inv_new) (simp add: sample_sys_def)
  from connector_sockets [OF sample_ctl_ok pl ok [unfolded sample_connector_def] s(1) [unfolded sample_connector_def]] s
  show ?thesis by (intro exI [of _ s]) simp
qed

text \<open>
  C36. Retries back off: since the connector was created or restarted, the delays before the
  retries are 0.5 s, 1 s, 2 s and so on, doubling up to 30 s and staying there.
\<close>

theorem retry_backoff:
  assumes "epoll_ctl_ok sys" "ep_inv sys pl" "run_ok cn_ok (cn_step sys) ops (setNewConnectionCallback (Connector_new pl w e))"
    and "rfold (cn_step sys) ops (setNewConnectionCallback (Connector_new pl w e)) = Inr s" "i < length (delays s)"
  shows "delays s ! i = min (500 * 2 ^ i) 30000"
proof -
  have "delays s = map (\<lambda>i. min (500 * 2 ^ i) 30000) [0..<length (delays s)]"
    using cn_run_inv [OF assms(1) cn_inv_new [OF assms(2)] assms(3,4)] by (simp add: cn_inv_def cn_owns_def)
  then have "delays s ! i = map (\<lambda>i. min (500 * 2 ^ i) 30000) [0..<length (delays s)] ! i" by simp
  with assms(5) show ?thesis by simp
qed

theorem retry_backoff_witness:
  "\<exists>s. rfold (cn_step sample_sys) [Start (8, 3, 111), TimerFires 0 (8, 4, 111)] sample_connector = Inr s \<and>
     delays s ! 1 = 1000"
proof -
  let ?ops = "[Start (8, 3, 111), TimerFires 0 (8, 4, 111)]"
  have "yields {} (\<lambda>s. 1 < length (delays s)) (rfold (cn_step sample_sys) ?ops sample_connector)"
    by (simp add: sample_connector_def model_eval)
  then obtain s where s: "rfold (cn_step sample_sys) ?ops sample_connector = Inr s" "1 < length (delays s)"
    unfolding yields_returns by blast
  have ok: "run_ok cn_ok (cn_step sample_sys) ?ops sample_connector" by (simp add: sample_connector_def model_eval)
  have pl: "ep_inv sample_sys (EPoller_new 0 Map.empty :: (nat, fd \<rightharpoonup> epoll_event) poller)"
    by (rule ep_inv_new) (simp add: sample_sys_def)
  from retry_backoff [OF sample_ctl_ok pl ok [unfolded sample_connector_def] s(1) [unfolded sample_connector_def] s(2)] s
  show ?thesis by (intro exI [of _ s]) simp
qed

text \<open>
  Starting twice is fatal: a connector that waits for its next try (the last attempt was
  refused) and is started again by the user begins a new attempt without cancelling the retry
  timer; when the timer fires during that attempt, the assertion of \<^verbatim>\<open>startInLoop\<close> fails.
\<close>

theorem start_during_retry_aborts:
  assumes "epoll_ctl_ok sys" "cn_inv sys s0" "cn_state s0 = Disconnected" "cn_channel s0 = None"
    and "0 \<le> d1" "0 \<le> d2" "chan s0 p = None" "channels_ep s0 d2 = None"
  shows "\<exists>s. rfold (cn_step sys) [Start (q, d1, 111), Start (p, d2, 115)] s0 = Inr s \<and>
    nextTimer s0 \<in> set (liveTimers s) \<and> cn_step sys (TimerFires (nextTimer s0) ns) s = Inl AssertFailure"
proof -
  let ?s1 = "retry d1 (s0\<lparr>connect_flag := True, created := created s0 @ [d1]\<rparr>)"
  let ?s2 = "?s1\<lparr>connect_flag := True, created := created ?s1 @ [d2]\<rparr>"
  have fields: "cn_channel ?s2 = None" "chan ?s2 = chan s0" "channels_ep ?s2 = channels_ep s0" "cn_state ?s1 = Disconnected"
    "nextTimer s0 \<in> set (liveTimers ?s2)"
    using assms(4) by (simp_all add: retry_def close_sock_def Let_def)
  have s1: "cn_step sys (Start (q, d1, 111)) s0 = Inr ?s1"
    using assms(3,5) by (simp add: start_def startInLoop_def cn_connect_def createNonBlockingOrDie_def
        in_progress_errnos_def retry_errnos_def)
  have reg: "reg_ok sys ?s2" using assms(2) by (simp add: cn_inv_def)
  obtain s where s: "connecting sys p d2 ?s2 = Inr s"
    "\<exists>ch ce k. s = ?s2\<lparr>cn_state := Connecting, cn_channel := Some p, chan := ch, channels_ep := ce, kernel := k\<rparr>"
    by (rule connecting_ok [OF assms(1) reg fields(1), of p d2]) (use fields assms(7,8) in simp_all)
  have "cn_step sys (Start (p, d2, 115)) ?s1 = Inr s"
    using s(1) fields(4) assms(6) by (simp add: start_def startInLoop_def cn_connect_def createNonBlockingOrDie_def
        in_progress_errnos_def)
  moreover have "nextTimer s0 \<in> set (liveTimers s)" "cn_state s = Connecting" using s(2) fields(5) by auto
  ultimately show ?thesis using s1 by (auto simp: startInLoop_def)
qed

theorem start_during_retry_aborts_witness:
  "\<exists>s. rfold (cn_step sample_sys) [Start (8, 3, 111), Start (8, 4, 115)] sample_connector = Inr s \<and>
    cn_step sample_sys (TimerFires (nextTimer sample_connector) (16, 5, 0)) s = Inl AssertFailure"
proof -
  have "cn_state sample_connector = Disconnected" "cn_channel sample_connector = None" "chan sample_connector 8 = None"
    "channels_ep sample_connector 4 = None"
    by (simp_all add: sample_connector_def model_eval)
  from start_during_retry_aborts [OF sample_ctl_ok sample_connector_inv this(1,2) _ _ this(3,4), of 3 8 "(16, 5, 0)"]
  show ?thesis by auto
qed

text \<open>
  A socket that is handed over is free: when the connector gives a socket to the new-connection
  callback, its own channel for it is registered no longer, so that the new connection can
  register one, and the poller is in sync.
\<close>

lemma handed_unregistered:
  assumes "epoll_ctl_ok sys" "cn_inv sys s" "cn_handleWrite sys err la pa s = Inr s'" "handed s' \<noteq> handed s"
  shows "\<exists>d. handed s' = handed s @ [d] \<and> attempt s = [d] \<and> channels_ep s' d = None \<and> ep_inv sys s' \<and>
    interest sys (kernel s') d = None"
proof -
  have st: "cn_state s = Connecting" using assms(3,4) by (auto simp: cn_handleWrite_def split: if_splits)
  then have w: "watching s" and reg: "reg_ok sys s" using assms(2) by (auto simp: cn_inv_def cn_owns_def)
  obtain d s1 where d: "removeAndResetChannel sys s = Inr (d, s1)" "attempt s = [d]" "channels_ep s1 d = None"
    "\<exists>ch ce k. s1 = s\<lparr>chan := ch, channels_ep := ce, kernel := k, resets := Suc (resets s)\<rparr>"
    by (rule removeAndResetChannel_ok [OF assms(1) reg w]) blast
  have same: "handed s1 = handed s" using d(4) by auto
  have "handed (retry d s1) = handed s" by (simp add: retry_def close_sock_def Let_def same)
  then have s': "s' = s1\<lparr>cn_state := Connected, handed := handed s1 @ [d]\<rparr>"
    using assms(3,4) st d(1) same by (auto simp: cn_handleWrite_def close_sock_def Let_def split: if_splits)
  have ep: "ep_inv sys s'" using cn_handleWrite_inv [OF assms(1-3)] by (simp add: cn_inv_def reg_ok_def)
  have "interest sys (kernel s') d = None" unfolding ep_invD(4) [OF ep] using d(3) by (simp add: interest_of_def s')
  with d ep s' same show ?thesis by simp
qed

end
