(* ===== verification/Acceptor.thy ===== *)
theory Acceptor
  imports EPoller Sockets
begin

text \<open>
  \<^verbatim>\<open>Acceptor.h\<close> and \<^verbatim>\<open>Acceptor.cc\<close>: the listening socket and what becomes of the connections it
  accepts. The state extends the poller of the loop. \<open>given\<close> records the descriptors and addresses
  handed to the new-connection callback, \<open>dropped\<close> the descriptors that were closed at once.
\<close>

record ('cb, 'k) acceptor = "('cb, 'k) poller" +
  acceptSocket :: fd
  acceptChannel :: addr
  acc_hasCallback :: bool
  listening :: bool
  given :: "(fd \<times> sockaddr_in) list"
  dropped :: "fd list"

text \<open>
  The constructor, on the poller of its loop, with the address of its channel; \<open>sockfd\<close> and \<open>r\<close> are
  what \<^verbatim>\<open>socket\<close> and \<^verbatim>\<open>bind\<close> return. A failure of \<^verbatim>\<open>SO_REUSEADDR\<close> is ignored.
\<close>

definition Acceptor_new :: "('cb, 'k) poller \<Rightarrow> addr \<Rightarrow> 'cb \<Rightarrow> int \<Rightarrow> int \<Rightarrow> ('cb, 'k) acceptor result" where
  "Acceptor_new pl p onRead sockfd r =
     rbind (createNonBlockingOrDie sockfd) (\<lambda>d.
     rbind (bindOrDie r) (\<lambda>_.
       Inr \<lparr>chan = (chan pl)(p \<mapsto> setReadCallback onRead (Channel_new (ownerLoop pl) d)),
         channels_ep = channels_ep pl, events_size = events_size pl, kernel = kernel pl, ownerLoop = ownerLoop pl,
         acceptSocket = d, acceptChannel = p, acc_hasCallback = False, listening = False, given = [], dropped = []\<rparr>))"

definition acc_setNewConnectionCallback :: "('cb, 'k) acceptor \<Rightarrow> ('cb, 'k) acceptor" where
  "acc_setNewConnectionCallback s = s\<lparr>acc_hasCallback := True\<rparr>"

definition acc_listen :: "'k epoll_sys \<Rightarrow> bool \<Rightarrow> int \<Rightarrow> ('cb, 'k) acceptor \<Rightarrow> ('cb, 'k) acceptor result" where
  "acc_listen sys inLoop r s =
     rbind (check inLoop FatalLog) (\<lambda>_.
     rbind (Channel_request sys inLoop EnableReading (acceptChannel s) (s\<lparr>listening := True\<rparr>)) (\<lambda>s.
     rbind (listenOrDie r) (\<lambda>_. Inr s)))"

text \<open>One answer of \<^verbatim>\<open>accept4\<close>: its result, the error number and the address it filled in.\<close>

type_synonym accepted_socket = "int \<times> int \<times> sockaddr_in"

definition acc_handleRead :: "bool \<Rightarrow> accepted_socket \<Rightarrow> ('cb, 'k) acceptor \<Rightarrow> ('cb, 'k) acceptor result" where
  "acc_handleRead inLoop ans s = (case ans of (r, errno, addr) \<Rightarrow>
     rbind (check inLoop FatalLog) (\<lambda>_.
     rbind (Socket_accept r errno addr (InetAddress_port 0)) (\<lambda>(connfd, peerAddr).
       Inr (if 0 \<le> connfd then
              if acc_hasCallback s then s\<lparr>given := given s @ [(connfd, peerAddr)]\<rparr>
              else s\<lparr>dropped := dropped s @ [connfd]\<rparr>
            else s))))"

section \<open>Properties\<close>

text \<open>Listening registers the socket for reading.\<close>

lemma acc_listen_watches:
  assumes sys: "epoll_ctl_ok sys" and inv: "ep_inv sys s" and c: "chan s (acceptChannel s) = Some c"
    and own: "ch_loop c = ownerLoop s" "ch_index c = kNew" "channels_ep s (ch_fd c) = None" and r: "0 \<le> r"
  shows "\<exists>s'. acc_listen sys True r s = Inr s' \<and> ep_inv sys s' \<and> listening s' \<and>
    interest sys (kernel s') (ch_fd c) = Some (ch_events c OR kReadEvent, acceptChannel s)"
proof -
  let ?s = "s\<lparr>listening := True\<rparr>"
  have inv': "ep_inv sys ?s"
    using inv by (simp add: ep_inv_def interest_of_def fun_eq_iff cong: option.case_cong)
  obtain k where k: "Channel_request sys True EnableReading (acceptChannel s) ?s =
      Inr (?s\<lparr>chan := (chan ?s)(acceptChannel s \<mapsto> after_request EnableReading c),
        channels_ep := (channels_ep ?s)(ch_fd c \<mapsto> acceptChannel s), kernel := k\<rparr>)"
    "ep_inv sys (?s\<lparr>chan := (chan ?s)(acceptChannel s \<mapsto> after_request EnableReading c),
        channels_ep := (channels_ep ?s)(ch_fd c \<mapsto> acceptChannel s), kernel := k\<rparr>)"
    by (rule Channel_request_ok [OF sys inv', of "acceptChannel s" c EnableReading]) (use c own in simp_all)
  let ?r = "?s\<lparr>chan := (chan ?s)(acceptChannel s \<mapsto> after_request EnableReading c),
        channels_ep := (channels_ep ?s)(ch_fd c \<mapsto> acceptChannel s), kernel := k\<rparr>"
  have "interest sys (kernel ?r) (ch_fd c) = Some (ch_events c OR kReadEvent, acceptChannel s)"
    unfolding ep_invD(4) [OF k(2)] using own(2)
    by (simp add: interest_of_def after_request_def set_index_def Let_def requested.simps)
  with k r show ?thesis by (auto simp: acc_listen_def listenOrDie_def)
qed

lemma acc_handleRead_cases:
  "acc_handleRead True (r, e, a) s =
     (if r < 0 \<and> e \<notin> set accept_errnos then Inl FatalLog
      else Inr (if r < 0 then s else if acc_hasCallback s then s\<lparr>given := given s @ [(r, a)]\<rparr>
                else s\<lparr>dropped := dropped s @ [r]\<rparr>))"
  by (simp add: acc_handleRead_def Socket_accept_def sockets_accept_def)

definition fatal_answer :: "accepted_socket \<Rightarrow> bool" where
  "fatal_answer ans = (case ans of (r, e, a) \<Rightarrow> r < 0 \<and> e \<notin> set accept_errnos)"

definition new_sockets :: "accepted_socket list \<Rightarrow> (fd \<times> sockaddr_in) list" where
  "new_sockets anss = map (\<lambda>(r, e, a). (r, a)) (filter (\<lambda>(r, e, a). 0 \<le> r) anss)"

text \<open>
  No accepted connection is lost: over any sequence of answers of the kernel, the acceptor ends
  the process exactly when an answer is an error other than the transient ones; otherwise every
  accepted descriptor goes, in order and with the address of its peer, to the new-connection
  callback, or is closed when none is set, and transient errors change nothing.
\<close>

theorem acceptor_hands_over:
  "rfold (acc_handleRead True) anss s =
     (if \<exists>ans\<in>set anss. fatal_answer ans then Inl FatalLog
      else Inr (if acc_hasCallback s then s\<lparr>given := given s @ new_sockets anss\<rparr>
                else s\<lparr>dropped := dropped s @ map fst (new_sockets anss)\<rparr>))"
proof (induction anss arbitrary: s)
  case Nil
  show ?case by (simp add: new_sockets_def)
next
  case (Cons ans anss)
  obtain r e a where ans: "ans = (r, e, a)" by (cases ans)
  show ?case
    by (cases "fatal_answer ans"; cases "r < 0")
      (use Cons.IH in \<open>auto simp: ans acc_handleRead_cases fatal_answer_def new_sockets_def\<close>)
qed

end
