(* ===== verification/Threads.thy ===== *)
theory Threads
  imports Netfish_Prelude "HOL-Library.Multiset"
begin

text \<open>
  \<^verbatim>\<open>Thread.h\<close>, \<^verbatim>\<open>Thread.cc\<close>, \<^verbatim>\<open>MutexLock.h\<close> and \<^verbatim>\<open>Condition.h\<close>: the objects around pthreads, with what the
  code relies on of a pthread mutex and condition written out. An operation that may block is
  \<^term>\<open>None\<close> while it does.

  \<^verbatim>\<open>lock\<close> and \<^verbatim>\<open>unlock\<close> write \<^verbatim>\<open>holder_\<close> next to the call of pthreads and while the mutex is held, and no
  other thread reads it, so each is one step.
\<close>

section \<open>Threads\<close>

text \<open>\<^verbatim>\<open>tid\<close>: the result and the new value of \<^verbatim>\<open>t_cachedTid\<close>; \<open>gettid\<close> is what the system call answers.\<close>

definition tid :: "int \<Rightarrow> int \<Rightarrow> int \<times> int" where
  "tid gettid t_cachedTid = (let t_cachedTid = (if t_cachedTid = 0 then gettid else t_cachedTid) in
     (t_cachedTid, t_cachedTid))"

record thread_obj =
  th_tid :: int
  th_started :: bool
  th_joined :: bool
  th_pthreadId :: int
  th_detached :: bool

definition Thread_new :: thread_obj where
  "Thread_new = \<lparr>th_tid = 0, th_started = False, th_joined = False, th_pthreadId = 0, th_detached = False\<rparr>"

text \<open>\<open>r\<close> and \<open>i\<close> are the result and the identifier that \<^verbatim>\<open>pthread_create\<close> gives.\<close>

definition Thread_start :: "int \<Rightarrow> int \<Rightarrow> thread_obj \<Rightarrow> thread_obj result" where
  "Thread_start r i th =
     rbind (check (\<not> th_started th) AssertFailure) (\<lambda>_.
       if r \<noteq> 0 then Inl FatalLog else Inr (th\<lparr>th_started := True, th_pthreadId := i\<rparr>))"

definition Thread_join :: "thread_obj \<Rightarrow> thread_obj result" where
  "Thread_join th =
     rbind (check (th_started th) AssertFailure) (\<lambda>_.
     rbind (check (\<not> th_joined th) AssertFailure) (\<lambda>_.
       Inr (if th_pthreadId th \<noteq> 0 then th\<lparr>th_joined := True\<rparr> else th)))"

definition Thread_delete :: "thread_obj \<Rightarrow> thread_obj" where
  "Thread_delete th = (if th_started th \<and> \<not> th_joined th then th\<lparr>th_detached := True\<rparr> else th)"

text \<open>The start of \<^verbatim>\<open>runInThread\<close>: the new thread records its id if the object is still there.\<close>

definition runInThread_record :: "int \<Rightarrow> thread_obj option \<Rightarrow> thread_obj option" where
  "runInThread_record t wkTid = map_option (\<lambda>th. th\<lparr>th_tid := t\<rparr>) wkTid"

text \<open>
  \<^verbatim>\<open>runInThread\<close>: then it runs the function, on the state of the program, and frees \<^verbatim>\<open>ThreadData\<close>.
\<close>

definition runInThread :: "int \<Rightarrow> ('s \<Rightarrow> 's result) \<Rightarrow> thread_obj option \<times> 's \<Rightarrow> (thread_obj option \<times> 's) result" where
  "runInThread t func x = (case x of (wkTid, s) \<Rightarrow>
     let wkTid = runInThread_record t wkTid in rbind (func s) (\<lambda>s. Inr (wkTid, s)))"

section \<open>Mutexes and conditions\<close>

record mutex_lock =
  mx_owner :: "int option"
  holder :: int

definition MutexLock_new :: mutex_lock where
  "MutexLock_new = \<lparr>mx_owner = None, holder = 0\<rparr>"

definition MutexLock_delete :: "mutex_lock \<Rightarrow> unit result" where
  "MutexLock_delete mx = check (holder mx = 0) AssertFailure"

definition isLockedByThisThread :: "int \<Rightarrow> mutex_lock \<Rightarrow> bool" where
  "isLockedByThisThread t mx \<longleftrightarrow> holder mx = t"

definition assertLocked :: "int \<Rightarrow> mutex_lock \<Rightarrow> unit result" where
  "assertLocked t mx = check (isLockedByThisThread t mx) AssertFailure"

definition MutexLock_lock :: "int \<Rightarrow> mutex_lock \<Rightarrow> mutex_lock option" where
  "MutexLock_lock t mx = (if mx_owner mx = None then Some (mx\<lparr>mx_owner := Some t, holder := t\<rparr>) else None)"

definition MutexLock_unlock :: "mutex_lock \<Rightarrow> mutex_lock" where
  "MutexLock_unlock mx = mx\<lparr>holder := 0, mx_owner := None\<rparr>"

text \<open>
  \<^verbatim>\<open>Condition::wait\<close>: \<^verbatim>\<open>pthread_cond_wait\<close> gives the mutex up, sleeps until it is signalled (or for no
  reason), and takes the mutex back. It knows nothing of \<^verbatim>\<open>holder_\<close>.
\<close>

definition wait_release :: "mutex_lock \<Rightarrow> mutex_lock" where
  "wait_release mx = mx\<lparr>mx_owner := None\<rparr>"

definition wait_reacquire :: "int \<Rightarrow> mutex_lock \<Rightarrow> mutex_lock option" where
  "wait_reacquire t mx = (if mx_owner mx = None then Some (mx\<lparr>mx_owner := Some t\<rparr>) else None)"

text \<open>The guard locks in its constructor and unlocks in its destructor, around the body \<open>f\<close>.\<close>

definition MutexLockGuard :: "int \<Rightarrow> ('s \<Rightarrow> 's) \<Rightarrow> mutex_lock \<times> 's \<Rightarrow> (mutex_lock \<times> 's) option" where
  "MutexLockGuard t f x = (case x of (mx, s) \<Rightarrow>
     (case MutexLock_lock t mx of None \<Rightarrow> None | Some mx \<Rightarrow> Some (MutexLock_unlock mx, f s)))"

text \<open>
  The threads asleep in a condition. \<^verbatim>\<open>wait\<close> joins them; \<^verbatim>\<open>notify\<close> wakes one of them, the kernel chooses which,
  and \<^verbatim>\<open>notifyAll\<close> all. \<^verbatim>\<open>waitForSeconds\<close> also ends when the clock passes \<open>abstime\<close>.
\<close>

type_synonym condition = "int list"

definition Condition_wait :: "int \<Rightarrow> mutex_lock \<times> condition \<Rightarrow> mutex_lock \<times> condition" where
  "Condition_wait t x = (case x of (mx, c) \<Rightarrow> (wait_release mx, c @ [t]))"

definition notify :: "nat \<Rightarrow> condition \<Rightarrow> condition" where
  "notify i c = (if c = [] then [] else let j = i mod length c in take j c @ drop (Suc j) c)"

definition notifyAll :: "condition \<Rightarrow> condition" where
  "notifyAll c = []"

definition ETIMEDOUT :: int where "ETIMEDOUT = 110"

definition abstime :: "int \<times> int \<Rightarrow> int \<Rightarrow> int \<times> int" where
  "abstime now seconds = (case now of (tv_sec, tv_nsec) \<Rightarrow> (i64 (tv_sec + seconds), tv_nsec))"

definition waitForSeconds :: "int \<times> int \<Rightarrow> int \<Rightarrow> (int \<times> int \<Rightarrow> int) \<Rightarrow> bool" where
  "waitForSeconds now seconds timedwait \<longleftrightarrow> ETIMEDOUT = timedwait (abstime now seconds)"

lemma notify_wakes_one:
  "c \<noteq> [] \<Longrightarrow> \<exists>t. t \<in> set c \<and> mset c = add_mset t (mset (notify i c))"
proof -
  assume c: "c \<noteq> []"
  let ?j = "i mod length c"
  have j: "?j < length c" using c by simp
  have "mset c = mset (take ?j c @ c ! ?j # drop (Suc ?j) c)" using id_take_nth_drop [OF j] by simp
  then show ?thesis using c j by (intro exI [of _ "c ! ?j"]) (simp add: notify_def Let_def)
qed

lemma lock_unlock:
  assumes "MutexLock_lock t mx = Some mx'"
  shows "isLockedByThisThread t mx'" "mx_owner mx' = Some t" "MutexLock_lock t' mx' = None"
    "mx_owner (MutexLock_unlock mx') = None" "holder (MutexLock_unlock mx') = 0"
  using assms by (auto simp: MutexLock_lock_def MutexLock_unlock_def isLockedByThisThread_def split: if_splits)

text \<open>After a wait during which another thread used the mutex, it is held but \<^verbatim>\<open>holder_\<close> is 0.\<close>

lemma holder_stale_after_wait:
  assumes "MutexLock_lock t mx = Some mx1" "t \<noteq> 0"
    and "MutexLock_lock t' (wait_release mx1) = Some mx2" "wait_reacquire t (MutexLock_unlock mx2) = Some mx3"
  shows "mx_owner mx3 = Some t" "\<not> isLockedByThisThread t mx3"
  using assms by (auto simp: MutexLock_lock_def MutexLock_unlock_def wait_release_def wait_reacquire_def
      isLockedByThisThread_def split: if_splits)

end
