(* ===== verification/EventLoopThread.thy ===== *)
theory EventLoopThread
  imports EventLoop Threads
begin

text \<open>
  The constructor and destructor of \<^verbatim>\<open>EventLoop\<close>, and \<^verbatim>\<open>EventLoopThread.h\<close> and \<^verbatim>\<open>EventLoopThread.cc\<close>: a
  thread that runs a loop of its own, and how \<^verbatim>\<open>startLoop\<close> waits for that loop to exist.

  The two threads are two programs with a counter each; one step of a thread is one access to
  what they share. The loop object is on the stack of the new thread: \<open>live\<close> is its queue of
  functors with the flags \<^verbatim>\<open>looping_\<close> and \<^verbatim>\<open>quit_\<close> while it exists. The address of the loop and the ids
  of the threads are arguments.
\<close>

section \<open>Construction and destruction of a loop\<close>

text \<open>\<^verbatim>\<open>t_loopInThisThread\<close>, the thread-local pointer, as a map from threads.\<close>

type_synonym loop_of_thread = "int \<rightharpoonup> addr"

definition claim_thread :: "int \<Rightarrow> addr \<Rightarrow> loop_of_thread \<Rightarrow> loop_of_thread result" where
  "claim_thread t p lm = rbind (check (lm t = None) FatalLog) (\<lambda>_. Inr (lm(t \<mapsto> p)))"

definition createEventfd :: "int \<Rightarrow> fd result" where
  "createEventfd evtfd = (if evtfd < 0 then Inl FatalLog else Inr evtfd)"

text \<open>
  The poller and the channels of a new loop: \<open>wc\<close> and \<open>tc\<close> are the addresses of the channels of
  the event descriptor and of the timer descriptor, which the constructor of \<^verbatim>\<open>TimerQueue\<close>
  registers.
\<close>

definition EventLoop_new :: "'k epoll_sys \<Rightarrow> 'k \<Rightarrow> int \<Rightarrow> addr \<Rightarrow> int \<Rightarrow> addr \<Rightarrow> 'cb \<Rightarrow> fd \<Rightarrow> addr \<Rightarrow> 'cb \<Rightarrow>
    loop_of_thread \<Rightarrow> (('cb, 'k) eventloop \<times> loop_of_thread) result" where
  "EventLoop_new sys k t p evtfd wc onWake timerfd tc onTimer lm =
     rbind (createEventfd evtfd) (\<lambda>wakeupFd.
     let pl = EPoller_new p k :: ('cb, 'k) poller;
         l = \<lparr>chan = [wc \<mapsto> Channel_new p wakeupFd, tc \<mapsto> setReadCallback onTimer (Channel_new p timerfd)],
              channels_ep = channels_ep pl, events_size = events_size pl, kernel = kernel pl,
              ownerLoop = ownerLoop pl, queue = functor_queue_new, threadId = t,
              pollReturnTime = Timestamp 0, activeChannels = []\<rparr>
     in rbind (Channel_request sys True EnableReading tc l) (\<lambda>l.
        rbind (claim_thread t p lm) (\<lambda>lm.
        rbind (change wc (setReadCallback onWake) l) (\<lambda>l.
        rbind (Channel_request sys True EnableReading wc l) (\<lambda>l.
          Inr (l, lm))))))"

definition EventLoop_delete :: "int \<Rightarrow> 'f functor_queue \<Rightarrow> loop_of_thread \<Rightarrow> loop_of_thread result" where
  "EventLoop_delete t q lm = rbind (check (\<not> looping q) AssertFailure) (\<lambda>_. Inr (lm(t := None)))"

section \<open>State of an EventLoopThread\<close>

datatype starter_pc =
    S_Start | S_Lock | S_Test | S_Wait | S_Relock | S_Unlock | S_Return
  | S_Returned "addr option"
  | D_Quit | D_Join | D_Done

datatype worker_pc =
    W_None | W_Tid | W_Construct | W_Lock | W_Set | W_Notify | W_Unlock
  | W_Enter | W_Loop | W_Destroy | W_Finished

record loop_thread =
  lt_loop :: "addr option"
  exiting :: bool
  lt_thread :: thread_obj
  lt_mutex :: mutex_lock
  starter :: starter_pc
  worker :: worker_pc
  tls :: loop_of_thread
  live :: "unit functor_queue option"

definition EventLoopThread_new :: "loop_of_thread \<Rightarrow> loop_thread" where
  "EventLoopThread_new lm = \<lparr>lt_loop = None, exiting = False, lt_thread = Thread_new,
     lt_mutex = MutexLock_new, starter = S_Start, worker = W_None, tls = lm, live = None\<rparr>"

section \<open>The thread that starts and destroys\<close>

text \<open>\<^verbatim>\<open>startLoop\<close>, and \<^verbatim>\<open>~EventLoopThread\<close> from \<^term>\<open>D_Quit\<close> on; \<^term>\<open>None\<close> is a thread that waits or has nothing to do.\<close>

definition startLoop :: "int \<Rightarrow> loop_thread \<Rightarrow> loop_thread result option" where
  "startLoop m s = (case starter s of
       S_Start \<Rightarrow> Some (rbind (Thread_start 0 1 (lt_thread s)) (\<lambda>th.
         Inr (s\<lparr>lt_thread := th, starter := S_Lock, worker := W_Tid\<rparr>)))
     | S_Lock \<Rightarrow> map_option (\<lambda>mx. Inr (s\<lparr>lt_mutex := mx, starter := S_Test\<rparr>)) (MutexLock_lock m (lt_mutex s))
     | S_Test \<Rightarrow> Some (Inr (if lt_loop s = None then s\<lparr>lt_mutex := wait_release (lt_mutex s), starter := S_Wait\<rparr>
         else s\<lparr>starter := S_Unlock\<rparr>))
     | S_Relock \<Rightarrow> map_option (\<lambda>mx. Inr (s\<lparr>lt_mutex := mx, starter := S_Test\<rparr>)) (wait_reacquire m (lt_mutex s))
     | S_Unlock \<Rightarrow> Some (Inr (s\<lparr>lt_mutex := MutexLock_unlock (lt_mutex s), starter := S_Return\<rparr>))
     | S_Return \<Rightarrow> Some (Inr (s\<lparr>starter := S_Returned (lt_loop s)\<rparr>))
     | _ \<Rightarrow> None)"

definition EventLoopThread_delete :: "loop_thread \<Rightarrow> loop_thread result option" where
  "EventLoopThread_delete s = (case starter s of
       D_Quit \<Rightarrow> Some (case lt_loop s of None \<Rightarrow> Inl DanglingPointer
         | Some _ \<Rightarrow> (case live s of None \<Rightarrow> Inl DanglingPointer
           | Some q \<Rightarrow> Inr (s\<lparr>live := Some (quit False q), starter := D_Join\<rparr>)))
     | D_Join \<Rightarrow> if worker s = W_Finished
         then Some (rbind (Thread_join (lt_thread s)) (\<lambda>th. Inr (s\<lparr>lt_thread := th, starter := D_Done\<rparr>)))
         else None
     | _ \<Rightarrow> None)"

section \<open>The new thread\<close>

text \<open>\<^verbatim>\<open>runInThread\<close> with \<^verbatim>\<open>threadFunc\<close>. In \<^verbatim>\<open>loop\<close> the thread serves events until it sees \<^verbatim>\<open>quit_\<close>.\<close>

definition threadFunc :: "int \<Rightarrow> addr \<Rightarrow> loop_thread \<Rightarrow> loop_thread result option" where
  "threadFunc t p s = (case worker s of
       W_Tid \<Rightarrow> Some (Inr (s\<lparr>lt_thread := the (runInThread_record t (Some (lt_thread s))), worker := W_Construct\<rparr>))
     | W_Construct \<Rightarrow> Some (rbind (claim_thread t p (tls s)) (\<lambda>lm.
         Inr (s\<lparr>tls := lm, live := Some functor_queue_new, worker := W_Lock\<rparr>)))
     | W_Lock \<Rightarrow> map_option (\<lambda>mx. Inr (s\<lparr>lt_mutex := mx, worker := W_Set\<rparr>)) (MutexLock_lock t (lt_mutex s))
     | W_Set \<Rightarrow> Some (Inr (s\<lparr>lt_loop := Some p, worker := W_Notify\<rparr>))
     | W_Notify \<Rightarrow> Some (Inr (s\<lparr>starter := (if starter s = S_Wait then S_Relock else starter s), worker := W_Unlock\<rparr>))
     | W_Unlock \<Rightarrow> Some (Inr (s\<lparr>lt_mutex := MutexLock_unlock (lt_mutex s), worker := W_Enter\<rparr>))
     | W_Enter \<Rightarrow> Some (case live s of None \<Rightarrow> Inl DanglingPointer
         | Some q \<Rightarrow> rbind (check (\<not> looping q) AssertFailure) (\<lambda>_.
             Inr (s\<lparr>live := Some (q\<lparr>looping := True, quit_flag := False\<rparr>), worker := W_Loop\<rparr>)))
     | W_Loop \<Rightarrow> (case live s of None \<Rightarrow> Some (Inl DanglingPointer)
         | Some q \<Rightarrow> if quit_flag q then Some (Inr (s\<lparr>live := Some (q\<lparr>looping := False\<rparr>), worker := W_Destroy\<rparr>)) else None)
     | W_Destroy \<Rightarrow> Some (case live s of None \<Rightarrow> Inl DanglingPointer
         | Some q \<Rightarrow> rbind (EventLoop_delete t q (tls s)) (\<lambda>lm.
             Inr (s\<lparr>tls := lm, live := None, worker := W_Finished\<rparr>)))
     | _ \<Rightarrow> None)"

section \<open>Interleaving\<close>

inductive work :: "int \<Rightarrow> int \<Rightarrow> addr \<Rightarrow> loop_thread \<Rightarrow> loop_thread result \<Rightarrow> bool" for m t p where
  start_works: "startLoop m s = Some r \<Longrightarrow> work m t p s r"
| delete_works: "EventLoopThread_delete s = Some r \<Longrightarrow> work m t p s r"
| thread_works: "threadFunc t p s = Some r \<Longrightarrow> work m t p s r"

text \<open>
  A waiting thread may also wake up for no reason, and the owner may destroy the object once
  \<^verbatim>\<open>startLoop\<close> has returned.
\<close>

inductive lt_step :: "int \<Rightarrow> int \<Rightarrow> addr \<Rightarrow> loop_thread \<Rightarrow> loop_thread \<Rightarrow> bool" for m t p where
  works: "work m t p s (Inr s') \<Longrightarrow> lt_step m t p s s'"
| spurious: "starter s = S_Wait \<Longrightarrow> lt_step m t p s (s\<lparr>starter := S_Relock\<rparr>)"
| destroy: "starter s = S_Returned r \<Longrightarrow> lt_step m t p s (s\<lparr>exiting := True, starter := D_Quit\<rparr>)"

inductive lt_reach :: "int \<Rightarrow> int \<Rightarrow> addr \<Rightarrow> loop_of_thread \<Rightarrow> loop_thread \<Rightarrow> bool" for m t p lm where
  fresh: "lt_reach m t p lm (EventLoopThread_new lm)"
| more: "lt_reach m t p lm s \<Longrightarrow> lt_step m t p s s' \<Longrightarrow> lt_reach m t p lm s'"

inductive_cases workE: "work m t p s r"
inductive_cases lt_stepE: "lt_step m t p s s'"

section \<open>Invariant\<close>

text \<open>
  The mutex is with the thread whose counter says so. A thread that waits has its signal still to
  come.
\<close>

definition excl :: "int \<Rightarrow> int \<Rightarrow> loop_thread \<Rightarrow> bool" where
  "excl m t s \<longleftrightarrow> m \<noteq> t \<and>
     mx_owner (lt_mutex s) = (if starter s \<in> {S_Test, S_Unlock} then Some m
       else if worker s \<in> {W_Set, W_Notify, W_Unlock} then Some t else None) \<and>
     \<not> (starter s \<in> {S_Test, S_Unlock} \<and> worker s \<in> {W_Set, W_Notify, W_Unlock})"

definition handed :: "addr \<Rightarrow> loop_thread \<Rightarrow> bool" where
  "handed p s \<longleftrightarrow>
     lt_loop s = (if worker s \<in> {W_None, W_Tid, W_Construct, W_Lock, W_Set} then None else Some p) \<and>
     (starter s = S_Wait \<longrightarrow> worker s \<in> {W_Tid, W_Construct, W_Lock, W_Set, W_Notify}) \<and>
     (starter s \<notin> {S_Start, S_Lock, S_Test, S_Wait, S_Relock} \<longrightarrow> lt_loop s = Some p) \<and>
     (\<forall>r. starter s = S_Returned r \<longrightarrow> r = Some p)"

definition alive :: "int \<Rightarrow> addr \<Rightarrow> loop_thread \<Rightarrow> bool" where
  "alive t p s \<longleftrightarrow>
     (live s = None \<longleftrightarrow> worker s \<in> {W_None, W_Tid, W_Construct, W_Finished}) \<and>
     (\<forall>q. live s = Some q \<longrightarrow> (looping q \<longleftrightarrow> worker s = W_Loop) \<and> (quit_flag q \<longrightarrow> starter s \<in> {D_Join, D_Done})) \<and>
     (worker s \<in> {W_Destroy, W_Finished} \<longrightarrow> starter s \<in> {D_Join, D_Done}) \<and>
     tls s t = (if worker s \<in> {W_None, W_Tid, W_Construct, W_Finished} then None else Some p) \<and>
     (starter s = S_Start \<longleftrightarrow> worker s = W_None) \<and> (th_started (lt_thread s) \<longleftrightarrow> starter s \<noteq> S_Start) \<and>
     (th_joined (lt_thread s) \<longrightarrow> starter s = D_Done) \<and>
     (worker s \<notin> {W_None, W_Tid} \<longrightarrow> th_tid (lt_thread s) = t)"

definition lt_inv :: "int \<Rightarrow> int \<Rightarrow> addr \<Rightarrow> loop_thread \<Rightarrow> bool" where
  "lt_inv m t p s \<longleftrightarrow> excl m t s \<and> handed p s \<and> alive t p s"

lemmas thread_defs = Thread_start_def Thread_join_def runInThread_record_def MutexLock_lock_def
  MutexLock_unlock_def wait_release_def wait_reacquire_def claim_thread_def EventLoop_delete_def quit_def wakeup_def
  functor_queue_new_def

lemma lt_inv_new: "m \<noteq> t \<Longrightarrow> lm t = None \<Longrightarrow> lt_inv m t p (EventLoopThread_new lm)"
  by (simp add: lt_inv_def excl_def handed_def alive_def EventLoopThread_new_def MutexLock_new_def Thread_new_def)

lemmas lt_inv_defs = excl_def handed_def alive_def thread_defs

lemma startLoop_ok:
  assumes "lt_inv m t p s"
  shows "pred_option (yields {} (lt_inv m t p)) (startLoop m s)"
proof -
  have "excl m t s" "handed p s" "alive t p s" using assms by (auto simp: lt_inv_def)
  then show ?thesis unfolding lt_inv_def
    by (cases "worker s"; cases "starter s"; cases "live s") (simp_all add: startLoop_def lt_inv_defs)
qed

lemma delete_ok:
  assumes "lt_inv m t p s"
  shows "pred_option (yields {} (lt_inv m t p)) (EventLoopThread_delete s)"
proof -
  have "excl m t s" "handed p s" "alive t p s" using assms by (auto simp: lt_inv_def)
  then show ?thesis unfolding lt_inv_def
    by (cases "worker s"; cases "starter s"; cases "live s") (simp_all add: EventLoopThread_delete_def lt_inv_defs Let_def)
qed

lemma threadFunc_ok:
  assumes "lt_inv m t p s"
  shows "pred_option (yields {} (lt_inv m t p)) (threadFunc t p s)"
proof -
  have "excl m t s" "handed p s" "alive t p s" using assms by (auto simp: lt_inv_def)
  then show ?thesis unfolding lt_inv_def
    by (cases "worker s"; cases "starter s"; cases "live s") (simp_all add: threadFunc_def lt_inv_defs)
qed

lemma work_ok:
  assumes "work m t p s r" "lt_inv m t p s"
  shows "yields {} (lt_inv m t p) r"
  using assms(1) startLoop_ok [OF assms(2)] delete_ok [OF assms(2)] threadFunc_ok [OF assms(2)]
  by cases simp_all

lemma lt_reach_inv:
  assumes "lt_reach m t p lm s" "m \<noteq> t" "lm t = None"
  shows "lt_inv m t p s"
  using assms(1)
proof (induction rule: lt_reach.induct)
  case fresh
  show ?case by (rule lt_inv_new) fact+
next
  case (more s s')
  from more(2) show ?case
  proof cases
    case works
    from work_ok [OF this more.IH] show ?thesis by simp
  next
    case spurious
    then show ?thesis using more.IH by (auto simp: lt_inv_def excl_def handed_def alive_def)
  next
    case (destroy r)
    then show ?thesis using more.IH by (auto simp: lt_inv_def excl_def handed_def alive_def)
  qed
qed

section \<open>Termination\<close>

text \<open>Every step that is not a spurious wake-up brings the threads closer to their ends.\<close>

fun work_left :: "worker_pc \<Rightarrow> nat" where
  "work_left W_None = 50" | "work_left W_Tid = 45" | "work_left W_Construct = 40" | "work_left W_Lock = 35"
| "work_left W_Set = 30" | "work_left W_Notify = 25" | "work_left W_Unlock = 20" | "work_left W_Enter = 15"
| "work_left W_Loop = 10" | "work_left W_Destroy = 5" | "work_left W_Finished = 0"

fun start_left :: "starter_pc \<Rightarrow> nat" where
  "start_left S_Start = 8" | "start_left S_Lock = 7" | "start_left S_Relock = 7" | "start_left S_Test = 6"
| "start_left S_Wait = 5" | "start_left S_Unlock = 4" | "start_left S_Return = 3" | "start_left (S_Returned r) = 2"
| "start_left D_Quit = 2" | "start_left D_Join = 1" | "start_left D_Done = 0"

definition steps_left :: "loop_thread \<Rightarrow> nat" where
  "steps_left s = work_left (worker s) + start_left (starter s)"

lemma startLoop_decreases: "startLoop m s = Some (Inr s') \<Longrightarrow> alive t p s \<Longrightarrow> steps_left s' < steps_left s"
  by (cases "starter s") (auto simp: startLoop_def steps_left_def alive_def split: if_splits)

lemma delete_decreases: "EventLoopThread_delete s = Some (Inr s') \<Longrightarrow> steps_left s' < steps_left s"
  by (cases "starter s") (auto simp: EventLoopThread_delete_def steps_left_def split: if_splits option.splits)

lemma threadFunc_decreases: "threadFunc t p s = Some (Inr s') \<Longrightarrow> steps_left s' < steps_left s"
  by (cases "worker s"; cases "starter s")
    (auto simp: threadFunc_def steps_left_def split: if_splits option.splits)

lemma work_decreases: "work m t p s (Inr s') \<Longrightarrow> alive t p s \<Longrightarrow> steps_left s' < steps_left s"
  by (erule workE) (auto dest: startLoop_decreases delete_decreases threadFunc_decreases)

lemma lt_inv_split: "lt_inv m t p s \<Longrightarrow> excl m t s \<and> handed p s \<and> alive t p s"
  by (simp add: lt_inv_def)

lemma stuck_ends:
  assumes "lt_inv m t p s" "\<And>r. \<not> work m t p s r"
  shows "starter s = S_Returned (Some p) \<or> starter s = D_Join \<or> starter s = D_Done"
proof -
  have "startLoop m s = None" "threadFunc t p s = None" "EventLoopThread_delete s = None"
    using assms(2) work.intros by (metis option.exhaust)+
  then show ?thesis
    using lt_inv_split [OF assms(1)]
    by (cases "starter s"; cases "worker s"; cases "live s")
      (simp_all add: startLoop_def threadFunc_def EventLoopThread_delete_def lt_inv_defs split: if_splits)
qed

section \<open>Properties\<close>


text \<open>The state after a list of steps, each of the starting thread (true) or of the new one.\<close>

fun schedule :: "int \<Rightarrow> int \<Rightarrow> addr \<Rightarrow> bool list \<Rightarrow> loop_thread \<Rightarrow> loop_thread" where
  "schedule m t p [] s = s"
| "schedule m t p (b # bs) s =
     (case (if b then startLoop m s else threadFunc t p s) of
        Some (Inr s') \<Rightarrow> schedule m t p bs s' | _ \<Rightarrow> s)"

lemma schedule_reach: "lt_reach m t p lm s \<Longrightarrow> lt_reach m t p lm (schedule m t p bs s)"
proof (induction bs arbitrary: s)
  case (Cons b bs)
  have "lt_reach m t p lm s'" if "(if b then startLoop m s else threadFunc t p s) = Some (Inr s')" for s'
    using that by (intro lt_reach.more [OF Cons.prems] lt_step.works) (auto intro: work.intros split: if_splits)
  with Cons show ?case by (auto split: option.split sum.split)
qed simp

text \<open>The starting thread waits first, is woken and returns.\<close>

definition sample_returned :: loop_thread where
  "sample_returned = schedule 10 11 64
     [True, True, True, False, False, False, False, False, False, True, True, True, True] (EventLoopThread_new Map.empty)"

lemmas schedule_eval = startLoop_def threadFunc_def EventLoopThread_new_def MutexLock_new_def Thread_new_def thread_defs

lemma sample_returned_eval:
  "starter sample_returned = S_Returned (Some 64)" "worker sample_returned = W_Enter" "live sample_returned \<noteq> None"
  by (simp_all add: sample_returned_def schedule_eval)


text \<open>
  C22. \<^verbatim>\<open>startLoop\<close> terminates: from every reachable state the two threads make at most 58 steps,
  spurious wake-ups aside, and they can only come to rest when \<^verbatim>\<open>startLoop\<close> has returned the new loop (or the
  destructor was called after that). So the wait for the loop is never missed and never deadlocks.
\<close>

theorem startLoop_terminates:
  assumes "lt_reach m t p lm s" "m \<noteq> t" "lm t = None"
    and "((\<lambda>s s'. work m t p s (Inr s')) ^^ n) s s'"
  shows "n \<le> 58 \<and> ((\<forall>r. \<not> work m t p s' r) \<longrightarrow>
    starter s' = S_Returned (Some p) \<or> starter s' = D_Join \<or> starter s' = D_Done)"
proof -
  have inv: "lt_inv m t p u" if "lt_reach m t p lm u" for u
    by (rule lt_reach_inv) fact+
  have bound: "n + steps_left s' \<le> steps_left s \<and> lt_reach m t p lm s'"
    using assms(4)
  proof (induction n arbitrary: s')
    case (Suc n)
    then obtain u where u: "((\<lambda>s s'. work m t p s (Inr s')) ^^ n) s u" "work m t p u (Inr s')" by auto
    have ih: "n + steps_left u \<le> steps_left s" "lt_reach m t p lm u" using Suc.IH [OF u(1)] by auto
    have "steps_left s' < steps_left u"
      using work_decreases [OF u(2)] inv [OF ih(2)] by (simp add: lt_inv_def)
    with ih lt_reach.more [OF ih(2) lt_step.works [OF u(2)]] show ?case by simp
  qed (use assms(1) in simp)
  moreover have "steps_left s \<le> 58"
    by (cases "worker s"; cases "starter s") (simp_all add: steps_left_def)
  moreover have "lt_inv m t p s'" using inv bound by blast
  ultimately show ?thesis using stuck_ends by auto
qed

definition sample_running :: loop_thread where
  "sample_running = schedule 10 11 64 [False] sample_returned"

lemma sample_running_eval:
  "threadFunc 11 64 sample_returned = Some (Inr sample_running)" "threadFunc 11 64 sample_running = None"
  "startLoop 10 sample_running = None" "EventLoopThread_delete sample_running = None"
  by (simp_all add: sample_running_def sample_returned_def EventLoopThread_delete_def schedule_eval)

theorem startLoop_terminates_witness:
  "((\<lambda>s s'. work 10 11 64 s (Inr s')) ^^ 1) sample_returned sample_running \<and>
   (\<forall>r. \<not> work 10 11 64 sample_running r) \<and> starter sample_running \<noteq> S_Wait"
proof -
  have r: "lt_reach 10 11 64 Map.empty sample_returned"
    unfolding sample_returned_def by (rule schedule_reach) (rule lt_reach.fresh)
  have step: "((\<lambda>s s'. work 10 11 64 s (Inr s')) ^^ 1) sample_returned sample_running"
    using work.thread_works [OF sample_running_eval(1)] by auto
  have stuck: "\<not> work 10 11 64 sample_running r" for r
    by (auto simp: sample_running_eval elim: workE)
  from startLoop_terminates [OF r _ _ step] step stuck show ?thesis by auto
qed

text \<open>
  Destroying an \<^verbatim>\<open>EventLoopThread\<close> can hang: when the destructor runs after \<^verbatim>\<open>startLoop\<close> has
  returned but before the new thread has entered \<^verbatim>\<open>loop\<close>, the flag it sets is cleared by \<^verbatim>\<open>loop\<close>,
  and the two threads wait for each other for ever: no step is possible any more and the
  thread was not joined.
\<close>

theorem join_can_hang:
  assumes "m \<noteq> t" "lm t = None"
  shows "\<exists>s. lt_reach m t p lm s \<and> starter s = D_Join \<and> worker s = W_Loop \<and> (\<forall>s'. \<not> lt_step m t p s s')"
proof -
  let ?s1 = "schedule m t p [True, False, False, False, False, False, False, True, True, True, True]
    (EventLoopThread_new lm)"
  let ?s2 = "?s1\<lparr>exiting := True, starter := D_Quit\<rparr>"
  have r1: "lt_reach m t p lm ?s1" by (rule schedule_reach) (rule lt_reach.fresh)
  have "starter ?s1 = S_Returned (Some p)" using assms by (simp add: schedule_eval)
  from lt_reach.more [OF r1 lt_step.destroy [OF this]] have r2: "lt_reach m t p lm ?s2" .
  obtain s3 where s3: "EventLoopThread_delete ?s2 = Some (Inr s3)"
      "threadFunc t p s3 = Some (Inr (s3\<lparr>live := Some \<lparr>looping = True, quit_flag = False,
         callingPendingFunctors = False, pendingFunctors = [], wakeupCount = 1\<rparr>, worker := W_Loop\<rparr>))"
      "starter s3 = D_Join"
    using assms by (simp add: EventLoopThread_delete_def schedule_eval)
  let ?s4 = "s3\<lparr>live := Some \<lparr>looping = True, quit_flag = False,
         callingPendingFunctors = False, pendingFunctors = [], wakeupCount = 1\<rparr>, worker := W_Loop\<rparr>"
  have "lt_reach m t p lm ?s4"
    using lt_reach.more [OF lt_reach.more [OF r2 lt_step.works [OF work.delete_works [OF s3(1)]]]
        lt_step.works [OF work.thread_works [OF s3(2)]]] .
  moreover have "\<not> lt_step m t p ?s4 s'" for s'
    using s3(3) by (auto elim!: lt_stepE workE simp: startLoop_def threadFunc_def EventLoopThread_delete_def)
  ultimately show ?thesis using s3(3) by (intro exI [of _ ?s4]) simp
qed

theorem join_can_hang_witness:
  "\<exists>s. lt_reach 10 11 64 Map.empty s \<and> starter s = D_Join \<and> (\<forall>s'. \<not> lt_step 10 11 64 s s')"
  using join_can_hang [of 10 11 Map.empty 64] by auto

section \<open>New loops\<close>

definition loop_start :: "'k \<Rightarrow> int \<Rightarrow> addr \<Rightarrow> fd \<Rightarrow> addr \<Rightarrow> fd \<Rightarrow> addr \<Rightarrow> 'cb \<Rightarrow> ('cb, 'k) eventloop" where
  "loop_start k t p d wc timerfd tc onTimer =
     \<lparr>chan = [wc \<mapsto> Channel_new p d, tc \<mapsto> setReadCallback onTimer (Channel_new p timerfd)],
      channels_ep = Map.empty, events_size = kInitEventListSize, kernel = k, ownerLoop = p,
      queue = functor_queue_new, threadId = t, pollReturnTime = Timestamp 0, activeChannels = []\<rparr>"

lemma new_index: "(- 1 :: int) = kNew"
  by (simp add: kNew_def)

lemma ep_inv_loop_start:
  "interest sys k = Map.empty \<Longrightarrow> ep_inv sys (loop_start k t p d wc timerfd tc onTimer)"
  by (auto simp: ep_inv_def loop_start_def Channel_new_def setReadCallback_def interest_of_def new_index split: if_splits)

text \<open>The timer channel is registered first; what that leaves for the rest of the constructor.\<close>

lemma timer_channel_registered:
  assumes "epoll_ctl_ok sys" "interest sys k = Map.empty" "wc \<noteq> tc"
  obtains l where
    "Channel_request sys True EnableReading tc (loop_start k t p d wc timerfd tc onTimer) = Inr l"
    "ep_inv sys l" "ownerLoop l = p" "threadId l = t" "channels_ep l = [timerfd \<mapsto> tc]"
    "chan l wc = Some (Channel_new p d)"
    "chan l tc = Some (after_request EnableReading (setReadCallback onTimer (Channel_new p timerfd)))" "dom (chan l) = {wc, tc}"
proof -
  let ?l = "loop_start k t p d wc timerfd tc onTimer"
  let ?c = "setReadCallback onTimer (Channel_new p timerfd)"
  have c: "chan ?l tc = Some ?c" using assms(3) by (simp add: loop_start_def)
  have fd: "ch_fd ?c = timerfd" "ch_loop ?c = p" by (simp_all add: setReadCallback_def Channel_new_def)
  have own: "ch_loop ?c = ownerLoop ?l" and new: "channels_ep ?l (ch_fd ?c) = None"
    by (simp_all add: loop_start_def fd)
  obtain k' where k': "Channel_request sys True EnableReading tc ?l = Inr (?l\<lparr>chan := (chan ?l)(tc \<mapsto> after_request EnableReading ?c),
      channels_ep := (channels_ep ?l)(ch_fd ?c \<mapsto> tc), kernel := k'\<rparr>)"
    "ep_inv sys (?l\<lparr>chan := (chan ?l)(tc \<mapsto> after_request EnableReading ?c),
      channels_ep := (channels_ep ?l)(ch_fd ?c \<mapsto> tc), kernel := k'\<rparr>)"
    by (rule Channel_request_ok [OF assms(1) ep_inv_loop_start [OF assms(2)] c own new])
  show ?thesis
    by (rule that [OF k']) (use assms(3) in \<open>auto simp: loop_start_def fd\<close>)
qed

lemma EventLoop_new_start:
  "EventLoop_new sys k t p evtfd wc onWake timerfd tc onTimer lm =
     rbind (createEventfd evtfd) (\<lambda>d.
     rbind (Channel_request sys True EnableReading tc (loop_start k t p d wc timerfd tc onTimer)) (\<lambda>l.
        rbind (claim_thread t p lm) (\<lambda>lm.
        rbind (change wc (setReadCallback onWake) l) (\<lambda>l.
        rbind (Channel_request sys True EnableReading wc l) (\<lambda>l.
          Inr (l, lm))))))"
  by (simp add: EventLoop_new_def loop_start_def EPoller_new_def Let_def)

lemma read_mask: "ch_events (after_request EnableReading (setReadCallback cb (Channel_new p d))) = kReadEvent"
  "ch_index (after_request EnableReading (setReadCallback cb (Channel_new p d))) = kAdded"
  "ch_fd (after_request EnableReading (setReadCallback cb (Channel_new p d))) = d"
  by (simp_all add: after_request_def set_index_def setReadCallback_def Channel_new_def Let_def new_index requested.simps)

text \<open>
  A thread has at most one loop, and a new one is ready to be woken: in a thread without a
  loop the constructor returns a loop of that thread whose poller is in sync and watches exactly
  the event descriptor and the timer descriptor for reading; in a thread that has a loop it aborts.
\<close>

theorem EventLoop_new_ready:
  assumes "epoll_ctl_ok sys" "interest sys k = Map.empty" "wc \<noteq> tc" "evtfd \<noteq> timerfd" "0 \<le> evtfd"
  shows "if lm t = None
    then \<exists>l. EventLoop_new sys k t p evtfd wc onWake timerfd tc onTimer lm = Inr (l, lm(t \<mapsto> p)) \<and>
      isInLoopThread t l \<and> ep_inv sys l \<and> ownerLoop l = p \<and> dom (chan l) = {wc, tc} \<and> dom (channels_ep l) = {timerfd, evtfd} \<and>
      interest sys (kernel l) = [timerfd \<mapsto> (kReadEvent, tc), evtfd \<mapsto> (kReadEvent, wc)]
    else EventLoop_new sys k t p evtfd wc onWake timerfd tc onTimer lm = Inl FatalLog"
proof -
  obtain l where l: "Channel_request sys True EnableReading tc (loop_start k t p evtfd wc timerfd tc onTimer) = Inr l"
    "ep_inv sys l" "ownerLoop l = p" "threadId l = t" "channels_ep l = [timerfd \<mapsto> tc]"
    "chan l wc = Some (Channel_new p evtfd)"
    "chan l tc = Some (after_request EnableReading (setReadCallback onTimer (Channel_new p timerfd)))" "dom (chan l) = {wc, tc}"
    by (rule timer_channel_registered [OF assms(1-3)])
  let ?c = "setReadCallback onWake (Channel_new p evtfd)"
  let ?l = "l\<lparr>chan := (chan l)(wc \<mapsto> ?c)\<rparr>"
  have inv: "ep_inv sys ?l"
    by (rule ep_inv_store [OF l(2)]) (auto simp: l(6) setReadCallback_def Channel_new_def new_index)
  obtain k' where k': "Channel_request sys True EnableReading wc ?l = Inr (?l\<lparr>chan := (chan ?l)(wc \<mapsto> after_request EnableReading ?c),
      channels_ep := (channels_ep ?l)(ch_fd ?c \<mapsto> wc), kernel := k'\<rparr>)"
    "ep_inv sys (?l\<lparr>chan := (chan ?l)(wc \<mapsto> after_request EnableReading ?c),
      channels_ep := (channels_ep ?l)(ch_fd ?c \<mapsto> wc), kernel := k'\<rparr>)"
    by (rule Channel_request_ok [OF assms(1) inv, of wc ?c EnableReading])
      (use l assms(4) in \<open>simp_all add: setReadCallback_def Channel_new_def\<close>)
  let ?r = "?l\<lparr>chan := (chan ?l)(wc \<mapsto> after_request EnableReading ?c),
      channels_ep := (channels_ep ?l)(ch_fd ?c \<mapsto> wc), kernel := k'\<rparr>"
  have "interest_of ?r d = ([timerfd \<mapsto> (kReadEvent, tc), evtfd \<mapsto> (kReadEvent, wc)]) d" for d
    using l(5,7) assms(3,4) by (simp add: interest_of_def read_mask) (simp add: setReadCallback_def Channel_new_def)
  then have "interest sys (kernel ?r) = [timerfd \<mapsto> (kReadEvent, tc), evtfd \<mapsto> (kReadEvent, wc)]"
    using ep_invD(4) [OF k'(2)] by (auto simp: fun_eq_iff)
  moreover have "EventLoop_new sys k t p evtfd wc onWake timerfd tc onTimer lm = Inr (?r, lm(t \<mapsto> p))" if "lm t = None"
    unfolding EventLoop_new_start using that assms(5) l(1,6) k'(1)
    by (simp add: createEventfd_def claim_thread_def change_def load_def)
  moreover have "EventLoop_new sys k t p evtfd wc onWake timerfd tc onTimer lm = Inl FatalLog" if "lm t \<noteq> None"
    unfolding EventLoop_new_start using that assms(5) l(1) by (auto simp: createEventfd_def claim_thread_def)
  moreover have "ch_fd ?c = evtfd" by (simp add: setReadCallback_def Channel_new_def)
  then have "ownerLoop ?r = p" "dom (chan ?r) = {wc, tc}" "dom (channels_ep ?r) = {timerfd, evtfd}" using l(3,5,8) by auto
  ultimately show ?thesis using k'(2) l(4) by (auto simp: isInLoopThread_def intro!: exI [of _ ?r])
qed

theorem EventLoop_new_ready_witness:
  "(\<exists>l. EventLoop_new sample_sys Map.empty 10 64 5 16 (0 :: nat) 6 32 2 Map.empty = Inr (l, [10 \<mapsto> 64]) \<and>
     interest sample_sys (kernel l) = [6 \<mapsto> (kReadEvent, 32), 5 \<mapsto> (kReadEvent, 16)]) \<and>
   EventLoop_new sample_sys Map.empty 10 128 5 16 (0 :: nat) 6 32 2 [10 \<mapsto> 64] = Inl FatalLog"
  using EventLoop_new_ready [of sample_sys Map.empty 16 32 5 6 Map.empty 10 64 "0 :: nat" 2]
    EventLoop_new_ready [of sample_sys Map.empty 16 32 5 6 "[10 \<mapsto> 64]" 10 128 "0 :: nat" 2] sample_ctl_ok
  by (auto simp: sample_sys_def)

end
