(* ===== verification/EventLoopThreadPool.thy ===== *)
theory EventLoopThreadPool
  imports Netfish_Prelude
begin

text \<open>
  \<^verbatim>\<open>EventLoopThreadPool.h\<close> and \<^verbatim>\<open>EventLoopThreadPool.cc\<close>: the loops among which a server spreads its
  connections. What \<^verbatim>\<open>startLoop\<close> of the \<open>i\<close>-th new thread returns is the argument \<open>newLoop i\<close>.
\<close>

record thread_pool =
  baseLoop :: addr
  tp_started :: bool
  numThreads :: int
  next_ix :: int
  loops :: "addr list"

definition EventLoopThreadPool_new :: "addr \<Rightarrow> thread_pool" where
  "EventLoopThreadPool_new base = \<lparr>baseLoop = base, tp_started = False, numThreads = 0, next_ix = 0, loops = []\<rparr>"

definition tp_setThreadNum :: "int \<Rightarrow> thread_pool \<Rightarrow> thread_pool" where
  "tp_setThreadNum n tp = tp\<lparr>numThreads := n\<rparr>"

text \<open>The \<^verbatim>\<open>for\<close> of \<^verbatim>\<open>start\<close>, from \<open>i\<close> on.\<close>

function start_threads :: "(int \<Rightarrow> addr) \<Rightarrow> int \<Rightarrow> thread_pool \<Rightarrow> thread_pool" where
  "start_threads newLoop i tp =
     (if i < numThreads tp then start_threads newLoop (i + 1) (tp\<lparr>loops := loops tp @ [newLoop i]\<rparr>) else tp)"
  by pat_completeness auto
termination by (relation "measure (\<lambda>(newLoop, i, tp). nat (numThreads tp - i))") auto

declare start_threads.simps [simp del]

definition tp_start :: "bool \<Rightarrow> (int \<Rightarrow> addr) \<Rightarrow> thread_pool \<Rightarrow> thread_pool result" where
  "tp_start inLoop newLoop tp =
     rbind (check (\<not> tp_started tp) AssertFailure) (\<lambda>_.
     rbind (check inLoop FatalLog) (\<lambda>_.
       Inr (start_threads newLoop 0 (tp\<lparr>tp_started := True\<rparr>))))"

text \<open>The cast of \<^verbatim>\<open>next_\<close> to \<^verbatim>\<open>size_t\<close> makes a negative value a huge one.\<close>

definition getNextLoop :: "bool \<Rightarrow> thread_pool \<Rightarrow> (addr \<times> thread_pool) result" where
  "getNextLoop inLoop tp =
     rbind (check inLoop FatalLog) (\<lambda>_.
     if loops tp \<noteq> [] then
       rbind (check (0 \<le> next_ix tp \<and> next_ix tp < int (length (loops tp))) OutOfBounds) (\<lambda>_.
       let loop = loops tp ! nat (next_ix tp); n = next_ix tp + 1 in
       Inr (loop, tp\<lparr>next_ix := (if n < 0 \<or> int (length (loops tp)) \<le> n then 0 else n)\<rparr>))
     else Inr (baseLoop tp, tp))"

text \<open>The results of \<open>k\<close> calls in a row.\<close>

fun next_loops :: "nat \<Rightarrow> thread_pool \<Rightarrow> (addr list \<times> thread_pool) result" where
  "next_loops 0 tp = Inr ([], tp)"
| "next_loops (Suc k) tp = rbind (getNextLoop True tp) (\<lambda>(l, tp).
     rbind (next_loops k tp) (\<lambda>(ls, tp). Inr (l # ls, tp)))"

section \<open>Round robin\<close>

text \<open>The loop for the \<open>i\<close>-th request, and the counter before it.\<close>

definition loop_for :: "thread_pool \<Rightarrow> nat \<Rightarrow> addr" where
  "loop_for tp i = (if loops tp = [] then baseLoop tp else loops tp ! (i mod length (loops tp)))"

definition tp_at :: "nat \<Rightarrow> thread_pool \<Rightarrow> bool" where
  "tp_at i tp \<longleftrightarrow> loops tp = [] \<or> next_ix tp = int (i mod length (loops tp))"

lemma loop_for_next [simp]: "loop_for (tp\<lparr>next_ix := n\<rparr>) i = loop_for tp i"
  by (simp add: loop_for_def)

lemma getNextLoop_at:
  assumes "tp_at i tp"
  obtains n where "getNextLoop True tp = Inr (loop_for tp i, tp\<lparr>next_ix := n\<rparr>)" "tp_at (Suc i) (tp\<lparr>next_ix := n\<rparr>)"
proof (cases "loops tp = []")
  case True
  then show ?thesis using that [of "next_ix tp"] by (simp add: getNextLoop_def loop_for_def tp_at_def)
next
  case False
  let ?k = "length (loops tp)"
  have lt: "i mod ?k < ?k" using False by simp
  then have n: "int (Suc i mod ?k) = (if int ?k \<le> int (i mod ?k) + 1 then 0 else int (i mod ?k) + 1)"
    by (auto simp: mod_Suc)
  have at: "next_ix tp = int (i mod ?k)" using assms False by (simp add: tp_at_def)
  have "getNextLoop True tp = Inr (loop_for tp i, tp\<lparr>next_ix := int (Suc i mod ?k)\<rparr>)"
    unfolding n using lt False by (simp add: getNextLoop_def loop_for_def Let_def at)
  then show ?thesis by (rule that) (simp add: tp_at_def)
qed

lemma next_loops_at: "tp_at i tp \<Longrightarrow> \<exists>tp'. next_loops k tp = Inr (map (\<lambda>j. loop_for tp (i + j)) [0..<k], tp')"
proof (induction k arbitrary: i tp)
  case (Suc k)
  obtain n where n: "getNextLoop True tp = Inr (loop_for tp i, tp\<lparr>next_ix := n\<rparr>)" "tp_at (Suc i) (tp\<lparr>next_ix := n\<rparr>)"
    using getNextLoop_at [OF Suc.prems] .
  from Suc.IH [OF n(2)] n(1)
  have "\<exists>tp'. next_loops (Suc k) tp = Inr (loop_for tp i # map (\<lambda>j. loop_for tp (Suc i + j)) [0..<k], tp')"
    by auto
  moreover have "map (\<lambda>j. loop_for tp (i + j)) [0..<Suc k] = loop_for tp i # map (\<lambda>j. loop_for tp (Suc i + j)) [0..<k]"
    by (simp add: map_upt_Suc del: upt_Suc)
  ultimately show ?case by simp
qed simp

lemma start_threads_loops:
  "0 \<le> i \<Longrightarrow> i \<le> numThreads tp \<Longrightarrow> start_threads newLoop i tp =
     tp\<lparr>loops := loops tp @ map (\<lambda>j. newLoop (int j)) [nat i..<nat (numThreads tp)]\<rparr>"
proof (induction newLoop i tp rule: start_threads.induct)
  case (1 newLoop i tp)
  show ?case
  proof (cases "i < numThreads tp")
    case True
    then have "[nat i..<nat (numThreads tp)] = nat i # [nat (i + 1)..<nat (numThreads tp)]"
      using 1(2) by (simp add: upt_rec [of "nat i"] nat_add_distrib)
    with True 1 show ?thesis by (simp add: start_threads.simps [of newLoop i tp])
  next
    case False
    then have "i = numThreads tp" using 1(3) by simp
    with False show ?thesis by (subst start_threads.simps) simp
  qed
qed

lemma start_threads_none: "numThreads tp \<le> i \<Longrightarrow> start_threads newLoop i tp = tp"
  by (subst start_threads.simps) simp

lemma tp_start_at:
  assumes "tp_start True newLoop (tp_setThreadNum n (EventLoopThreadPool_new base)) = Inr tp" "0 \<le> n"
  shows "tp_at 0 tp" "baseLoop tp = base" "loops tp = map (\<lambda>j. newLoop (int j)) [0..<nat n]"
  using assms by (auto simp: tp_start_def start_threads_loops tp_setThreadNum_def EventLoopThreadPool_new_def tp_at_def)

text \<open>
  C35. The pool chooses its loops in turn: \<open>k\<close> calls of \<^verbatim>\<open>getNextLoop\<close> on a pool started with \<open>n\<close>
  threads return the loops of threads \<open>0\<close>, \<open>1\<close> and so on, starting over after the last, and
  always the base loop when \<open>n\<close> is zero; no access is out of range.
\<close>

theorem getNextLoop_round_robin:
  assumes "tp_start True newLoop (tp_setThreadNum n (EventLoopThreadPool_new base)) = Inr tp" "0 \<le> n"
  shows "map_sum id fst (next_loops k tp) =
    Inr (map (\<lambda>i. if n = 0 then base else newLoop (int i mod n)) [0..<k])"
proof -
  note st = tp_start_at [OF assms]
  obtain tp' where "next_loops k tp = Inr (map (\<lambda>j. loop_for tp (0 + j)) [0..<k], tp')"
    using next_loops_at [OF st(1)] by blast
  moreover have "loop_for tp j = (if n = 0 then base else newLoop (int j mod n))" for j
    using st(2,3) assms(2) by (simp add: loop_for_def nat_mod_distrib zmod_int del: upt_0)
  ultimately show ?thesis by simp
qed

theorem getNextLoop_round_robin_witness:
  "\<exists>tp. tp_start True (\<lambda>i. word_of_int i) (tp_setThreadNum 3 (EventLoopThreadPool_new 9)) = Inr tp \<and>
     map_sum id fst (next_loops 5 tp) = Inr [0, 1, 2, 0, 1]"
proof -
  have st: "tp_start True (\<lambda>i. word_of_int i) (tp_setThreadNum 3 (EventLoopThreadPool_new 9)) =
      Inr (start_threads (\<lambda>i. word_of_int i) 0 (tp_setThreadNum 3 (EventLoopThreadPool_new 9)\<lparr>tp_started := True\<rparr>))"
    by (simp add: tp_start_def tp_setThreadNum_def EventLoopThreadPool_new_def)
  show ?thesis using getNextLoop_round_robin [OF st, of 5] st by (simp add: upt_rec numeral_eq_Suc)
qed

end
