(* ===== verification/Buffer.thy ===== *)
theory Buffer
  imports Netfish_Prelude
begin

text \<open>
  The class \<^verbatim>\<open>Buffer\<close> of \<^verbatim>\<open>Buffer.h\<close> and \<^verbatim>\<open>Buffer.cc\<close>: a vector of bytes with a reader and a
  writer index. Indices are \<open>size_t\<close> values with the machine's wrap-around; a pointer into
  the vector is its offset from \<^verbatim>\<open>begin()\<close>. The fields \<open>vec\<close>, \<open>readerIndex\<close> and \<open>writerIndex\<close> are
  the members \<^verbatim>\<open>buffer_\<close>, \<^verbatim>\<open>readerIndex_\<close> and \<^verbatim>\<open>writerIndex_\<close>. Allocation failure is not modelled; asking the
  vector for more than \<open>max_size\<close> bytes is the fault \<open>LengthError\<close>.

  The theory shows that the buffer is a queue of bytes (\<open>readable\<close> is its contents), states
  exactly when appending succeeds, and records what \<^verbatim>\<open>shrink\<close> and \<^verbatim>\<open>ensureWritableBytes\<close> do
  where they differ from their comments.
\<close>

section \<open>State\<close>

record buffer =
  vec :: "byte list"
  readerIndex :: size_t
  writerIndex :: size_t

definition kCheapPrepend :: size_t where
  "kCheapPrepend = 8"

definition kInitialSize :: size_t where
  "kInitialSize = 1024"

text \<open>\<^verbatim>\<open>std::vector<char>::max_size()\<close>, the largest difference of two pointers.\<close>

definition max_size :: nat where
  "max_size = 2 ^ 63 - 1"

definition size_of :: "buffer \<Rightarrow> size_t" where
  "size_of b = word_of_nat (length (vec b))"

section \<open>Operations\<close>

definition readableBytes :: "buffer \<Rightarrow> size_t" where
  "readableBytes b = writerIndex b - readerIndex b"

definition writableBytes :: "buffer \<Rightarrow> size_t" where
  "writableBytes b = size_of b - writerIndex b"

definition prependableBytes :: "buffer \<Rightarrow> size_t" where
  "prependableBytes b = readerIndex b"

definition Buffer_new :: "buffer result" where
  "Buffer_new =
     (let b = \<lparr>vec = replicate (unat (kCheapPrepend + kInitialSize)) 0,
               readerIndex = kCheapPrepend, writerIndex = kCheapPrepend\<rparr>
      in rbind (check (readableBytes b = 0) AssertFailure) (\<lambda>_.
         rbind (check (writableBytes b = kInitialSize) AssertFailure) (\<lambda>_.
         rbind (check (prependableBytes b = kCheapPrepend) AssertFailure) (\<lambda>_. Inr b))))"

definition swap_buffer :: "buffer \<Rightarrow> buffer \<Rightarrow> buffer \<times> buffer" where
  "swap_buffer b rhs =
     (b\<lparr>vec := vec rhs, readerIndex := readerIndex rhs, writerIndex := writerIndex rhs\<rparr>,
      rhs\<lparr>vec := vec b, readerIndex := readerIndex b, writerIndex := writerIndex b\<rparr>)"

definition peek :: "buffer \<Rightarrow> size_t" where
  "peek b = readerIndex b"

definition beginWrite :: "buffer \<Rightarrow> size_t" where
  "beginWrite b = writerIndex b"

definition retrieve :: "size_t \<Rightarrow> buffer \<Rightarrow> buffer result" where
  "retrieve len b =
     rbind (check (len \<le> readableBytes b) AssertFailure) (\<lambda>_.
       Inr (b\<lparr>readerIndex := readerIndex b + len\<rparr>))"

definition retrieveUntil :: "size_t \<Rightarrow> buffer \<Rightarrow> buffer result" where
  "retrieveUntil end_ptr b =
     rbind (check (peek b \<le> end_ptr) AssertFailure) (\<lambda>_.
     rbind (check (end_ptr \<le> beginWrite b) AssertFailure) (\<lambda>_.
       retrieve (end_ptr - peek b) b))"

definition retrieveAll :: "buffer \<Rightarrow> buffer result" where
  "retrieveAll b = retrieve (readableBytes b) b"

text \<open>Reading \<open>len\<close> bytes of the vector from an offset, for the string constructor and \<^verbatim>\<open>std::copy\<close>.\<close>

definition load_block :: "buffer \<Rightarrow> size_t \<Rightarrow> size_t \<Rightarrow> byte list result" where
  "load_block b off len =
     (if unat off + unat len \<le> length (vec b)
      then Inr (segment (unat off) (unat off + unat len) (vec b)) else Inl OutOfBounds)"

definition retrieveAsString :: "buffer \<Rightarrow> (byte list \<times> buffer) result" where
  "retrieveAsString b =
     rbind (load_block b (peek b) (readableBytes b)) (\<lambda>str.
     rbind (retrieveAll b) (\<lambda>b'. Inr (str, b')))"

definition hasWritten :: "size_t \<Rightarrow> buffer \<Rightarrow> buffer" where
  "hasWritten len b = b\<lparr>writerIndex := writerIndex b + len\<rparr>"

text \<open>\<^verbatim>\<open>std::copy\<close> inside one vector, element by element, from \<open>[i, j)\<close> to \<open>d\<close>.\<close>

function copy_within :: "nat \<Rightarrow> nat \<Rightarrow> nat \<Rightarrow> 'a list \<Rightarrow> 'a list" where
  "copy_within i j d xs =
     (if i < j then copy_within (Suc i) j (Suc d) (xs[d := xs ! i]) else xs)"
  by pat_completeness auto
termination
  by (relation "measure (\<lambda>(i, j, d, xs). j - i)") auto

declare copy_within.simps [simp del]

text \<open>\<^verbatim>\<open>std::copy\<close> of a block from elsewhere into the vector at an offset.\<close>

definition store_at :: "size_t \<Rightarrow> byte list \<Rightarrow> byte list \<Rightarrow> byte list result" where
  "store_at off ys xs =
     (if unat off + length ys \<le> length xs then Inr (store_block (unat off) ys xs)
      else Inl OutOfBounds)"

definition resize :: "size_t \<Rightarrow> byte list \<Rightarrow> byte list result" where
  "resize n xs =
     (if unat n \<le> max_size then Inr (take (unat n) xs @ replicate (unat n - length xs) 0)
      else Inl LengthError)"

definition move_front :: "buffer \<Rightarrow> buffer result" where
  "move_front b =
     (let readable = readableBytes b in
      rbind (check (unat (writerIndex b) \<le> length (vec b)) OutOfBounds) (\<lambda>_.
      let b' = b\<lparr>vec := copy_within (unat (readerIndex b)) (unat (writerIndex b))
                                (unat kCheapPrepend) (vec b),
                 readerIndex := kCheapPrepend,
                 writerIndex := kCheapPrepend + readable\<rparr>
      in rbind (check (readable = readableBytes b') AssertFailure) (\<lambda>_. Inr b')))"

definition ensureWritableBytes :: "size_t \<Rightarrow> buffer \<Rightarrow> buffer result" where
  "ensureWritableBytes len b =
     rbind
       (if writableBytes b < len then
          if writableBytes b + prependableBytes b < len then
            rbind (resize (writerIndex b + len) (vec b)) (\<lambda>v. Inr (b\<lparr>vec := v\<rparr>))
          else
            rbind (check (kCheapPrepend < readerIndex b) AssertFailure) (\<lambda>_. move_front b)
        else Inr b)
       (\<lambda>b'. rbind (check (len \<le> writableBytes b') AssertFailure) (\<lambda>_. Inr b'))"

definition append_buffer :: "byte list \<Rightarrow> buffer \<Rightarrow> buffer result" where
  "append_buffer str b =
     (let len = word_of_nat (length str) in
      rbind (ensureWritableBytes len b) (\<lambda>b'.
      rbind (store_at (beginWrite b') str (vec b')) (\<lambda>v.
        Inr (hasWritten len (b'\<lparr>vec := v\<rparr>)))))"

definition prepend :: "byte list \<Rightarrow> buffer \<Rightarrow> buffer result" where
  "prepend data b =
     (let len = word_of_nat (length data) in
      rbind (check (len \<le> prependableBytes b) AssertFailure) (\<lambda>_.
      let b' = b\<lparr>readerIndex := readerIndex b - len\<rparr> in
      rbind (store_at (readerIndex b') data (vec b')) (\<lambda>v. Inr (b'\<lparr>vec := v\<rparr>))))"

definition shrink :: "size_t \<Rightarrow> buffer \<Rightarrow> buffer result" where
  "shrink reserve b =
     rbind (resize (kCheapPrepend + readableBytes b + reserve) []) (\<lambda>buf.
     rbind (load_block b (peek b) (readableBytes b)) (\<lambda>src.
     rbind (store_at kCheapPrepend src buf) (\<lambda>buf'.
       Inr (b\<lparr>vec := buf'\<rparr>))))"

text \<open>
  What \<^verbatim>\<open>readv\<close> reports: an error number, or the bytes it placed in the two blocks.
\<close>

datatype sysread = ReadErr int | ReadData "byte list"

definition extrabuf_size :: nat where
  "extrabuf_size = 65536"

text \<open>
  The contract of \<^verbatim>\<open>readv\<close> with the two blocks of \<^verbatim>\<open>readFd\<close>: no more bytes than they hold.
\<close>

definition readv_ok :: "buffer \<Rightarrow> sysread \<Rightarrow> bool" where
  "readv_ok b r \<longleftrightarrow> (case r of ReadErr _ \<Rightarrow> True
     | ReadData data \<Rightarrow> length data \<le> unat (writableBytes b) + extrabuf_size)"

text \<open>\<^verbatim>\<open>readFd\<close> returns the count (-1 on error), the saved error number (0 if none) and the buffer.\<close>

definition readFd :: "sysread \<Rightarrow> buffer \<Rightarrow> (int \<times> int \<times> buffer) result" where
  "readFd r b =
     (case r of
        ReadErr e \<Rightarrow> Inr (-1, e, b)
      | ReadData data \<Rightarrow>
          let writable = unat (writableBytes b); n = length data in
          rbind (store_at (beginWrite b) (take writable data) (vec b)) (\<lambda>v.
          let b1 = b\<lparr>vec := v\<rparr>; extrabuf = drop writable data in
          if n \<le> writable then
            Inr (int n, 0, b1\<lparr>writerIndex := writerIndex b1 + word_of_nat n\<rparr>)
          else
            rbind (append_buffer extrabuf (b1\<lparr>writerIndex := size_of b1\<rparr>)) (\<lambda>b2.
              Inr (int n, 0, b2))))"

section \<open>Invariant and contents\<close>

text \<open>The picture at the head of \<^verbatim>\<open>Buffer.h\<close>: \<open>0 \<le> readerIndex \<le> writerIndex \<le> size()\<close>.\<close>

definition buf_inv :: "buffer \<Rightarrow> bool" where
  "buf_inv b \<longleftrightarrow> unat (readerIndex b) \<le> unat (writerIndex b) \<and>
     unat (writerIndex b) \<le> length (vec b) \<and> length (vec b) \<le> max_size"

definition readable :: "buffer \<Rightarrow> byte list" where
  "readable b = segment (unat (readerIndex b)) (unat (writerIndex b)) (vec b)"

text \<open>When appending \<open>n\<close> bytes does not abort.\<close>

definition append_ok :: "nat \<Rightarrow> buffer \<Rightarrow> bool" where
  "append_ok n b \<longleftrightarrow>
     (let w = length (vec b) - unat (writerIndex b); r = unat (readerIndex b) in
      n \<le> w \<or> (w + r < n \<and> unat (writerIndex b) + n \<le> max_size) \<or> (8 < r \<and> n \<le> w + (r - 8)))"

text \<open>
  The operations as data, and the queue of bytes they are meant to implement. The pointer
  argument of \<^verbatim>\<open>retrieveUntil\<close> has no counterpart in a queue; that operation is treated on its
  own.
\<close>

datatype buf_op =
    Retrieve size_t
  | RetrieveAll
  | RetrieveAsString
  | Append "byte list"
  | EnsureWritable size_t
  | Prepend "byte list"
  | ReadFd sysread

fun buf_step :: "buf_op \<Rightarrow> buffer \<Rightarrow> buffer result" where
  "buf_step (Retrieve n) b = retrieve n b"
| "buf_step RetrieveAll b = retrieveAll b"
| "buf_step RetrieveAsString b = rbind (retrieveAsString b) (\<lambda>(_, b'). Inr b')"
| "buf_step (Append xs) b = append_buffer xs b"
| "buf_step (EnsureWritable n) b = ensureWritableBytes n b"
| "buf_step (Prepend xs) b = prepend xs b"
| "buf_step (ReadFd r) b = rbind (readFd r b) (\<lambda>(_, _, b'). Inr b')"

fun queue_step :: "buf_op \<Rightarrow> byte list \<Rightarrow> byte list" where
  "queue_step (Retrieve n) q = drop (unat n) q"
| "queue_step RetrieveAll q = []"
| "queue_step RetrieveAsString q = []"
| "queue_step (Append xs) q = q @ xs"
| "queue_step (EnsureWritable n) q = q"
| "queue_step (Prepend xs) q = xs @ q"
| "queue_step (ReadFd r) q = (case r of ReadErr _ \<Rightarrow> q | ReadData data \<Rightarrow> q @ data)"

text \<open>Blocks that exist in memory are no longer than \<open>max_size\<close>.\<close>

fun op_small :: "buf_op \<Rightarrow> bool" where
  "op_small (Append xs) = (length xs \<le> max_size)"
| "op_small (EnsureWritable n) = (unat n \<le> max_size)"
| "op_small (Prepend xs) = (length xs \<le> max_size)"
| "op_small (ReadFd (ReadData data)) = (length data \<le> max_size)"
| "op_small _ = True"

section \<open>Sizes under the invariant\<close>

lemma buf_inv_small: "buf_inv b \<Longrightarrow> length (vec b) < 2 ^ 63"
  by (simp add: buf_inv_def max_size_def)

lemma unat_size_of: "buf_inv b \<Longrightarrow> unat (size_of b) = length (vec b)"
  unfolding size_of_def using buf_inv_small [of b] by (intro unat_of_length) simp

lemma unat_readableBytes: "buf_inv b \<Longrightarrow> unat (readableBytes b) = unat (writerIndex b) - unat (readerIndex b)"
  by (simp add: readableBytes_def buf_inv_def unat_sub_size)

lemma unat_writableBytes: "buf_inv b \<Longrightarrow> unat (writableBytes b) = length (vec b) - unat (writerIndex b)"
  by (simp add: writableBytes_def unat_sub_size unat_size_of) (simp add: buf_inv_def unat_sub_size unat_size_of)

lemma length_readable: "buf_inv b \<Longrightarrow> length (readable b) = unat (readableBytes b)"
  by (simp add: unat_readableBytes) (simp add: readable_def buf_inv_def)

lemma readable_bound: "buf_inv b \<Longrightarrow> length (readable b) \<le> max_size"
  by (simp add: length_readable unat_readableBytes) (auto simp: buf_inv_def)

lemma readableBytes_zero: "buf_inv b \<Longrightarrow> readableBytes b = 0 \<longleftrightarrow> readable b = []"
  by (metis length_0_conv length_readable unat_eq_zero)

lemma unat_kCheapPrepend [simp]: "unat kCheapPrepend = 8"
  by (simp add: kCheapPrepend_def)

lemma unat_writable_plus_prependable:
  assumes "buf_inv b"
  shows "unat (writableBytes b + prependableBytes b) =
           length (vec b) - unat (writerIndex b) + unat (readerIndex b)"
proof -
  have "unat (writableBytes b) + unat (readerIndex b) < 2 ^ 64"
    using assms buf_inv_small [OF assms] by (simp add: unat_writableBytes) (auto simp: buf_inv_def)
  then show ?thesis
    by (simp add: prependableBytes_def unat_add_size unat_writableBytes assms)
qed

section \<open>Moving bytes inside the vector\<close>

lemma length_copy_within [simp]: "length (copy_within i j d xs) = length xs"
proof (induction i j d xs rule: copy_within.induct)
  case (1 i j d xs)
  then show ?case by (simp add: copy_within.simps [of i j d xs])
qed

text \<open>
  Copying forwards to a lower position moves the block, although source and target may
  overlap: what is still to be read lies above what has been written.
\<close>

lemma copy_within_segment:
  assumes "d \<le> i" "i \<le> j" "j \<le> length xs"
  shows "copy_within i j d xs =
           take d xs @ segment i j xs @ drop (d + (j - i)) xs"
  using assms
proof (induction i j d xs rule: copy_within.induct)
  case (1 i j d xs)
  show ?case
  proof (cases "i < j")
    case True
    let ?ys = "xs[d := xs ! i]"
    have IH: "copy_within (Suc i) j (Suc d) ?ys =
        take (Suc d) ?ys @ segment (Suc i) j ?ys @ drop (Suc d + (j - Suc i)) ?ys"
      using "1.IH" True "1.prems" by simp
    have "take (Suc d) ?ys = take d xs @ [xs ! i]"
      using True "1.prems" by (simp add: take_Suc_conv_app_nth)
    moreover have "segment (Suc i) j ?ys = segment (Suc i) j xs"
      using "1.prems" by (simp add: segment_def)
    moreover have "drop (Suc d + (j - Suc i)) ?ys = drop (d + (j - i)) xs"
      using True "1.prems" by (simp add: Suc_diff_Suc)
    moreover have "segment i j xs = xs ! i # segment (Suc i) j xs"
      using True "1.prems" by (simp add: segment_Suc_front)
    ultimately show ?thesis
      using IH True by (simp add: copy_within.simps [of i j d xs])
  next
    case False
    with "1.prems" have "i = j" by simp
    then show ?thesis by (simp add: copy_within.simps [of j j d xs])
  qed
qed

lemma segment_copy_within:
  assumes "d \<le> i" "i \<le> j" "j \<le> length xs"
  shows "segment d (d + (j - i)) (copy_within i j d xs) = segment i j xs"
  using assms by (simp add: copy_within_segment) (simp add: segment_def)

section \<open>Making room\<close>

lemma move_front_correct:
  assumes inv: "buf_inv b" and r: "8 < unat (readerIndex b)"
  obtains b' where "move_front b = Inr b'" "buf_inv b'" "readable b' = readable b"
    "length (vec b') = length (vec b)" "unat (readerIndex b') = 8"
    "unat (writerIndex b') = 8 + length (readable b)"
proof -
  let ?n = "unat (writerIndex b) - unat (readerIndex b)"
  define b' where "b' = b\<lparr>vec := copy_within (unat (readerIndex b)) (unat (writerIndex b)) 8 (vec b),
    readerIndex := kCheapPrepend, writerIndex := kCheapPrepend + readableBytes b\<rparr>"
  have small: "8 + ?n < 2 ^ 64"
    using inv buf_inv_small [OF inv] by (auto simp: buf_inv_def)
  have w: "unat (writerIndex b') = 8 + ?n"
    using small by (simp add: b'_def unat_add_size unat_readableBytes inv)
  have r': "readableBytes b' = readableBytes b"
    by (simp add: readableBytes_def b'_def)
  have "move_front b = Inr b'"
    using inv r' by (simp add: move_front_def b'_def [symmetric] Let_def) (simp add: buf_inv_def)
  moreover have "buf_inv b'"
    using inv r w by (auto simp: buf_inv_def) (auto simp: b'_def)
  moreover have "readable b' = readable b"
    using inv r w segment_copy_within [of 8 "unat (readerIndex b)" "unat (writerIndex b)" "vec b"]
    by (simp add: readable_def buf_inv_def) (simp add: b'_def)
  moreover have "length (vec b') = length (vec b)" "unat (readerIndex b') = 8"
    by (simp_all add: b'_def)
  moreover have "unat (writerIndex b') = 8 + length (readable b)"
    by (simp add: w length_readable unat_readableBytes inv)
  ultimately show ?thesis by (rule that)
qed

lemma resize_grow:
  "length xs \<le> unat n \<Longrightarrow> unat n \<le> max_size \<Longrightarrow>
   resize n xs = Inr (xs @ replicate (unat n - length xs) 0)"
  by (simp add: resize_def)

text \<open>
  After \<open>ensureWritableBytes\<close> the contents are the same and the room is there, and a buffer
  that had its cheap prepend area still has it.
\<close>

definition makes_room :: "nat \<Rightarrow> buffer \<Rightarrow> buffer \<Rightarrow> bool" where
  "makes_room n b b' \<longleftrightarrow> buf_inv b' \<and> readable b' = readable b \<and>
     unat (writerIndex b') + n \<le> length (vec b') \<and>
     (8 \<le> unat (readerIndex b) \<longrightarrow> 8 \<le> unat (readerIndex b'))"

lemma ensureWritableBytes_resize:
  assumes inv: "buf_inv b"
    and gap: "length (vec b) - unat (writerIndex b) + unat (readerIndex b) < unat len"
    and fits: "unat (writerIndex b) + unat len \<le> max_size"
  shows "\<exists>b'. ensureWritableBytes len b = Inr b' \<and> makes_room (unat len) b b'"
proof -
  define b' where "b' = b\<lparr>vec := vec b @ replicate (unat (writerIndex b) + unat len - length (vec b)) 0\<rparr>"
  have sum: "unat (writerIndex b + len) = unat (writerIndex b) + unat len"
    using fits by (intro unat_add_size) (simp add: max_size_def)
  have len': "length (vec b') = unat (writerIndex b) + unat len"
    using inv gap by (auto simp: b'_def buf_inv_def)
  have inv': "buf_inv b'"
    using inv fits len' by (auto simp: buf_inv_def) (auto simp: b'_def)
  have "readable b' = readable b"
    using inv by (simp add: readable_def buf_inv_def b'_def)
  moreover have "resize (writerIndex b + len) (vec b) = Inr (vec b')"
    using fits gap inv by (subst resize_grow) (auto simp: sum b'_def buf_inv_def)
  moreover have "b\<lparr>vec := vec b'\<rparr> = b'" by (simp add: b'_def)
  moreover have "writableBytes b < len" "writableBytes b + prependableBytes b < len"
    using gap by (simp_all add: word_less_nat_alt unat_writableBytes unat_writable_plus_prependable inv)
  moreover have "len \<le> writableBytes b'"
    using len' by (simp add: word_le_nat_alt unat_writableBytes inv') (simp add: b'_def)
  ultimately have "ensureWritableBytes len b = Inr b'"
    by (simp add: ensureWritableBytes_def)
  moreover have "makes_room (unat len) b b'"
    using inv' len' \<open>readable b' = readable b\<close> by (simp add: makes_room_def) (simp add: b'_def)
  ultimately show ?thesis by blast
qed

lemma ensureWritableBytes_move:
  assumes inv: "buf_inv b"
    and full: "length (vec b) - unat (writerIndex b) < unat len"
    and r: "8 < unat (readerIndex b)"
    and fits: "unat len \<le> length (vec b) - unat (writerIndex b) + (unat (readerIndex b) - 8)"
  shows "\<exists>b'. ensureWritableBytes len b = Inr b' \<and> makes_room (unat len) b b'"
proof -
  obtain b' where b': "move_front b = Inr b'" "buf_inv b'" "readable b' = readable b"
    "length (vec b') = length (vec b)" "unat (readerIndex b') = 8"
    "unat (writerIndex b') = 8 + length (readable b)"
    using move_front_correct [OF inv r] .
  have room: "unat (writerIndex b') + unat len \<le> length (vec b')"
    using b' fits full r inv
    by (simp add: length_readable unat_readableBytes) (auto simp: buf_inv_def)
  have "writableBytes b < len" "\<not> writableBytes b + prependableBytes b < len"
    using full fits r by (simp_all add: word_less_nat_alt unat_writableBytes unat_writable_plus_prependable inv)
  moreover have "kCheapPrepend < readerIndex b" using r by (simp add: word_less_nat_alt)
  moreover have "len \<le> writableBytes b'"
    using room by (simp add: word_le_nat_alt unat_writableBytes b')
  ultimately have "ensureWritableBytes len b = Inr b'"
    using b'(1) by (simp add: ensureWritableBytes_def)
  moreover have "makes_room (unat len) b b'"
    using b' room by (simp add: makes_room_def)
  ultimately show ?thesis by blast
qed

lemma ensureWritableBytes_enough:
  assumes "buf_inv b" "unat len \<le> length (vec b) - unat (writerIndex b)"
  shows "ensureWritableBytes len b = Inr b" "makes_room (unat len) b b"
  using assms
  by (simp_all add: ensureWritableBytes_def word_less_nat_alt word_le_nat_alt unat_writableBytes
        makes_room_def) (auto simp: buf_inv_def)

lemma ensureWritableBytes_ok:
  assumes "buf_inv b" "append_ok (unat len) b"
  shows "\<exists>b'. ensureWritableBytes len b = Inr b' \<and> makes_room (unat len) b b'"
proof (cases "unat len \<le> length (vec b) - unat (writerIndex b)")
  case True
  with assms show ?thesis using ensureWritableBytes_enough by blast
next
  case False
  then consider
      "length (vec b) - unat (writerIndex b) + unat (readerIndex b) < unat len"
      "unat (writerIndex b) + unat len \<le> max_size"
    | "8 < unat (readerIndex b)"
      "unat len \<le> length (vec b) - unat (writerIndex b) + (unat (readerIndex b) - 8)"
    using assms(2) by (auto simp: append_ok_def Let_def)
  then show ?thesis
    using ensureWritableBytes_resize ensureWritableBytes_move assms(1) False by cases auto
qed

lemma ensureWritableBytes_abort:
  assumes inv: "buf_inv b" and no: "\<not> append_ok (unat len) b" and small: "unat len \<le> max_size"
  shows "\<exists>e. ensureWritableBytes len b = Inl e"
proof (cases "length (vec b) - unat (writerIndex b) + unat (readerIndex b) < unat len")
  case True
  have "unat (writerIndex b) + unat len < 2 ^ 64"
    using inv small by (auto simp: buf_inv_def max_size_def)
  then have "unat (writerIndex b + len) = unat (writerIndex b) + unat len"
    by (rule unat_add_size)
  moreover have "max_size < unat (writerIndex b) + unat len"
    using no True by (auto simp: append_ok_def Let_def)
  ultimately have "resize (writerIndex b + len) (vec b) = Inl LengthError"
    by (simp add: resize_def)
  with True show ?thesis
    by (simp add: ensureWritableBytes_def word_less_nat_alt unat_writableBytes
          unat_writable_plus_prependable inv)
next
  case False
  have full: "length (vec b) - unat (writerIndex b) < unat len"
    using no by (auto simp: append_ok_def Let_def)
  have neg: "\<not> writableBytes b + prependableBytes b < len" "writableBytes b < len"
    using False full
    by (simp_all add: word_less_nat_alt unat_writableBytes unat_writable_plus_prependable inv)
  show ?thesis
  proof (cases "8 < unat (readerIndex b)")
    case True
    obtain b' where b': "move_front b = Inr b'" "buf_inv b'" "length (vec b') = length (vec b)"
      "unat (writerIndex b') = 8 + length (readable b)"
      using move_front_correct [OF inv True] .
    have "length (vec b) - (8 + length (readable b)) < unat len"
      using no True inv by (simp add: append_ok_def Let_def length_readable unat_readableBytes)
        (auto simp: buf_inv_def)
    then have "\<not> len \<le> writableBytes b'"
      using b' by (simp add: word_le_nat_alt unat_writableBytes)
    with neg True b'(1) show ?thesis
      by (simp add: ensureWritableBytes_def word_less_nat_alt)
  next
    case r: False
    with neg show ?thesis by (simp add: ensureWritableBytes_def word_less_nat_alt)
  qed
qed

section \<open>The operations on the contents\<close>

lemma retrieve_correct:
  assumes "buf_inv b" "unat n \<le> length (readable b)"
  obtains b' where "retrieve n b = Inr b'" "buf_inv b'" "readable b' = drop (unat n) (readable b)"
    "unat (readerIndex b') = unat (readerIndex b) + unat n" "writerIndex b' = writerIndex b"
    "vec b' = vec b"
proof -
  let ?b = "b\<lparr>readerIndex := readerIndex b + n\<rparr>"
  have le: "unat (readerIndex b) + unat n \<le> unat (writerIndex b)"
    using assms by (simp add: length_readable unat_readableBytes) (auto simp: buf_inv_def)
  have r: "unat (readerIndex b + n) = unat (readerIndex b) + unat n"
    using le assms buf_inv_small [OF assms(1)] by (intro unat_add_size) (auto simp: buf_inv_def)
  have "retrieve n b = Inr ?b"
    using assms by (simp add: retrieve_def word_le_nat_alt length_readable)
  moreover have "buf_inv ?b"
    using assms le r by (simp add: buf_inv_def)
  moreover have "readable ?b = drop (unat n) (readable b)"
    by (simp add: readable_def r segment_drop)
  ultimately show ?thesis using r that [of ?b] by simp
qed

lemma retrieve_too_much: "buf_inv b \<Longrightarrow> length (readable b) < unat n \<Longrightarrow> retrieve n b = Inl AssertFailure"
  by (simp add: retrieve_def word_le_nat_alt length_readable)

lemma retrieveAll_correct:
  assumes "buf_inv b"
  obtains b' where "retrieveAll b = Inr b'" "buf_inv b'" "readable b' = []"
    "readerIndex b' = writerIndex b" "writerIndex b' = writerIndex b" "vec b' = vec b"
proof -
  obtain b' where b': "retrieve (readableBytes b) b = Inr b'" "buf_inv b'"
    "readable b' = drop (unat (readableBytes b)) (readable b)" "writerIndex b' = writerIndex b" "vec b' = vec b"
    using retrieve_correct [OF assms, of "readableBytes b"] by (auto simp: length_readable assms)
  moreover have "readerIndex b' = writerIndex b"
    using b'(1) by (auto simp: retrieve_def readableBytes_def)
  ultimately show ?thesis
    using that by (simp add: retrieveAll_def length_readable assms)
qed

lemma load_readable: "buf_inv b \<Longrightarrow> load_block b (peek b) (readableBytes b) = Inr (readable b)"
  by (simp add: load_block_def peek_def unat_readableBytes) (simp add: buf_inv_def readable_def)

lemma retrieveAsString_correct:
  assumes "buf_inv b"
  obtains b' where "retrieveAsString b = Inr (readable b, b')" "buf_inv b'" "readable b' = []"
    "writerIndex b' = writerIndex b" "vec b' = vec b"
proof -
  obtain b' where "retrieveAll b = Inr b'" "buf_inv b'" "readable b' = []"
    "writerIndex b' = writerIndex b" "vec b' = vec b"
    using retrieveAll_correct [OF assms] .
  then show ?thesis
    using that assms by (simp add: retrieveAsString_def load_readable)
qed

text \<open>Storing a block at the writer index and advancing it appends the block.\<close>

lemma store_and_advance:
  assumes inv: "buf_inv b" and room: "unat (writerIndex b) + length xs \<le> length (vec b)"
  obtains v where "store_at (beginWrite b) xs (vec b) = Inr v"
    "buf_inv (hasWritten (word_of_nat (length xs)) (b\<lparr>vec := v\<rparr>))"
    "readable (hasWritten (word_of_nat (length xs)) (b\<lparr>vec := v\<rparr>)) = readable b @ xs"
    "length v = length (vec b)"
    "unat (writerIndex b + word_of_nat (length xs)) = unat (writerIndex b) + length xs"
proof -
  define v where "v = store_block (unat (writerIndex b)) xs (vec b)"
  have small: "length xs < 2 ^ 64" "unat (writerIndex b) + length xs < 2 ^ 64"
    using room buf_inv_small [OF inv] by simp_all
  have w: "unat (writerIndex b + word_of_nat (length xs)) = unat (writerIndex b) + length xs"
    using small by (subst unat_add_size) (simp_all add: unat_of_length)
  have len: "length v = length (vec b)" using room by (simp add: v_def)
  have "store_at (beginWrite b) xs (vec b) = Inr v"
    using room by (simp add: store_at_def beginWrite_def v_def)
  moreover have "buf_inv (hasWritten (word_of_nat (length xs)) (b\<lparr>vec := v\<rparr>))"
    using inv room w len by (simp add: buf_inv_def hasWritten_def)
  moreover have "readable (hasWritten (word_of_nat (length xs)) (b\<lparr>vec := v\<rparr>)) = readable b @ xs"
  proof -
    have "segment (unat (readerIndex b)) (unat (writerIndex b) + length xs) v =
        segment (unat (readerIndex b)) (unat (writerIndex b)) v @
        segment (unat (writerIndex b)) (unat (writerIndex b) + length xs) v"
      using inv by (intro segment_split) (auto simp: buf_inv_def)
    then show ?thesis
      using room by (simp add: readable_def hasWritten_def w v_def)
  qed
  ultimately show ?thesis using len w by (rule that)
qed

lemma append_buffer_correct:
  assumes inv: "buf_inv b" and small: "length xs \<le> max_size" and ok: "append_ok (length xs) b"
  obtains b' where "append_buffer xs b = Inr b'" "buf_inv b'" "readable b' = readable b @ xs"
    "8 \<le> unat (readerIndex b) \<longrightarrow> 8 \<le> unat (readerIndex b')"
proof -
  have n: "unat (word_of_nat (length xs) :: size_t) = length xs"
    using small by (intro unat_of_length) (simp add: max_size_def)
  obtain b1 where b1: "ensureWritableBytes (word_of_nat (length xs)) b = Inr b1"
    "makes_room (length xs) b b1"
    using ensureWritableBytes_ok [OF inv, of "word_of_nat (length xs)"] ok by (auto simp: n)
  then have "buf_inv b1" "unat (writerIndex b1) + length xs \<le> length (vec b1)"
    by (simp_all add: makes_room_def)
  then obtain v where v: "store_at (beginWrite b1) xs (vec b1) = Inr v"
    "buf_inv (hasWritten (word_of_nat (length xs)) (b1\<lparr>vec := v\<rparr>))"
    "readable (hasWritten (word_of_nat (length xs)) (b1\<lparr>vec := v\<rparr>)) = readable b1 @ xs"
    by (rule store_and_advance)
  have "append_buffer xs b = Inr (hasWritten (word_of_nat (length xs)) (b1\<lparr>vec := v\<rparr>))"
    using b1(1) v(1) by (simp add: append_buffer_def Let_def)
  moreover have "readable b1 = readable b"
    "8 \<le> unat (readerIndex b) \<longrightarrow> 8 \<le> unat (readerIndex b1)"
    using b1(2) by (simp_all add: makes_room_def)
  moreover have "readerIndex (hasWritten (word_of_nat (length xs)) (b1\<lparr>vec := v\<rparr>)) = readerIndex b1"
    by (simp add: hasWritten_def)
  ultimately show ?thesis
    using v(2,3) that by metis
qed

lemma append_buffer_iff:
  assumes "buf_inv b" "length xs \<le> max_size"
  shows "(\<exists>b'. append_buffer xs b = Inr b') \<longleftrightarrow> append_ok (length xs) b"
proof
  assume "append_ok (length xs) b"
  then show "\<exists>b'. append_buffer xs b = Inr b'"
    using append_buffer_correct [OF assms] by blast
next
  assume ex: "\<exists>b'. append_buffer xs b = Inr b'"
  have n: "unat (word_of_nat (length xs) :: size_t) = length xs"
    using assms by (intro unat_of_length) (simp add: max_size_def)
  show "append_ok (length xs) b"
  proof (rule ccontr)
    assume "\<not> append_ok (length xs) b"
    then obtain e where "ensureWritableBytes (word_of_nat (length xs)) b = Inl e"
      using ensureWritableBytes_abort [OF assms(1), of "word_of_nat (length xs)"] assms(2)
      by (auto simp: n)
    with ex show False by (simp add: append_buffer_def Let_def)
  qed
qed

lemma append_buffer_contents:
  assumes "buf_inv b" "length xs \<le> max_size" "append_buffer xs b = Inr b'"
  shows "buf_inv b' \<and> readable b' = readable b @ xs"
proof -
  have "append_ok (length xs) b"
    using append_buffer_iff [OF assms(1,2)] assms(3) by blast
  then show ?thesis
    using append_buffer_correct [OF assms(1,2)] assms(3) by (metis sum.inject(2))
qed

lemma prepend_correct:
  assumes inv: "buf_inv b" and room: "length xs \<le> unat (readerIndex b)"
  obtains b' where "prepend xs b = Inr b'" "buf_inv b'" "readable b' = xs @ readable b"
proof -
  have small: "length xs < 2 ^ 64" using room inv buf_inv_small [OF inv] by (auto simp: buf_inv_def)
  let ?n = "word_of_nat (length xs) :: size_t"
  have n: "unat ?n = length xs" using small by (rule unat_of_length)
  have r: "unat (readerIndex b - ?n) = unat (readerIndex b) - length xs"
    using room by (simp add: unat_sub_size n)
  define v where "v = store_block (unat (readerIndex b) - length xs) xs (vec b)"
  define b' where "b' = b\<lparr>readerIndex := readerIndex b - ?n, vec := v\<rparr>"
  have fits: "unat (readerIndex b) - length xs + length xs \<le> length (vec b)"
    using inv room by (auto simp: buf_inv_def)
  have "prepend xs b = Inr b'"
    using room fits by (simp add: prepend_def Let_def prependableBytes_def word_le_nat_alt n
        store_at_def r v_def b'_def)
  moreover have "buf_inv b'"
    using inv room fits by (auto simp: buf_inv_def b'_def r v_def)
  moreover have "readable b' = xs @ readable b"
  proof -
    have "segment (unat (readerIndex b) - length xs) (unat (writerIndex b)) v =
        segment (unat (readerIndex b) - length xs) (unat (readerIndex b) - length xs + length xs) v @
        segment (unat (readerIndex b) - length xs + length xs) (unat (writerIndex b)) v"
      using inv room by (intro segment_split) (auto simp: buf_inv_def)
    moreover have "segment (unat (readerIndex b) - length xs)
        (unat (readerIndex b) - length xs + length xs) v = xs"
      unfolding v_def using fits by (rule segment_store_block_same)
    ultimately show ?thesis
      using fits room by (simp add: readable_def b'_def r v_def)
  qed
  ultimately show ?thesis by (rule that)
qed

lemma prepend_too_long:
  "buf_inv b \<Longrightarrow> length xs \<le> max_size \<Longrightarrow> unat (readerIndex b) < length xs \<Longrightarrow>
   prepend xs b = Inl AssertFailure"
  by (simp add: prepend_def Let_def prependableBytes_def word_le_nat_alt unat_of_length max_size_def)

section \<open>Reading from a descriptor\<close>

text \<open>Whether the bytes that did not fit into the writable area can be appended.\<close>

definition readFd_ok :: "sysread \<Rightarrow> buffer \<Rightarrow> bool" where
  "readFd_ok r b \<longleftrightarrow> (case r of ReadErr _ \<Rightarrow> True
     | ReadData data \<Rightarrow> length data \<le> unat (writableBytes b) \<or>
         append_ok (length data - unat (writableBytes b)) (b\<lparr>writerIndex := size_of b\<rparr>))"

lemma readFd_error: "readFd (ReadErr e) b = Inr (-1, e, b)"
  by (simp add: readFd_def)

text \<open>The state after the first block is full: the writer index is at the end.\<close>

lemma readFd_first_block:
  assumes inv: "buf_inv b" and len: "length xs = unat (writableBytes b)"
  obtains v where "store_at (beginWrite b) xs (vec b) = Inr v"
    "buf_inv (b\<lparr>vec := v, writerIndex := size_of (b\<lparr>vec := v\<rparr>)\<rparr>)"
    "readable (b\<lparr>vec := v, writerIndex := size_of (b\<lparr>vec := v\<rparr>)\<rparr>) = readable b @ xs"
    "length v = length (vec b)"
proof -
  have w: "length xs = length (vec b) - unat (writerIndex b)" "unat (writerIndex b) \<le> length (vec b)"
    using inv len by (simp_all add: unat_writableBytes buf_inv_def)
  obtain v where v: "store_at (beginWrite b) xs (vec b) = Inr v"
    "buf_inv (hasWritten (word_of_nat (length xs)) (b\<lparr>vec := v\<rparr>))"
    "readable (hasWritten (word_of_nat (length xs)) (b\<lparr>vec := v\<rparr>)) = readable b @ xs"
    "length v = length (vec b)"
    "unat (writerIndex b + word_of_nat (length xs)) = unat (writerIndex b) + length xs"
    using store_and_advance [OF inv, of xs] w by auto
  have "size_of (b\<lparr>vec := v\<rparr>) = writerIndex b + word_of_nat (length xs)"
    using v(4,5) w unat_size_of [OF inv] by (simp add: word_unat_eq_iff size_of_def)
  with v that show ?thesis by (simp add: hasWritten_def)
qed

lemma append_ok_vec_cong:
  "length v = length (vec b) \<Longrightarrow>
   append_ok n (b\<lparr>vec := v, writerIndex := size_of (b\<lparr>vec := v\<rparr>)\<rparr>) = append_ok n (b\<lparr>writerIndex := size_of b\<rparr>)"
  by (simp add: append_ok_def size_of_def)

lemma readFd_correct:
  assumes inv: "buf_inv b" and small: "length data \<le> max_size" and ok: "readFd_ok (ReadData data) b"
  obtains b' where "readFd (ReadData data) b = Inr (int (length data), 0, b')" "buf_inv b'"
    "readable b' = readable b @ data"
proof (cases "length data \<le> unat (writableBytes b)")
  case True
  then have "unat (writerIndex b) + length data \<le> length (vec b)"
    using inv by (simp add: unat_writableBytes) (auto simp: buf_inv_def)
  then obtain v where "store_at (beginWrite b) data (vec b) = Inr v"
    "buf_inv (hasWritten (word_of_nat (length data)) (b\<lparr>vec := v\<rparr>))"
    "readable (hasWritten (word_of_nat (length data)) (b\<lparr>vec := v\<rparr>)) = readable b @ data"
    by (rule store_and_advance [OF inv])
  with True that show ?thesis by (simp add: readFd_def Let_def hasWritten_def)
next
  case False
  let ?w = "unat (writableBytes b)"
  obtain v where v: "store_at (beginWrite b) (take ?w data) (vec b) = Inr v"
    "buf_inv (b\<lparr>vec := v, writerIndex := size_of (b\<lparr>vec := v\<rparr>)\<rparr>)"
    "readable (b\<lparr>vec := v, writerIndex := size_of (b\<lparr>vec := v\<rparr>)\<rparr>) = readable b @ take ?w data"
    "length v = length (vec b)"
    using readFd_first_block [OF inv, of "take ?w data"] False by auto
  have "append_ok (length (drop ?w data)) (b\<lparr>vec := v, writerIndex := size_of (b\<lparr>vec := v\<rparr>)\<rparr>)"
    using ok False v(4) by (simp add: readFd_ok_def append_ok_vec_cong)
  moreover have "length (drop ?w data) \<le> max_size" using small by simp
  ultimately obtain b' where b': "append_buffer (drop ?w data) (b\<lparr>vec := v, writerIndex := size_of (b\<lparr>vec := v\<rparr>)\<rparr>) = Inr b'"
    using append_buffer_iff [OF v(2)] by blast
  have "buf_inv b' \<and> readable b' = readable b @ data"
    using append_buffer_contents [OF v(2) _ b'] small v(3) by simp
  with b' False v(1) that show ?thesis by (simp add: readFd_def Let_def)
qed

lemma readFd_abort:
  assumes inv: "buf_inv b" and small: "length data \<le> max_size" and no: "\<not> readFd_ok (ReadData data) b"
  shows "\<exists>e. readFd (ReadData data) b = Inl e"
proof -
  let ?w = "unat (writableBytes b)"
  have big: "\<not> length data \<le> ?w"
    and no': "\<not> append_ok (length data - ?w) (b\<lparr>writerIndex := size_of b\<rparr>)"
    using no by (simp_all add: readFd_ok_def)
  obtain v where v: "store_at (beginWrite b) (take ?w data) (vec b) = Inr v"
    "buf_inv (b\<lparr>vec := v, writerIndex := size_of (b\<lparr>vec := v\<rparr>)\<rparr>)" "length v = length (vec b)"
    using readFd_first_block [OF inv, of "take ?w data"] big by auto
  have "\<nexists>b'. append_buffer (drop ?w data) (b\<lparr>vec := v, writerIndex := size_of (b\<lparr>vec := v\<rparr>)\<rparr>) = Inr b'"
    using append_buffer_iff [OF v(2), of "drop ?w data"] small no' v(3) by (simp add: append_ok_vec_cong)
  then obtain e where "append_buffer (drop ?w data) (b\<lparr>vec := v, writerIndex := size_of (b\<lparr>vec := v\<rparr>)\<rparr>) = Inl e"
    by (metis sum.exhaust)
  with big v(1) show ?thesis by (simp add: readFd_def Let_def)
qed

lemma readFd_contents:
  assumes "buf_inv b" "length data \<le> max_size" "readFd (ReadData data) b = Inr (n, e, b')"
  shows "n = int (length data) \<and> e = 0 \<and> buf_inv b' \<and> readable b' = readable b @ data"
proof -
  have "readFd_ok (ReadData data) b"
    using readFd_abort [OF assms(1,2)] assms(3) by auto
  then obtain b1 where "readFd (ReadData data) b = Inr (int (length data), 0, b1)" "buf_inv b1"
    "readable b1 = readable b @ data"
    by (rule readFd_correct [OF assms(1,2)])
  with assms(3) show ?thesis by simp
qed

section \<open>The buffer as a queue of bytes\<close>

text \<open>What a client of the output side of a buffer relies on.\<close>

locale byte_queue =
  fixes invar :: "'b \<Rightarrow> bool"
    and contents :: "'b \<Rightarrow> byte list"
    and put :: "byte list \<Rightarrow> 'b \<Rightarrow> 'b result"
    and discard :: "size_t \<Rightarrow> 'b \<Rightarrow> 'b result"
  assumes put_law: "invar b \<Longrightarrow> length xs \<le> max_size \<Longrightarrow> put xs b = Inr b' \<Longrightarrow>
      invar b' \<and> contents b' = contents b @ xs"
    and discard_law: "invar b \<Longrightarrow> unat n \<le> length (contents b) \<Longrightarrow>
      \<exists>b'. discard n b = Inr b' \<and> invar b' \<and> contents b' = drop (unat n) (contents b)"
    and discard_guard: "invar b \<Longrightarrow> length (contents b) < unat n \<Longrightarrow> discard n b = Inl AssertFailure"
    and contents_bound: "invar b \<Longrightarrow> length (contents b) \<le> max_size"
begin

lemma discardD:
  assumes "invar b" "discard n b = Inr b'"
  shows "unat n \<le> length (contents b)" "invar b'" "contents b' = drop (unat n) (contents b)"
proof -
  show le: "unat n \<le> length (contents b)"
    using discard_guard [OF assms(1), of n] assms(2) by (cases "length (contents b) < unat n") auto
  show "invar b'" "contents b' = drop (unat n) (contents b)"
    using discard_law [OF assms(1) le] assms(2) by auto
qed

text \<open>Handing over the first \<open>n\<close> bytes and then discarding them loses and repeats nothing.\<close>

lemma handover:
  assumes "invar b" "discard n b = Inr b'"
  shows "sent @ contents b = (sent @ take (unat n) (contents b)) @ contents b'"
  using discardD [OF assms] by simp

text \<open>Bytes put in behind others come out behind them.\<close>

lemma put_then_discard:
  assumes "invar b" "length xs \<le> max_size" "put xs b = Inr b1"
    "unat n = length (contents b)" "discard n b1 = Inr b2"
  shows "contents b2 = xs"
  using put_law [OF assms(1-3)] discardD [of b1 n b2] assms(4,5) by simp

end

interpretation bq: byte_queue buf_inv readable append_buffer retrieve
proof unfold_locales
  fix b b' :: buffer and xs :: "byte list"
  assume "buf_inv b" "length xs \<le> max_size" "append_buffer xs b = Inr b'"
  then show "buf_inv b' \<and> readable b' = readable b @ xs" by (rule append_buffer_contents)
next
  fix b :: buffer and n :: size_t
  assume "buf_inv b" "unat n \<le> length (readable b)"
  then show "\<exists>b'. retrieve n b = Inr b' \<and> buf_inv b' \<and> readable b' = drop (unat n) (readable b)"
    by (rule retrieve_correct) blast
qed (simp_all add: retrieve_too_much readable_bound)

lemma ensureWritableBytes_contents:
  assumes "buf_inv b" "unat n \<le> max_size" "ensureWritableBytes n b = Inr b'"
  shows "makes_room (unat n) b b'"
proof -
  have "append_ok (unat n) b"
    using ensureWritableBytes_abort [OF assms(1) _ assms(2)] assms(3) by auto
  with ensureWritableBytes_ok [OF assms(1), of n] assms(3) show ?thesis by auto
qed

lemma prepend_contents:
  assumes "buf_inv b" "length xs \<le> max_size" "prepend xs b = Inr b'"
  shows "buf_inv b' \<and> readable b' = xs @ readable b"
proof (cases "length xs \<le> unat (readerIndex b)")
  case True
  then obtain b1 where "prepend xs b = Inr b1" "buf_inv b1" "readable b1 = xs @ readable b"
    by (rule prepend_correct [OF assms(1)])
  with assms(3) show ?thesis by simp
next
  case False
  with prepend_too_long [OF assms(1,2)] assms(3) show ?thesis by simp
qed

text \<open>One operation is one operation of the queue.\<close>

lemma buf_step_refines:
  assumes inv: "buf_inv b" and small: "op_small op" and ret: "buf_step op b = Inr b'"
  shows "buf_inv b' \<and> readable b' = queue_step op (readable b)"
proof (cases op)
  case (Retrieve n)
  with bq.discardD [OF inv] ret show ?thesis by auto
next
  case RetrieveAll
  obtain b1 where "retrieveAll b = Inr b1" "buf_inv b1" "readable b1 = []"
    using retrieveAll_correct [OF inv] .
  with RetrieveAll ret show ?thesis by simp
next
  case RetrieveAsString
  obtain b1 where "retrieveAsString b = Inr (readable b, b1)" "buf_inv b1" "readable b1 = []"
    using retrieveAsString_correct [OF inv] .
  with RetrieveAsString ret show ?thesis by simp
next
  case (Append xs)
  with append_buffer_contents [OF inv] small ret show ?thesis by simp
next
  case (EnsureWritable n)
  with ensureWritableBytes_contents [OF inv] small ret show ?thesis by (simp add: makes_room_def)
next
  case (Prepend xs)
  with prepend_contents [OF inv] small ret show ?thesis by simp
next
  case (ReadFd r)
  then show ?thesis
    using readFd_contents [OF inv] small ret inv by (cases r) (auto simp: readFd_error)
qed

lemma append_buffer_reader:
  assumes "buf_inv b" "length xs \<le> max_size" "append_buffer xs b = Inr b'" "8 \<le> unat (readerIndex b)"
  shows "8 \<le> unat (readerIndex b')"
proof -
  have "append_ok (length xs) b" using append_buffer_iff [OF assms(1,2)] assms(3) by blast
  then obtain b1 where "append_buffer xs b = Inr b1" "8 \<le> unat (readerIndex b) \<longrightarrow> 8 \<le> unat (readerIndex b1)"
    by (rule append_buffer_correct [OF assms(1,2)])
  with assms(3,4) show ?thesis by simp
qed

lemma readFd_reader:
  assumes inv: "buf_inv b" and small: "length data \<le> max_size"
    and ret: "readFd (ReadData data) b = Inr (n, e, b')" and r: "8 \<le> unat (readerIndex b)"
  shows "8 \<le> unat (readerIndex b')"
proof (cases "length data \<le> unat (writableBytes b)")
  case True
  with ret r show ?thesis by (auto simp: readFd_def Let_def)
next
  case False
  let ?w = "unat (writableBytes b)"
  obtain v where v: "store_at (beginWrite b) (take ?w data) (vec b) = Inr v"
    "buf_inv (b\<lparr>vec := v, writerIndex := size_of (b\<lparr>vec := v\<rparr>)\<rparr>)"
    using readFd_first_block [OF inv, of "take ?w data"] False by auto
  have "append_buffer (drop ?w data) (b\<lparr>vec := v, writerIndex := size_of (b\<lparr>vec := v\<rparr>)\<rparr>) = Inr b'"
    using ret v(1) False by (simp add: readFd_def Let_def)
  then show ?thesis
    using append_buffer_reader [OF v(2), of "drop ?w data"] small r by simp
qed

lemma buf_step_reader:
  assumes inv: "buf_inv b" and small: "op_small op" and ret: "buf_step op b = Inr b'"
    and op: "\<nexists>xs. op = Prepend xs" and r: "8 \<le> unat (readerIndex b)"
  shows "8 \<le> unat (readerIndex b')"
proof (cases op)
  case (Retrieve n)
  then have "unat n \<le> length (readable b)" using bq.discardD [OF inv] ret by auto
  then obtain b1 where "retrieve n b = Inr b1" "unat (readerIndex b1) = unat (readerIndex b) + unat n"
    by (rule retrieve_correct [OF inv])
  with Retrieve ret r show ?thesis by simp
next
  case RetrieveAll
  obtain b1 where "retrieveAll b = Inr b1" "readerIndex b1 = writerIndex b"
    using retrieveAll_correct [OF inv] .
  with RetrieveAll ret r inv show ?thesis by (simp add: buf_inv_def)
next
  case RetrieveAsString
  obtain b1 where "retrieveAll b = Inr b1" "readerIndex b1 = writerIndex b"
    using retrieveAll_correct [OF inv] .
  with RetrieveAsString ret r inv show ?thesis
    by (simp add: retrieveAsString_def load_readable) (simp add: buf_inv_def)
next
  case (EnsureWritable n)
  with ensureWritableBytes_contents [OF inv] small ret r show ?thesis by (simp add: makes_room_def)
next
  case (Append xs)
  with append_buffer_reader [OF inv] small ret r show ?thesis by simp
next
  case (ReadFd rd)
  then show ?thesis
    using readFd_reader [OF inv] small ret r by (cases rd) (auto simp: readFd_error)
qed (use op in auto)

lemma Buffer_new_fresh:
  "Buffer_new = Inr \<lparr>vec = replicate 1032 0, readerIndex = 8, writerIndex = 8\<rparr>"
  by (simp add: Buffer_new_def Let_def kCheapPrepend_def kInitialSize_def readableBytes_def
        writableBytes_def prependableBytes_def size_of_def)

lemma Buffer_new_correct:
  assumes "Buffer_new = Inr b"
  shows "buf_inv b" "readable b = []" "length (vec b) = 1032" "unat (readerIndex b) = 8"
    "unat (writerIndex b) = 8"
  using assms by (auto simp: Buffer_new_fresh buf_inv_def readable_def max_size_def)

lemma buf_run_correct:
  assumes "rfold buf_step ops b = Inr b'" "buf_inv b" "\<forall>op\<in>set ops. op_small op"
  shows "buf_inv b' \<and> readable b' = fold queue_step ops (readable b)"
  using assms
proof (induction ops arbitrary: b)
  case (Cons op ops)
  then obtain b1 where "buf_step op b = Inr b1" "rfold buf_step ops b1 = Inr b'" by auto
  moreover from this have "buf_inv b1 \<and> readable b1 = queue_step op (readable b)"
    using buf_step_refines [of b op b1] Cons.prems by simp
  ultimately show ?case using Cons by simp
qed simp

lemma buf_run_reader:
  assumes "rfold buf_step ops b = Inr b'" "buf_inv b" "8 \<le> unat (readerIndex b)"
    "\<forall>op\<in>set ops. op_small op \<and> (\<nexists>xs. op = Prepend xs)"
  shows "buf_inv b' \<and> 8 \<le> unat (readerIndex b')"
  using assms
proof (induction ops arbitrary: b)
  case (Cons op ops)
  then obtain b1 where b1: "buf_step op b = Inr b1" "rfold buf_step ops b1 = Inr b'" by auto
  moreover have "buf_inv b1"
    using buf_step_refines Cons.prems b1(1) by auto
  moreover have "8 \<le> unat (readerIndex b1)"
    using buf_step_reader [of b op b1] Cons.prems b1(1) by auto
  ultimately show ?case using Cons by simp
qed simp

lemma shrink_layout:
  assumes inv: "buf_inv b" and fits: "8 + length (readable b) + unat reserve \<le> max_size"
  shows "shrink reserve b = Inr (b\<lparr>vec := replicate 8 0 @ readable b @ replicate (unat reserve) 0\<rparr>)"
proof -
  let ?n = "length (readable b)"
  have "unat (kCheapPrepend + readableBytes b) = 8 + ?n"
    using fits by (subst unat_add_size) (simp_all add: length_readable inv max_size_def)
  then have "unat (kCheapPrepend + readableBytes b + reserve) = 8 + ?n + unat reserve"
    using fits by (subst unat_add_size) (simp_all add: max_size_def)
  then have "resize (kCheapPrepend + readableBytes b + reserve) [] = Inr (replicate (8 + ?n + unat reserve) 0)"
    using fits by (simp add: resize_def)
  moreover have "store_block 8 (readable b) (replicate (8 + ?n + unat reserve) 0) =
      replicate 8 0 @ readable b @ replicate (unat reserve) 0"
    by (simp add: store_block_def)
  ultimately show ?thesis
    using inv by (simp add: shrink_def load_readable store_at_def)
qed

text \<open>Where the room in front of the reader index is counted but cannot be used.\<close>

lemma append_buffer_gap:
  assumes inv: "buf_inv b" and r: "unat (readerIndex b) \<le> 8"
    and full: "length (vec b) - unat (writerIndex b) < length xs"
    and gap: "length xs \<le> length (vec b) - unat (writerIndex b) + unat (readerIndex b)"
  shows "append_buffer xs b = Inl AssertFailure"
proof -
  have "length xs < 2 ^ 64" using gap r buf_inv_small [OF inv] by simp
  then have n: "unat (word_of_nat (length xs) :: size_t) = length xs" by (rule unat_of_length)
  have "ensureWritableBytes (word_of_nat (length xs)) b = Inl AssertFailure"
    using full gap r n inv
    by (simp add: ensureWritableBytes_def word_less_nat_alt unat_writableBytes
          unat_writable_plus_prependable)
  then show ?thesis by (simp add: append_buffer_def Let_def)
qed

section \<open>Properties\<close>



text \<open>
  Appending to a well-formed buffer succeeds exactly when the bytes fit behind the
  writer index, or do not fit even together with everything in front of the reader index
  (then the vector grows), or fit once the contents are moved down to offset 8; when it
  succeeds, the bytes are added at the end and the buffer stays well-formed.
\<close>

theorem append_exact:
  assumes "buf_inv b" "length xs \<le> max_size"
  shows "((\<exists>b'. append_buffer xs b = Inr b') \<longleftrightarrow> append_ok (length xs) b) \<and>
    (\<forall>b'. append_buffer xs b = Inr b' \<longrightarrow> buf_inv b' \<and> readable b' = readable b @ xs)"
  using append_buffer_iff [OF assms] append_buffer_contents [OF assms] by blast

theorem append_exact_witness:
  "\<exists>b'. append_buffer [1, 2] \<lparr>vec = replicate 16 0, readerIndex = 8, writerIndex = 8\<rparr> = Inr b' \<and>
     buf_inv b' \<and> readable b' = [1, 2]"
proof -
  let ?b = "\<lparr>vec = replicate 16 0, readerIndex = 8, writerIndex = 8\<rparr> :: buffer"
  have "buf_inv ?b" "length [1, 2 :: byte] \<le> max_size" by (simp_all add: buf_inv_def max_size_def)
  note exact = append_exact [OF this]
  have "append_ok (length [1, 2 :: byte]) ?b" by (simp add: append_ok_def)
  moreover have "readable ?b = []" by (simp add: readable_def)
  ultimately show ?thesis using exact by auto
qed

text \<open>
  C40. The gap in \<^verbatim>\<open>ensureWritableBytes\<close>: on a newly constructed buffer, appending 1025 to 1032
  bytes, or reading that many bytes from a descriptor in one \<^verbatim>\<open>readFd\<close>, fails an assertion
  and aborts the process. The test for moving the data down counts the 8 bytes of the
  cheap prepend area as free although the move keeps them.
\<close>

theorem fresh_gap_aborts:
  assumes "Buffer_new = Inr b" "1024 < length xs" "length xs \<le> 1032"
  shows "append_buffer xs b = Inl AssertFailure \<and> readFd (ReadData xs) b = Inl AssertFailure"
proof -
  note new = Buffer_new_correct [OF assms(1)]
  have w: "unat (writableBytes b) = 1024" using new by (simp add: unat_writableBytes)
  have "append_buffer xs b = Inl AssertFailure"
    using new assms(2,3) by (intro append_buffer_gap) simp_all
  moreover have "readFd (ReadData xs) b = Inl AssertFailure"
  proof -
    have "length (take 1024 xs) = unat (writableBytes b)" using assms(2) w by simp
    then obtain v where v: "store_at (beginWrite b) (take 1024 xs) (vec b) = Inr v"
      "buf_inv (b\<lparr>vec := v, writerIndex := size_of (b\<lparr>vec := v\<rparr>)\<rparr>)" "length v = length (vec b)"
      by (rule readFd_first_block [OF new(1)])
    have "append_buffer (drop 1024 xs) (b\<lparr>vec := v, writerIndex := size_of (b\<lparr>vec := v\<rparr>)\<rparr>) = Inl AssertFailure"
      using new v assms(2,3) by (intro append_buffer_gap) (simp_all add: size_of_def)
    with v(1) assms(2) w show ?thesis by (simp add: readFd_def Let_def)
  qed
  ultimately show ?thesis ..
qed

theorem fresh_gap_aborts_witness:
  "\<exists>b. Buffer_new = Inr b \<and> append_buffer (replicate 1025 0) b = Inl AssertFailure \<and>
     readFd (ReadData (replicate 1025 0)) b = Inl AssertFailure"
  using fresh_gap_aborts [of _ "replicate 1025 0"] by (simp add: Buffer_new_fresh)

text \<open>
  C29. \<^verbatim>\<open>readFd\<close> on a well-formed buffer either appends exactly the bytes \<^verbatim>\<open>readv\<close> delivered,
  returns their number and keeps the buffer well-formed, or aborts; it aborts exactly when
  the overflow beyond the writable area cannot be appended. On an error of \<^verbatim>\<open>readv\<close> it
  returns -1, hands the error number to the caller and leaves the buffer alone.
\<close>

theorem readFd_exact:
  assumes "buf_inv b" "length data \<le> max_size"
  shows "(if readFd_ok (ReadData data) b
          then \<exists>b'. readFd (ReadData data) b = Inr (int (length data), 0, b') \<and> buf_inv b' \<and>
                    readable b' = readable b @ data
          else \<exists>e. readFd (ReadData data) b = Inl e) \<and>
         readFd (ReadErr e) b = Inr (-1, e, b)"
proof (cases "readFd_ok (ReadData data) b")
  case True
  then obtain b' where "readFd (ReadData data) b = Inr (int (length data), 0, b')" "buf_inv b'"
    "readable b' = readable b @ data"
    by (rule readFd_correct [OF assms])
  with True show ?thesis by (simp add: readFd_error)
next
  case False
  with readFd_abort [OF assms] show ?thesis by (simp add: readFd_error)
qed

theorem readFd_exact_witness:
  "\<exists>b'. readFd (ReadData [1, 2, 3]) \<lparr>vec = replicate 10 0, readerIndex = 0, writerIndex = 8\<rparr> =
     Inr (3, 0, b') \<and> buf_inv b' \<and> readable b' = replicate 8 0 @ [1, 2, 3]"
proof -
  let ?b = "\<lparr>vec = replicate 10 0, readerIndex = 0, writerIndex = 8\<rparr> :: buffer"
  have "buf_inv ?b" "length [1, 2, 3 :: byte] \<le> max_size" by (simp_all add: buf_inv_def max_size_def)
  note exact = readFd_exact [OF this]
  have "readFd_ok (ReadData [1, 2, 3]) ?b"
    by (simp add: readFd_ok_def writableBytes_def size_of_def append_ok_def max_size_def)
  moreover have "readable ?b = replicate 8 0" by (simp add: readable_def segment_def)
  ultimately show ?thesis using exact by simp
qed

text \<open>
  \<^verbatim>\<open>shrink\<close> lays the readable bytes out at offset 8 of a new vector with the requested
  reserve, but leaves both indices as they were. So the contents survive when the reader
  index is 8, and the buffer is still well-formed afterwards only if the reader index was
  at most 8 plus the reserve.
\<close>

theorem shrink_keeps_indices:
  assumes "buf_inv b" "8 + length (readable b) + unat reserve \<le> max_size"
  shows "\<exists>b'. shrink reserve b = Inr b' \<and>
    vec b' = replicate 8 0 @ readable b @ replicate (unat reserve) 0 \<and>
    readerIndex b' = readerIndex b \<and> writerIndex b' = writerIndex b \<and>
    (readerIndex b = 8 \<longrightarrow> readable b' = readable b) \<and>
    (buf_inv b' \<longleftrightarrow> unat (readerIndex b) \<le> 8 + unat reserve)"
proof -
  let ?b = "b\<lparr>vec := replicate 8 0 @ readable b @ replicate (unat reserve) 0\<rparr>"
  have len: "length (readable b) = unat (writerIndex b) - unat (readerIndex b)"
    by (simp add: length_readable unat_readableBytes assms(1))
  have "unat (writerIndex b) = 8 + length (readable b)" if "readerIndex b = 8"
    using assms(1) that by (simp add: len) (simp add: buf_inv_def)
  then have "readable ?b = readable b" if "readerIndex b = 8"
    using that by (simp add: readable_def [of ?b] segment_def)
  moreover have "buf_inv ?b \<longleftrightarrow> unat (readerIndex b) \<le> 8 + unat reserve"
    using assms len by (auto simp: buf_inv_def)
  ultimately show ?thesis using shrink_layout [OF assms] by simp
qed

theorem shrink_keeps_indices_witness:
  "\<exists>b'. shrink 0 \<lparr>vec = replicate 20 0, readerIndex = 12, writerIndex = 14\<rparr> = Inr b' \<and>
     \<not> buf_inv b' \<and> length (vec b') = 10 \<and> writerIndex b' = 14"
proof -
  let ?b = "\<lparr>vec = replicate 20 0, readerIndex = 12, writerIndex = 14\<rparr> :: buffer"
  have "buf_inv ?b" by (simp add: buf_inv_def max_size_def)
  moreover have "readable ?b = replicate 2 0" by (simp add: readable_def segment_def)
  ultimately show ?thesis
    using shrink_keeps_indices [of ?b 0] by (auto simp: max_size_def)
qed

text \<open>
  The cheap prepend area is always there: after any sequence of operations other than
  prepend on a newly constructed buffer, up to 8 bytes can be put in front of the contents
  without moving them and without an assertion failing.
\<close>

theorem cheap_prepend_available:
  assumes "Buffer_new = Inr b0" "rfold buf_step ops b0 = Inr b"
    "\<forall>op\<in>set ops. op_small op \<and> (\<nexists>xs. op = Prepend xs)" "length xs \<le> 8"
  shows "\<exists>b'. prepend xs b = Inr b' \<and> buf_inv b' \<and> readable b' = xs @ fold queue_step ops []"
proof -
  note new = Buffer_new_correct [OF assms(1)]
  have "buf_inv b \<and> 8 \<le> unat (readerIndex b)"
    using buf_run_reader [OF assms(2) new(1) _ assms(3)] new(4) by simp
  then have "buf_inv b" "length xs \<le> unat (readerIndex b)" using assms(4) by auto
  then obtain b' where "prepend xs b = Inr b'" "buf_inv b'" "readable b' = xs @ readable b"
    by (rule prepend_correct)
  moreover have "readable b = fold queue_step ops []"
    using buf_run_correct [OF assms(2) new(1)] assms(3) new(2) by simp
  ultimately show ?thesis by simp
qed

theorem cheap_prepend_available_witness:
  "\<exists>b0 b b'. Buffer_new = Inr b0 \<and> rfold buf_step [RetrieveAll] b0 = Inr b \<and>
     prepend [1, 2, 3, 4, 5, 6, 7, 8] b = Inr b' \<and> readable b' = [1, 2, 3, 4, 5, 6, 7, 8]"
proof -
  let ?b = "\<lparr>vec = replicate 1032 0, readerIndex = 8, writerIndex = 8\<rparr> :: buffer"
  have new: "Buffer_new = Inr ?b" by (rule Buffer_new_fresh)
  have run: "rfold buf_step [RetrieveAll] ?b = Inr ?b"
    by (simp add: retrieveAll_def retrieve_def readableBytes_def)
  obtain b' where "prepend [1, 2, 3, 4, 5, 6, 7, 8] ?b = Inr b'" "readable b' = [1, 2, 3, 4, 5, 6, 7, 8]"
    using cheap_prepend_available [OF new run, of "[1, 2, 3, 4, 5, 6, 7, 8]"] by auto
  with new run show ?thesis by blast
qed

end
