(* ===== verification/TcpConnection.thy ===== *)
theory TcpConnection
  imports Buffer EPoller
begin

text \<open>
  \<^verbatim>\<open>TcpConnection.h\<close> and \<^verbatim>\<open>TcpConnection.cc\<close>: one connection in the thread of its loop.

  The state of the connection extends that of the poller it is registered with, so that
  enabling and disabling events acts on the real registration. What \<^verbatim>\<open>read\<close> and \<^verbatim>\<open>write\<close> report is
  an argument. The callbacks of the user are all called last in the functions that call them
  (\<^verbatim>\<open>connectDestroyed\<close> apart, where the state is already \<^verbatim>\<open>kDisconnected\<close> and the connection
  ignores what a callback can ask of it), so that what a callback does is the next operations
  of a sequence, and calling it is an entry of \<open>calls\<close>.

  The fields from \<open>wire\<close> on record the history: the bytes the kernel has taken, the bytes
  given to \<^verbatim>\<open>sendInLoop\<close>, the bytes received and those the user took out, for each call of
  \<^verbatim>\<open>shutdownWrite\<close> the lengths of \<open>wire\<close> and \<open>accepted\<close>, and whether the connection was closed.
\<close>

section \<open>State\<close>

datatype conn_state = kConnecting | kConnected | kDisconnecting | kDisconnected

datatype conn_call =
    ConnectionCallback conn_state
  | MessageCallback timestamp
  | WriteCompleteCallback
  | CloseCallback

record ('cb, 'k) tcp_connection = "('cb, 'k) poller" +
  conn_state :: conn_state
  conn_channel :: addr
  inputBuffer :: buffer
  outputBuffer :: buffer
  hasConnectionCallback :: bool
  hasMessageCallback :: bool
  hasWriteCompleteCallback :: bool
  hasCloseCallback :: bool
  calls :: "conn_call list"
  wire :: "byte list"
  accepted :: "byte list"
  received :: "byte list"
  consumed :: "byte list"
  fins :: "(nat \<times> nat) list"
  closed :: bool

datatype syswrite = Wrote nat | WriteErr int

text \<open>What \<^verbatim>\<open>write\<close> promises for a block: not more bytes than it has.\<close>

definition write_ok :: "nat \<Rightarrow> syswrite \<Rightarrow> bool" where
  "write_ok len w \<longleftrightarrow> (case w of Wrote n \<Rightarrow> n \<le> len | WriteErr _ \<Rightarrow> True)"

section \<open>Operations\<close>

definition connectionCallback :: "('cb, 'k) tcp_connection \<Rightarrow> ('cb, 'k) tcp_connection result" where
  "connectionCallback s = rbind (check (hasConnectionCallback s) BadFunctionCall) (\<lambda>_.
     Inr (s\<lparr>calls := calls s @ [ConnectionCallback (conn_state s)]\<rparr>))"

definition TcpConnection_channel :: "addr \<Rightarrow> fd \<Rightarrow> 'cb \<Rightarrow> 'cb \<Rightarrow> 'cb \<Rightarrow> 'cb \<Rightarrow> 'cb channel" where
  "TcpConnection_channel loop sockfd onRead onWrite onClose onError =
     setErrorCallback onError (setCloseCallback onClose (setWriteCallback onWrite
       (setReadCallback onRead (Channel_new loop sockfd))))"

text \<open>The constructor, on the poller of its loop and with the address of the new channel.\<close>

definition TcpConnection_new :: "('cb, 'k) poller \<Rightarrow> addr \<Rightarrow> 'cb channel \<Rightarrow> ('cb, 'k) tcp_connection result" where
  "TcpConnection_new pl p c =
     rbind Buffer_new (\<lambda>input. rbind Buffer_new (\<lambda>output.
       Inr \<lparr>chan = (chan pl)(p \<mapsto> c), channels_ep = channels_ep pl, events_size = events_size pl,
         kernel = kernel pl, ownerLoop = ownerLoop pl, conn_state = kConnecting, conn_channel = p,
         inputBuffer = input, outputBuffer = output, hasConnectionCallback = False,
         hasMessageCallback = False, hasWriteCompleteCallback = False, hasCloseCallback = False,
         calls = [], wire = [], accepted = [], received = [], consumed = [], fins = [], closed = False\<rparr>))"

definition setConnectionCallback :: "('cb, 'k) tcp_connection \<Rightarrow> ('cb, 'k) tcp_connection" where
  "setConnectionCallback s = s\<lparr>hasConnectionCallback := True\<rparr>"

definition setMessageCallback :: "('cb, 'k) tcp_connection \<Rightarrow> ('cb, 'k) tcp_connection" where
  "setMessageCallback s = s\<lparr>hasMessageCallback := True\<rparr>"

definition setWriteCompleteCallback :: "('cb, 'k) tcp_connection \<Rightarrow> ('cb, 'k) tcp_connection" where
  "setWriteCompleteCallback s = s\<lparr>hasWriteCompleteCallback := True\<rparr>"

definition conn_setCloseCallback :: "('cb, 'k) tcp_connection \<Rightarrow> ('cb, 'k) tcp_connection" where
  "conn_setCloseCallback s = s\<lparr>hasCloseCallback := True\<rparr>"

definition connectEstablished :: "'k epoll_sys \<Rightarrow> bool \<Rightarrow>
    ('cb, 'k) tcp_connection \<Rightarrow> ('cb, 'k) tcp_connection result" where
  "connectEstablished sys inLoop s =
     rbind (check inLoop FatalLog) (\<lambda>_.
     rbind (check (conn_state s = kConnecting) AssertFailure) (\<lambda>_.
     rbind (Channel_request sys inLoop EnableReading (conn_channel s) (s\<lparr>conn_state := kConnected\<rparr>)) (\<lambda>s.
       connectionCallback s)))"

definition connectDestroyed :: "'k epoll_sys \<Rightarrow> bool \<Rightarrow>
    ('cb, 'k) tcp_connection \<Rightarrow> ('cb, 'k) tcp_connection result" where
  "connectDestroyed sys inLoop s =
     rbind (check inLoop FatalLog) (\<lambda>_.
     rbind (check (conn_state s = kConnected \<or> conn_state s = kDisconnecting) AssertFailure) (\<lambda>_.
     rbind (Channel_request sys inLoop DisableAll (conn_channel s)
         (s\<lparr>conn_state := kDisconnected, closed := True\<rparr>)) (\<lambda>s.
     rbind (connectionCallback s) (\<lambda>s.
       EventLoop_removeChannel sys inLoop (conn_channel s) s))))"

definition conn_handleClose :: "'k epoll_sys \<Rightarrow> bool \<Rightarrow>
    ('cb, 'k) tcp_connection \<Rightarrow> ('cb, 'k) tcp_connection result" where
  "conn_handleClose sys inLoop s =
     rbind (check inLoop FatalLog) (\<lambda>_.
     rbind (check (conn_state s = kConnected \<or> conn_state s = kDisconnecting) AssertFailure) (\<lambda>_.
     rbind (Channel_request sys inLoop DisableAll (conn_channel s) (s\<lparr>closed := True\<rparr>)) (\<lambda>s.
     rbind (check (hasCloseCallback s) BadFunctionCall) (\<lambda>_.
       Inr (s\<lparr>calls := calls s @ [CloseCallback]\<rparr>)))))"

text \<open>\<^verbatim>\<open>handleError\<close> only reads \<^verbatim>\<open>SO_ERROR\<close> and logs it.\<close>

definition conn_handleError :: "('cb, 'k) tcp_connection \<Rightarrow> ('cb, 'k) tcp_connection result" where
  "conn_handleError s = Inr s"

definition received_bytes :: "sysread \<Rightarrow> byte list" where
  "received_bytes r = (case r of ReadErr _ \<Rightarrow> [] | ReadData data \<Rightarrow> data)"

definition conn_handleRead :: "'k epoll_sys \<Rightarrow> bool \<Rightarrow> timestamp \<Rightarrow> sysread \<Rightarrow>
    ('cb, 'k) tcp_connection \<Rightarrow> ('cb, 'k) tcp_connection result" where
  "conn_handleRead sys inLoop receiveTime r s =
     rbind (readFd r (inputBuffer s)) (\<lambda>(n, savedErrno, b).
     let s = s\<lparr>inputBuffer := b, received := received s @ received_bytes r\<rparr> in
     if n > 0 then
       Inr (if hasMessageCallback s then s\<lparr>calls := calls s @ [MessageCallback receiveTime]\<rparr> else s)
     else if n = 0 then conn_handleClose sys inLoop s
     else conn_handleError s)"

definition shutdownInLoop :: "bool \<Rightarrow> ('cb, 'k) tcp_connection \<Rightarrow> ('cb, 'k) tcp_connection result" where
  "shutdownInLoop inLoop s =
     rbind (check inLoop FatalLog) (\<lambda>_.
     rbind (load (conn_channel s) s) (\<lambda>c.
       Inr (if \<not> isWriting c then s\<lparr>fins := fins s @ [(length (wire s), length (accepted s))]\<rparr> else s)))"

text \<open>\<^verbatim>\<open>shutdown\<close> and \<^verbatim>\<open>send\<close> in the thread of the loop, where \<^verbatim>\<open>runInLoop\<close> runs its argument at once.\<close>

definition conn_shutdown :: "bool \<Rightarrow> ('cb, 'k) tcp_connection \<Rightarrow> ('cb, 'k) tcp_connection result" where
  "conn_shutdown inLoop s =
     (if conn_state s = kConnected then shutdownInLoop inLoop (s\<lparr>conn_state := kDisconnecting\<rparr>) else Inr s)"

definition queue_writeComplete :: "('cb, 'k) tcp_connection \<Rightarrow> ('cb, 'k) tcp_connection" where
  "queue_writeComplete s =
     (if hasWriteCompleteCallback s then s\<lparr>calls := calls s @ [WriteCompleteCallback]\<rparr> else s)"

definition sendInLoop :: "'k epoll_sys \<Rightarrow> bool \<Rightarrow> syswrite \<Rightarrow> byte list \<Rightarrow>
    ('cb, 'k) tcp_connection \<Rightarrow> ('cb, 'k) tcp_connection result" where
  "sendInLoop sys inLoop w message s =
     rbind (check inLoop FatalLog) (\<lambda>_.
     rbind (load (conn_channel s) s) (\<lambda>c.
     let direct = (\<not> isWriting c \<and> readableBytes (outputBuffer s) = 0);
         nwrote = (if direct then (case w of Wrote n \<Rightarrow> n | WriteErr _ \<Rightarrow> 0) else 0);
         s = s\<lparr>wire := wire s @ take nwrote message, accepted := accepted s @ message\<rparr>;
         s = (case w of
                Wrote n \<Rightarrow> if direct \<and> \<not> n < length message then queue_writeComplete s else s
              | WriteErr _ \<Rightarrow> s)
     in if nwrote < length message then
          rbind (append_buffer (drop nwrote message) (outputBuffer s)) (\<lambda>b.
          let s = s\<lparr>outputBuffer := b\<rparr> in
          if \<not> isWriting c then Channel_request sys inLoop EnableWriting (conn_channel s) s else Inr s)
        else Inr s))"

definition conn_send :: "'k epoll_sys \<Rightarrow> bool \<Rightarrow> syswrite \<Rightarrow> byte list \<Rightarrow>
    ('cb, 'k) tcp_connection \<Rightarrow> ('cb, 'k) tcp_connection result" where
  "conn_send sys inLoop w message s =
     (if conn_state s = kConnected then sendInLoop sys inLoop w message s else Inr s)"

definition conn_handleWrite :: "'k epoll_sys \<Rightarrow> bool \<Rightarrow> syswrite \<Rightarrow>
    ('cb, 'k) tcp_connection \<Rightarrow> ('cb, 'k) tcp_connection result" where
  "conn_handleWrite sys inLoop w s =
     rbind (check inLoop FatalLog) (\<lambda>_.
     rbind (load (conn_channel s) s) (\<lambda>c.
     if isWriting c then
       rbind (load_block (outputBuffer s) (peek (outputBuffer s)) (readableBytes (outputBuffer s))) (\<lambda>block.
       case w of
         WriteErr _ \<Rightarrow> Inr s
       | Wrote n \<Rightarrow>
           if n > 0 then
             rbind (retrieve (word_of_nat n) (outputBuffer s)) (\<lambda>b.
             let s = s\<lparr>outputBuffer := b, wire := wire s @ take n block\<rparr> in
             if readableBytes b = 0 then
               rbind (Channel_request sys inLoop DisableWriting (conn_channel s) s) (\<lambda>s.
               let s = queue_writeComplete s in
               if conn_state s = kDisconnecting then shutdownInLoop inLoop s else Inr s)
             else Inr s)
           else Inr s)
     else Inr s))"

section \<open>Sequences of operations\<close>

text \<open>
  \<open>SendQueued\<close> is \<^verbatim>\<open>sendInLoop\<close> run as a functor for a \<^verbatim>\<open>send\<close> of another thread, whatever the
  state has become; \<open>Consume\<close> is the user taking bytes out of the input buffer.
\<close>

datatype conn_op =
    Established
  | Send syswrite "byte list"
  | SendQueued syswrite "byte list"
  | Shutdown
  | ReadEvent timestamp sysread
  | WriteEvent syswrite
  | CloseEvent
  | ErrorEvent
  | Destroyed
  | Consume size_t

fun conn_step :: "'k epoll_sys \<Rightarrow> conn_op \<Rightarrow> ('cb, 'k) tcp_connection \<Rightarrow> ('cb, 'k) tcp_connection result" where
  "conn_step sys Established s = connectEstablished sys True s"
| "conn_step sys (Send w m) s = conn_send sys True w m s"
| "conn_step sys (SendQueued w m) s = sendInLoop sys True w m s"
| "conn_step sys Shutdown s = conn_shutdown True s"
| "conn_step sys (ReadEvent t r) s = conn_handleRead sys True t r s"
| "conn_step sys (WriteEvent w) s = conn_handleWrite sys True w s"
| "conn_step sys CloseEvent s = conn_handleClose sys True s"
| "conn_step sys ErrorEvent s = conn_handleError s"
| "conn_step sys Destroyed s = connectDestroyed sys True s"
| "conn_step sys (Consume n) s = rbind (retrieve n (inputBuffer s)) (\<lambda>b.
     Inr (s\<lparr>inputBuffer := b, consumed := consumed s @ take (unat n) (readable (inputBuffer s))\<rparr>))"

text \<open>The sizes of blocks and the promises of \<^verbatim>\<open>read\<close> and \<^verbatim>\<open>write\<close>, for the state in which they are called.\<close>

fun op_ok :: "conn_op \<Rightarrow> ('cb, 'k) tcp_connection \<Rightarrow> bool" where
  "op_ok (Send w m) s = (write_ok (length m) w \<and> length m \<le> max_size)"
| "op_ok (SendQueued w m) s = (write_ok (length m) w \<and> length m \<le> max_size)"
| "op_ok (ReadEvent t r) s = (length (received_bytes r) \<le> max_size)"
| "op_ok (WriteEvent w) s = write_ok (length (readable (outputBuffer s))) w"
| "op_ok _ s = True"

abbreviation ops_ok :: "'k epoll_sys \<Rightarrow> conn_op list \<Rightarrow> ('cb, 'k) tcp_connection \<Rightarrow> bool" where
  "ops_ok sys \<equiv> run_ok op_ok (conn_step sys)"

section \<open>Invariant\<close>

text \<open>The channel of the connection is alive, belongs to this loop and can be registered.\<close>

definition chan_ok :: "'k epoll_sys \<Rightarrow> ('cb, 'k) tcp_connection \<Rightarrow> bool" where
  "chan_ok sys s \<longleftrightarrow> ep_inv sys s \<and> registrable (conn_channel s) s"

definition writing :: "('cb, 'k) tcp_connection \<Rightarrow> bool" where
  "writing s \<longleftrightarrow> (case chan s (conn_channel s) of None \<Rightarrow> False | Some c \<Rightarrow> isWriting c)"

definition registered :: "('cb, 'k) tcp_connection \<Rightarrow> bool" where
  "registered s \<longleftrightarrow> (case chan s (conn_channel s) of None \<Rightarrow> False | Some c \<Rightarrow> ch_index c \<noteq> kNew)"

text \<open>
  Both directions are queues of bytes; before it is closed, a connection watches for room to
  write exactly when it has bytes to write, and a requested shutdown waits behind them or has
  been carried out with nothing left to write.
\<close>

definition streams_ok :: "('cb, 'k) tcp_connection \<Rightarrow> bool" where
  "streams_ok s \<longleftrightarrow> buf_inv (inputBuffer s) \<and> buf_inv (outputBuffer s) \<and>
     wire s @ readable (outputBuffer s) = accepted s \<and>
     consumed s @ readable (inputBuffer s) = received s"

definition open_ok :: "('cb, 'k) tcp_connection \<Rightarrow> bool" where
  "open_ok s \<longleftrightarrow> (\<not> closed s \<longrightarrow>
     (writing s \<longleftrightarrow> readable (outputBuffer s) \<noteq> []) \<and>
     (\<forall>(a, b) \<in> set (fins s). a = b) \<and>
     (conn_state s = kDisconnecting \<longrightarrow> readable (outputBuffer s) \<noteq> [] \<or> fins s \<noteq> []))"

definition conn_inv :: "'k epoll_sys \<Rightarrow> ('cb, 'k) tcp_connection \<Rightarrow> bool" where
  "conn_inv sys s \<longleftrightarrow> chan_ok sys s \<and> streams_ok s \<and> open_ok s \<and>
     (conn_state s = kConnected \<or> conn_state s = kDisconnecting \<longrightarrow> registered s)"

section \<open>Requests\<close>

lemma writing_bit: "any_set m kWriteEvent \<longleftrightarrow> bit m 2"
  using and_exp_eq_0_iff_not_bit [of m 2] by (simp add: any_set_def kWriteEvent_def POLLOUT_def)

lemma requested_writing [simp]:
  "any_set (requested EnableReading m) kWriteEvent = any_set m kWriteEvent"
  "any_set (requested DisableReading m) kWriteEvent = any_set m kWriteEvent"
  "any_set (requested EnableWriting m) kWriteEvent"
  "\<not> any_set (requested DisableWriting m) kWriteEvent"
  "\<not> any_set (requested DisableAll m) kWriteEvent"
proof -
  have w: "kWriteEvent = 2 ^ 2" and r: "\<not> bit kReadEvent 2" "bit kWriteEvent 2"
    by (simp_all add: kWriteEvent_def kReadEvent_def POLLOUT_def POLLIN_def POLLPRI_def bit_iff_odd)
  show "any_set (requested EnableReading m) kWriteEvent = any_set m kWriteEvent"
    "any_set (requested DisableReading m) kWriteEvent = any_set m kWriteEvent"
    "any_set (requested EnableWriting m) kWriteEvent"
    "\<not> any_set (requested DisableWriting m) kWriteEvent"
    "\<not> any_set (requested DisableAll m) kWriteEvent"
    unfolding writing_bit using r by (simp_all add: bit_simps kNoneEvent_def)
qed

declare requested.simps [simp del]

lemma isWriting_after_request:
  "isWriting (after_request rq c) = any_set (requested rq (ch_events c)) kWriteEvent"
  by (simp add: isWriting_def after_request_def set_index_def Let_def)

text \<open>A request of the connection on its own channel.\<close>

lemma conn_request:
  assumes sys: "epoll_ctl_ok sys" and ok: "chan_ok sys s" and c: "chan s (conn_channel s) = Some c"
  obtains s' where "Channel_request sys True rq (conn_channel s) s = Inr s'" "chan_ok sys s'" "registered s'"
    "writing s' = any_set (requested rq (ch_events c)) kWriteEvent"
    "chan s' (conn_channel s) = Some (after_request rq c)"
    "\<exists>ch ce k. s' = s\<lparr>chan := ch, channels_ep := ce, kernel := k\<rparr>"
proof -
  have own: "ch_loop c = ownerLoop s" and new: "ch_index c = kNew \<Longrightarrow> channels_ep s (ch_fd c) = None"
    using ok c by (auto simp: chan_ok_def registrable_def)
  obtain k where k: "Channel_request sys True rq (conn_channel s) s =
      Inr (s\<lparr>chan := (chan s)(conn_channel s \<mapsto> after_request rq c),
             channels_ep := (channels_ep s)(ch_fd c \<mapsto> conn_channel s), kernel := k\<rparr>)"
    "ep_inv sys (s\<lparr>chan := (chan s)(conn_channel s \<mapsto> after_request rq c),
             channels_ep := (channels_ep s)(ch_fd c \<mapsto> conn_channel s), kernel := k\<rparr>)"
    using sys ok c own new by (elim Channel_request_ok [where rq = rq]) (auto simp: chan_ok_def)
  let ?s = "s\<lparr>chan := (chan s)(conn_channel s \<mapsto> after_request rq c),
             channels_ep := (channels_ep s)(ch_fd c \<mapsto> conn_channel s), kernel := k\<rparr>"
  have ix: "ch_index (after_request rq c) \<noteq> kNew" "ch_loop (after_request rq c) = ch_loop c"
    by (simp_all add: after_request_def set_index_def Let_def)
  show ?thesis
    by (rule that [of ?s]) (use k ix own in \<open>auto simp: chan_ok_def registrable_def registered_def
      writing_def isWriting_after_request\<close>)
qed

lemma chan_ok_channel: "chan_ok sys s \<Longrightarrow> \<exists>c. chan s (conn_channel s) = Some c"
  by (auto simp: chan_ok_def registrable_def split: option.splits)

text \<open>The invariant of the poller reads nothing of the connection.\<close>

lemma chan_ok_frame [simp]:
  "chan_ok sys (s\<lparr>conn_state := st\<rparr>) = chan_ok sys s"
  "chan_ok sys (s\<lparr>inputBuffer := b\<rparr>) = chan_ok sys s"
  "chan_ok sys (s\<lparr>outputBuffer := b\<rparr>) = chan_ok sys s"
  "chan_ok sys (s\<lparr>calls := cs\<rparr>) = chan_ok sys s"
  "chan_ok sys (s\<lparr>wire := xs\<rparr>) = chan_ok sys s"
  "chan_ok sys (s\<lparr>accepted := xs\<rparr>) = chan_ok sys s"
  "chan_ok sys (s\<lparr>received := xs\<rparr>) = chan_ok sys s"
  "chan_ok sys (s\<lparr>consumed := xs\<rparr>) = chan_ok sys s"
  "chan_ok sys (s\<lparr>fins := fs\<rparr>) = chan_ok sys s"
  "chan_ok sys (s\<lparr>closed := cl\<rparr>) = chan_ok sys s"
  by (simp_all add: chan_ok_def registrable_def ep_inv_def interest_of_def fun_eq_iff cong: option.case_cong)

lemma writing_frame [simp]:
  "writing (s\<lparr>conn_state := st\<rparr>) = writing s" "writing (s\<lparr>inputBuffer := b\<rparr>) = writing s"
  "writing (s\<lparr>outputBuffer := b\<rparr>) = writing s" "writing (s\<lparr>calls := cs\<rparr>) = writing s"
  "writing (s\<lparr>wire := xs\<rparr>) = writing s" "writing (s\<lparr>accepted := xs\<rparr>) = writing s"
  "writing (s\<lparr>received := xs\<rparr>) = writing s" "writing (s\<lparr>consumed := xs\<rparr>) = writing s"
  "writing (s\<lparr>fins := fs\<rparr>) = writing s" "writing (s\<lparr>closed := cl\<rparr>) = writing s"
  by (simp_all add: writing_def)

lemma registered_frame [simp]:
  "registered (s\<lparr>conn_state := st\<rparr>) = registered s" "registered (s\<lparr>inputBuffer := b\<rparr>) = registered s"
  "registered (s\<lparr>outputBuffer := b\<rparr>) = registered s" "registered (s\<lparr>calls := cs\<rparr>) = registered s"
  "registered (s\<lparr>wire := xs\<rparr>) = registered s" "registered (s\<lparr>accepted := xs\<rparr>) = registered s"
  "registered (s\<lparr>received := xs\<rparr>) = registered s" "registered (s\<lparr>consumed := xs\<rparr>) = registered s"
  "registered (s\<lparr>fins := fs\<rparr>) = registered s" "registered (s\<lparr>closed := cl\<rparr>) = registered s"
  by (simp_all add: registered_def)

section \<open>Every operation keeps the invariant\<close>

lemma conn_inv_calls [simp]: "conn_inv sys (s\<lparr>calls := cs\<rparr>) = conn_inv sys s"
  by (simp add: conn_inv_def streams_ok_def open_ok_def)

lemma queue_writeComplete_inv [simp]: "conn_inv sys (queue_writeComplete s) = conn_inv sys s"
  by (simp add: queue_writeComplete_def)

lemma connectionCallback_inv:
  "conn_inv sys s \<Longrightarrow> connectionCallback s = Inr s' \<Longrightarrow> conn_inv sys s'"
  by (auto simp: connectionCallback_def)

lemma connectEstablished_inv:
  assumes sys: "epoll_ctl_ok sys" and inv: "conn_inv sys s" and run: "connectEstablished sys True s = Inr s'"
  shows "conn_inv sys s'"
proof -
  let ?s = "s\<lparr>conn_state := kConnected\<rparr>"
  have ok: "chan_ok sys ?s" using inv by (simp add: conn_inv_def)
  then obtain c where c: "chan s (conn_channel s) = Some c" using chan_ok_channel by fastforce
  have "chan ?s (conn_channel ?s) = Some c" using c by simp
  then obtain s1 where s1: "Channel_request sys True EnableReading (conn_channel ?s) ?s = Inr s1" "chan_ok sys s1"
    "registered s1" "writing s1 = any_set (requested EnableReading (ch_events c)) kWriteEvent"
    "\<exists>ch ce k. s1 = ?s\<lparr>chan := ch, channels_ep := ce, kernel := k\<rparr>"
    by (rule conn_request [OF sys ok])
  have "writing s1 = writing s" using s1(4) c by (simp add: writing_def isWriting_def)
  then have "conn_inv sys s1"
    using inv s1(2,3,5) by (auto simp: conn_inv_def streams_ok_def open_ok_def)
  then show ?thesis
    using run s1(1) connectionCallback_inv by (auto simp: connectEstablished_def)
qed

text \<open>Closing: the streams stay as they are, and nothing is promised of an open connection.\<close>

lemma disableAll_inv:
  assumes sys: "epoll_ctl_ok sys" and ok: "chan_ok sys s" and str: "streams_ok s" and cl: "closed s"
  obtains s' where "Channel_request sys True DisableAll (conn_channel s) s = Inr s'" "conn_inv sys s'"
    "\<exists>ch ce k. s' = s\<lparr>chan := ch, channels_ep := ce, kernel := k\<rparr>"
    "\<exists>c. chan s' (conn_channel s') = Some c \<and> isNoneEvent c \<and> ch_index c \<noteq> kNew"
proof -
  obtain c where c: "chan s (conn_channel s) = Some c" using chan_ok_channel [OF ok] by blast
  obtain s1 where s1: "Channel_request sys True DisableAll (conn_channel s) s = Inr s1" "chan_ok sys s1" "registered s1"
    "chan s1 (conn_channel s) = Some (after_request DisableAll c)"
    "\<exists>ch ce k. s1 = s\<lparr>chan := ch, channels_ep := ce, kernel := k\<rparr>"
    by (rule conn_request [OF sys ok c])
  have "conn_inv sys s1"
    using s1(2,3,5) str cl by (auto simp: conn_inv_def streams_ok_def open_ok_def)
  moreover have "isNoneEvent (after_request DisableAll c)" "ch_index (after_request DisableAll c) \<noteq> kNew"
    by (simp_all add: isNoneEvent_def after_request_def set_index_def Let_def requested.simps)
  ultimately show ?thesis using s1 that by auto
qed

lemma conn_handleClose_inv:
  assumes sys: "epoll_ctl_ok sys" and inv: "conn_inv sys s" and run: "conn_handleClose sys True s = Inr s'"
  shows "conn_inv sys s'"
proof -
  obtain s1 where s1: "Channel_request sys True DisableAll (conn_channel (s\<lparr>closed := True\<rparr>)) (s\<lparr>closed := True\<rparr>) = Inr s1"
    "conn_inv sys s1"
    by (rule disableAll_inv [OF sys, of "s\<lparr>closed := True\<rparr>"]) (use inv in \<open>simp_all add: conn_inv_def streams_ok_def\<close>)
  then show ?thesis using run by (auto simp: conn_handleClose_def)
qed

lemma conn_handleRead_inv:
  assumes sys: "epoll_ctl_ok sys" and inv: "conn_inv sys s" and small: "length (received_bytes r) \<le> max_size"
    and run: "conn_handleRead sys True t r s = Inr s'"
  shows "conn_inv sys s'"
proof -
  obtain n e b where b: "readFd r (inputBuffer s) = Inr (n, e, b)"
    using run by (auto simp: conn_handleRead_def)
  let ?s = "s\<lparr>inputBuffer := b, received := received s @ received_bytes r\<rparr>"
  have "buf_inv b \<and> readable b = readable (inputBuffer s) @ received_bytes r"
  proof (cases r)
    case (ReadErr e)
    then show ?thesis using b inv by (simp add: readFd_error received_bytes_def conn_inv_def streams_ok_def)
  next
    case (ReadData data)
    then show ?thesis
      using readFd_contents [of "inputBuffer s" data n e b] b inv small
      by (simp add: received_bytes_def conn_inv_def streams_ok_def)
  qed
  then have inv': "conn_inv sys ?s"
    using inv by (auto simp: conn_inv_def streams_ok_def open_ok_def)
  then show ?thesis
    using run b conn_handleClose_inv [OF sys inv']
    by (auto simp: conn_handleRead_def conn_handleError_def Let_def split: if_splits)
qed

lemma shutdownInLoop_inv:
  assumes run: "shutdownInLoop True s = Inr s'" and chan: "chan_ok sys s" and str: "streams_ok s"
    and reg: "conn_state s = kConnected \<or> conn_state s = kDisconnecting \<longrightarrow> registered s"
    and open1: "\<not> closed s \<Longrightarrow> writing s \<longleftrightarrow> readable (outputBuffer s) \<noteq> []"
    and open2: "\<not> closed s \<Longrightarrow> \<forall>(a, b) \<in> set (fins s). a = b"
  shows "conn_inv sys s'"
proof -
  obtain c where c: "chan s (conn_channel s) = Some c" using chan_ok_channel [OF chan] by blast
  then have w: "writing s = isWriting c" by (simp add: writing_def)
  have s': "s' = (if \<not> writing s then s\<lparr>fins := fins s @ [(length (wire s), length (accepted s))]\<rparr> else s)"
    using run c w by (simp add: shutdownInLoop_def load_def split: if_splits)
  have "length (wire s) = length (accepted s)" if "\<not> closed s" "\<not> writing s"
  proof -
    have "readable (outputBuffer s) = []" using open1 [OF that(1)] that(2) by blast
    then have "wire s = accepted s" using str by (simp add: streams_ok_def)
    then show ?thesis by simp
  qed
  then show ?thesis
    using chan str reg open1 open2 unfolding s' by (auto simp: conn_inv_def streams_ok_def open_ok_def)
qed

lemma conn_shutdown_inv:
  assumes "conn_inv sys s" "conn_shutdown True s = Inr s'"
  shows "conn_inv sys s'"
proof (cases "conn_state s = kConnected")
  case True
  then show ?thesis
    using assms by (intro shutdownInLoop_inv [of "s\<lparr>conn_state := kDisconnecting\<rparr>"])
      (auto simp: conn_shutdown_def conn_inv_def streams_ok_def open_ok_def)
next
  case False
  with assms show ?thesis by (simp add: conn_shutdown_def)
qed

lemma enableWriting_inv:
  assumes sys: "epoll_ctl_ok sys" and ok: "chan_ok sys s" and str: "streams_ok s"
    and out: "readable (outputBuffer s) \<noteq> []" and fin: "\<not> closed s \<Longrightarrow> \<forall>(a, b) \<in> set (fins s). a = b"
  obtains s' where "Channel_request sys True EnableWriting (conn_channel s) s = Inr s'" "conn_inv sys s'"
    "\<exists>ch ce k. s' = s\<lparr>chan := ch, channels_ep := ce, kernel := k\<rparr>" "writing s'"
proof -
  obtain c where c: "chan s (conn_channel s) = Some c" using chan_ok_channel [OF ok] by blast
  obtain s1 where s1: "Channel_request sys True EnableWriting (conn_channel s) s = Inr s1" "chan_ok sys s1" "registered s1"
    "writing s1 = any_set (requested EnableWriting (ch_events c)) kWriteEvent"
    "\<exists>ch ce k. s1 = s\<lparr>chan := ch, channels_ep := ce, kernel := k\<rparr>"
    by (rule conn_request [OF sys ok c])
  have "conn_inv sys s1"
    using s1(2-5) str out fin by (auto simp: conn_inv_def streams_ok_def open_ok_def)
  with s1 that show ?thesis by auto
qed

text \<open>The state in which \<^verbatim>\<open>sendInLoop\<close> has written what it could.\<close>

definition after_write :: "nat \<Rightarrow> byte list \<Rightarrow> ('cb, 'k) tcp_connection \<Rightarrow> ('cb, 'k) tcp_connection" where
  "after_write n message s = s\<lparr>wire := wire s @ take n message, accepted := accepted s @ message\<rparr>"

definition direct_count :: "('cb, 'k) tcp_connection \<Rightarrow> syswrite \<Rightarrow> nat" where
  "direct_count s w = (if \<not> writing s \<and> readableBytes (outputBuffer s) = 0
     then (case w of Wrote n \<Rightarrow> n | WriteErr _ \<Rightarrow> 0) else 0)"

lemma sendInLoop_all_written:
  assumes inv: "conn_inv sys s" and w: "write_ok (length m) w" and all: "length m \<le> direct_count s w"
  shows "\<exists>cs. sendInLoop sys True w m s = Inr (after_write (direct_count s w) m (s\<lparr>calls := cs\<rparr>)) \<and>
    conn_inv sys (after_write (direct_count s w) m (s\<lparr>calls := cs\<rparr>))"
proof -
  obtain c where c: "chan s (conn_channel s) = Some c" "writing s = isWriting c"
    using inv chan_ok_channel [of sys s] by (auto simp: conn_inv_def writing_def)
  have run: "\<exists>cs. sendInLoop sys True w m s = Inr (after_write (direct_count s w) m (s\<lparr>calls := cs\<rparr>))"
  proof (cases "(\<exists>n. w = Wrote n \<and> length m \<le> n) \<and> \<not> writing s \<and> readableBytes (outputBuffer s) = 0 \<and> hasWriteCompleteCallback s")
    case True
    then show ?thesis
      using c by (intro exI [of _ "calls s @ [WriteCompleteCallback]"])
        (auto simp: sendInLoop_def load_def direct_count_def after_write_def queue_writeComplete_def Let_def)
  next
    case False
    then show ?thesis
      using c all by (intro exI [of _ "calls s"])
        (cases w; cases "\<not> writing s \<and> readableBytes (outputBuffer s) = 0";
         auto simp: sendInLoop_def load_def direct_count_def after_write_def queue_writeComplete_def Let_def)
  qed
  have "readable (outputBuffer s) = [] \<or> m = []"
    using all inv by (auto simp: direct_count_def readableBytes_zero conn_inv_def streams_ok_def split: if_splits)
  then have "conn_inv sys (after_write (direct_count s w) m (s\<lparr>calls := cs\<rparr>))" for cs
    using inv all by (auto simp: conn_inv_def streams_ok_def open_ok_def after_write_def)
  with run show ?thesis by blast
qed

lemma sendInLoop_rest:
  assumes inv: "conn_inv sys s" and n: "direct_count s w < length m"
  shows "sendInLoop sys True w m s =
    rbind (append_buffer (drop (direct_count s w) m) (outputBuffer s)) (\<lambda>b.
      let s' = (after_write (direct_count s w) m s)\<lparr>outputBuffer := b\<rparr>
      in if writing s then Inr s' else Channel_request sys True EnableWriting (conn_channel s') s')"
proof -
  obtain c where c: "chan s (conn_channel s) = Some c" "writing s = isWriting c"
    using inv chan_ok_channel [of sys s] by (auto simp: conn_inv_def writing_def)
  then show ?thesis
    using n by (cases w) (auto simp: sendInLoop_def load_def direct_count_def after_write_def Let_def)
qed

lemma after_append_ok:
  assumes inv: "conn_inv sys s" and n: "direct_count s w < length m" and small: "length m \<le> max_size"
    and b: "append_buffer (drop (direct_count s w) m) (outputBuffer s) = Inr b"
  shows "let s' = (after_write (direct_count s w) m s)\<lparr>outputBuffer := b\<rparr> in
    chan_ok sys s' \<and> streams_ok s' \<and> readable b \<noteq> [] \<and> (\<not> closed s' \<longrightarrow> (\<forall>(a, b) \<in> set (fins s'). a = b))"
proof -
  have "buf_inv b \<and> readable b = readable (outputBuffer s) @ drop (direct_count s w) m"
    using inv small b by (intro bq.put_law) (simp_all add: conn_inv_def streams_ok_def)
  moreover have "readable (outputBuffer s) = [] \<or> direct_count s w = 0"
    using inv by (auto simp: direct_count_def readableBytes_zero conn_inv_def streams_ok_def)
  ultimately show ?thesis
    using inv n by (auto simp: Let_def after_write_def conn_inv_def streams_ok_def open_ok_def)
qed

lemma sendInLoop_inv:
  assumes sys: "epoll_ctl_ok sys" and inv: "conn_inv sys s" and w: "write_ok (length m) w"
    and small: "length m \<le> max_size" and run: "sendInLoop sys True w m s = Inr s'"
  shows "conn_inv sys s'"
proof (cases "direct_count s w < length m")
  case True
  then obtain b where b: "append_buffer (drop (direct_count s w) m) (outputBuffer s) = Inr b"
    using run sendInLoop_rest [OF inv True] by auto
  let ?s = "(after_write (direct_count s w) m s)\<lparr>outputBuffer := b\<rparr>"
  have ok: "chan_ok sys ?s" "streams_ok ?s" "readable (outputBuffer ?s) \<noteq> []"
    "\<not> closed ?s \<longrightarrow> (\<forall>(a, b) \<in> set (fins ?s). a = b)"
    using after_append_ok [OF inv True small b] by (simp_all add: Let_def)
  show ?thesis
  proof (cases "writing s")
    case True
    then have "s' = ?s" using run sendInLoop_rest [OF inv \<open>direct_count s w < length m\<close>] b by simp
    with True ok inv show ?thesis by (auto simp: conn_inv_def open_ok_def after_write_def)
  next
    case False
    then have "Channel_request sys True EnableWriting (conn_channel ?s) ?s = Inr s'"
      using run sendInLoop_rest [OF inv \<open>direct_count s w < length m\<close>] b by simp
    then show ?thesis
      by (rule_tac enableWriting_inv [OF sys ok(1-3)]) (use ok(4) in auto)
  qed
next
  case False
  then show ?thesis using sendInLoop_all_written [OF inv w] run by auto
qed

text \<open>Handing \<open>n\<close> bytes of the output buffer to the kernel.\<close>

lemma handed_over:
  assumes inv: "conn_inv sys s" and n: "n \<le> length (readable (outputBuffer s))"
  obtains b where "retrieve (word_of_nat n) (outputBuffer s) = Inr b"
    "load_block (outputBuffer s) (peek (outputBuffer s)) (readableBytes (outputBuffer s)) = Inr (readable (outputBuffer s))"
    "streams_ok (s\<lparr>outputBuffer := b, wire := wire s @ take n (readable (outputBuffer s))\<rparr>)"
    "readable b = drop n (readable (outputBuffer s))" "readableBytes b = 0 \<longleftrightarrow> readable b = []"
proof -
  have buf: "buf_inv (outputBuffer s)" using inv by (simp add: conn_inv_def streams_ok_def)
  then have "n < 2 ^ 64" using n bq.contents_bound [OF buf] by (simp add: max_size_def)
  then have un: "unat (word_of_nat n :: size_t) = n" by (simp add: unat_of_nat take_bit_nat_eq_self)
  obtain b where b: "retrieve (word_of_nat n) (outputBuffer s) = Inr b" "buf_inv b"
    "readable b = drop n (readable (outputBuffer s))"
    using bq.discard_law [OF buf, of "word_of_nat n"] n un by auto
  have "(wire s @ take n (readable (outputBuffer s))) @ readable b = accepted s"
    using inv b(3) by (simp add: conn_inv_def streams_ok_def)
  then have "streams_ok (s\<lparr>outputBuffer := b, wire := wire s @ take n (readable (outputBuffer s))\<rparr>)"
    using inv b(2) by (simp add: conn_inv_def streams_ok_def)
  then show ?thesis
    using that b load_readable [OF buf] readableBytes_zero [OF b(2)] by blast
qed

text \<open>The last byte has been handed over: stop watching for room, and shut down if that was asked for.\<close>

lemma drained_ok:
  assumes sys: "epoll_ctl_ok sys" and ok: "chan_ok sys s" and str: "streams_ok s"
    and out: "readable (outputBuffer s) = []" and fin: "\<not> closed s \<Longrightarrow> \<forall>(a, b) \<in> set (fins s). a = b"
  shows "\<exists>s'. rbind (Channel_request sys True DisableWriting (conn_channel s) s) (\<lambda>s.
      let s = queue_writeComplete s in
      if conn_state s = kDisconnecting then shutdownInLoop True s else Inr s) = Inr s' \<and> conn_inv sys s' \<and> wire s' = wire s \<and>
    (conn_state s = kDisconnecting \<longrightarrow> fins s' = fins s @ [(length (wire s), length (accepted s))])"
proof -
  obtain c where c: "chan s (conn_channel s) = Some c" using chan_ok_channel [OF ok] by blast
  obtain s1 where s1: "Channel_request sys True DisableWriting (conn_channel s) s = Inr s1" "chan_ok sys s1" "registered s1"
    "writing s1 = any_set (requested DisableWriting (ch_events c)) kWriteEvent"
    "\<exists>ch ce k. s1 = s\<lparr>chan := ch, channels_ep := ce, kernel := k\<rparr>"
    by (rule conn_request [OF sys ok c])
  have fields: "streams_ok s1" "readable (outputBuffer s1) = []" "closed s1 = closed s" "fins s1 = fins s"
    "conn_state s1 = conn_state s" "wire s1 = wire s" "accepted s1 = accepted s"
    using s1(5) str out by (auto simp: streams_ok_def)
  obtain cs where cs: "queue_writeComplete s1 = s1\<lparr>calls := cs\<rparr>"
    by (cases "hasWriteCompleteCallback s1") (auto simp: queue_writeComplete_def intro: that [of "calls s1"])
  let ?s = "s1\<lparr>calls := cs\<rparr>"
  have quiet: "\<not> writing ?s" "streams_ok ?s" using s1(4) fields(1) by (simp_all add: streams_ok_def)
  show ?thesis
  proof (cases "conn_state s = kDisconnecting")
    case True
    obtain c1 where "chan ?s (conn_channel ?s) = Some c1" "\<not> isWriting c1"
      using chan_ok_channel [OF s1(2)] quiet(1) by (auto simp: writing_def)
    then have run: "shutdownInLoop True ?s = Inr (?s\<lparr>fins := fins s @ [(length (wire s), length (accepted s))]\<rparr>)"
      using fields by (simp add: shutdownInLoop_def load_def)
    have "conn_inv sys (?s\<lparr>fins := fins s @ [(length (wire s), length (accepted s))]\<rparr>)"
      by (rule shutdownInLoop_inv [OF run]) (use s1(2,3) quiet fields fin in auto)
    then show ?thesis using True run s1(1) cs fields by (simp add: Let_def)
  next
    case False
    have "conn_inv sys ?s"
      using s1(2,3) quiet fields fin False by (auto simp: conn_inv_def open_ok_def)
    then show ?thesis using False s1(1) cs fields by (simp add: Let_def)
  qed
qed

lemma conn_handleWrite_ok:
  assumes sys: "epoll_ctl_ok sys" and inv: "conn_inv sys s" and w: "write_ok (length (readable (outputBuffer s))) w"
  shows "\<exists>s'. conn_handleWrite sys True w s = Inr s' \<and> conn_inv sys s' \<and>
    (writing s \<and> w = Wrote n \<longrightarrow> wire s' = wire s @ take n (readable (outputBuffer s)))"
proof -
  obtain c where c: "chan s (conn_channel s) = Some c" "writing s = isWriting c"
    using inv chan_ok_channel [of sys s] by (auto simp: conn_inv_def writing_def)
  show ?thesis
  proof (cases "writing s \<and> (\<exists>n. w = Wrote n \<and> 0 < n)")
    case False
    have "load_block (outputBuffer s) (peek (outputBuffer s)) (readableBytes (outputBuffer s)) = Inr (readable (outputBuffer s))"
      using inv by (simp add: load_readable conn_inv_def streams_ok_def)
    with False c inv show ?thesis
      by (cases w) (auto simp: conn_handleWrite_def load_def)
  next
    case True
    then obtain k where k: "w = Wrote k" "0 < k" "k \<le> length (readable (outputBuffer s))"
      using w by (auto simp: write_ok_def)
    obtain b where b: "retrieve (word_of_nat k) (outputBuffer s) = Inr b"
      "load_block (outputBuffer s) (peek (outputBuffer s)) (readableBytes (outputBuffer s)) = Inr (readable (outputBuffer s))"
      "streams_ok (s\<lparr>outputBuffer := b, wire := wire s @ take k (readable (outputBuffer s))\<rparr>)"
      "readable b = drop k (readable (outputBuffer s))" "readableBytes b = 0 \<longleftrightarrow> readable b = []"
      by (rule handed_over [OF inv k(3)])
    let ?s = "s\<lparr>outputBuffer := b, wire := wire s @ take k (readable (outputBuffer s))\<rparr>"
    have ok: "chan_ok sys ?s" "\<not> closed ?s \<Longrightarrow> \<forall>(a, b) \<in> set (fins ?s). a = b"
      using inv by (simp_all add: conn_inv_def open_ok_def)
    have run: "conn_handleWrite sys True w s = (if readable b = [] then
        rbind (Channel_request sys True DisableWriting (conn_channel ?s) ?s) (\<lambda>s.
          let s = queue_writeComplete s in
          if conn_state s = kDisconnecting then shutdownInLoop True s else Inr s) else Inr ?s)"
      using c True k(1,2) b(1,2,5) by (simp add: conn_handleWrite_def load_def Let_def)
    show ?thesis
    proof (cases "readable b = []")
      case empty: True
      obtain s' where "conn_handleWrite sys True w s = Inr s'" "conn_inv sys s'" "wire s' = wire ?s"
        using drained_ok [OF sys ok(1) b(3) _ ok(2)] empty run by auto
      with k(1) show ?thesis by auto
    next
      case False
      then have "conn_inv sys ?s"
        using True b(3) inv ok by (auto simp: conn_inv_def open_ok_def)
      with run False k(1) show ?thesis by auto
    qed
  qed
qed

lemma connectDestroyed_ok:
  assumes sys: "epoll_ctl_ok sys" and inv: "conn_inv sys s" and cb: "hasConnectionCallback s"
    and st: "conn_state s = kConnected \<or> conn_state s = kDisconnecting"
  shows "\<exists>s'. connectDestroyed sys True s = Inr s' \<and> conn_inv sys s' \<and> \<not> registered s' \<and> conn_state s' = kDisconnected"
proof -
  let ?s = "s\<lparr>conn_state := kDisconnected, closed := True\<rparr>"
  obtain s1 where s1: "Channel_request sys True DisableAll (conn_channel ?s) ?s = Inr s1" "conn_inv sys s1"
    "\<exists>ch ce k. s1 = ?s\<lparr>chan := ch, channels_ep := ce, kernel := k\<rparr>"
    "\<exists>c. chan s1 (conn_channel s1) = Some c \<and> isNoneEvent c \<and> ch_index c \<noteq> kNew"
    by (rule disableAll_inv [OF sys, of ?s]) (use inv in \<open>simp_all add: conn_inv_def streams_ok_def\<close>)
  let ?s2 = "s1\<lparr>calls := calls s1 @ [ConnectionCallback (conn_state s1)]\<rparr>"
  have st1: "conn_state s1 = kDisconnected" "closed s1" "hasConnectionCallback s1" using s1(3) cb by auto
  obtain c where c: "chan ?s2 (conn_channel ?s2) = Some c" "isNoneEvent c" "ch_index c \<noteq> kNew"
    using s1(4) by auto
  have inv2: "conn_inv sys ?s2" using s1(2) by simp
  then have "ep_inv sys ?s2" "ch_loop c = ownerLoop ?s2"
    using c(1) by (auto simp: conn_inv_def chan_ok_def registrable_def)
  then obtain k where k: "EventLoop_removeChannel sys True (conn_channel ?s2) ?s2 =
      Inr (?s2\<lparr>chan := (chan ?s2)(conn_channel ?s2 \<mapsto> set_index kNew c),
        channels_ep := (channels_ep ?s2)(ch_fd c := None), kernel := k\<rparr>)"
    "ep_inv sys (?s2\<lparr>chan := (chan ?s2)(conn_channel ?s2 \<mapsto> set_index kNew c),
        channels_ep := (channels_ep ?s2)(ch_fd c := None), kernel := k\<rparr>)"
    using EventLoop_removeChannel_ok [OF sys _ c(1) _ c(3,2)] by blast
  let ?s3 = "?s2\<lparr>chan := (chan ?s2)(conn_channel ?s2 \<mapsto> set_index kNew c),
        channels_ep := (channels_ep ?s2)(ch_fd c := None), kernel := k\<rparr>"
  have "connectDestroyed sys True s = Inr ?s3"
    using s1(1) st st1 k(1) by (simp add: connectDestroyed_def connectionCallback_def)
  moreover have "registrable (conn_channel ?s3) ?s3"
    using \<open>ch_loop c = ownerLoop ?s2\<close> by (simp add: registrable_def set_index_def)
  then have "conn_inv sys ?s3"
    using k(2) inv2 st1 by (simp add: conn_inv_def chan_ok_def streams_ok_def open_ok_def)
  moreover have "\<not> registered ?s3" "conn_state ?s3 = kDisconnected"
    using st1 by (simp_all add: registered_def set_index_def)
  ultimately show ?thesis by blast
qed

lemma connectDestroyed_guards:
  assumes sys: "epoll_ctl_ok sys" and inv: "conn_inv sys s" and run: "connectDestroyed sys True s = Inr s'"
  shows "hasConnectionCallback s \<and> (conn_state s = kConnected \<or> conn_state s = kDisconnecting)"
proof -
  let ?s = "s\<lparr>conn_state := kDisconnected, closed := True\<rparr>"
  obtain s1 where s1: "Channel_request sys True DisableAll (conn_channel ?s) ?s = Inr s1"
    "\<exists>ch ce k. s1 = ?s\<lparr>chan := ch, channels_ep := ce, kernel := k\<rparr>"
    by (rule disableAll_inv [OF sys, of ?s]) (use inv in \<open>simp_all add: conn_inv_def streams_ok_def\<close>)
  then have "hasConnectionCallback s1 = hasConnectionCallback s" by auto
  with run s1(1) show ?thesis by (auto simp: connectDestroyed_def connectionCallback_def)
qed

lemma conn_step_inv:
  assumes sys: "epoll_ctl_ok sys" and inv: "conn_inv sys s" and ok: "op_ok op s" and run: "conn_step sys op s = Inr s'"
  shows "conn_inv sys s'"
proof (cases op)
  case Established
  with run connectEstablished_inv [OF sys inv] show ?thesis by simp
next
  case (Send w m)
  with run ok sendInLoop_inv [OF sys inv, of m w] inv show ?thesis by (auto simp: conn_send_def split: if_splits)
next
  case (SendQueued w m)
  with run ok sendInLoop_inv [OF sys inv, of m w] show ?thesis by simp
next
  case Shutdown
  with run conn_shutdown_inv [OF inv] show ?thesis by simp
next
  case (ReadEvent t r)
  with run ok conn_handleRead_inv [OF sys inv] show ?thesis by simp
next
  case (WriteEvent w)
  with run ok conn_handleWrite_ok [OF sys inv, of w] show ?thesis by auto
next
  case CloseEvent
  with run conn_handleClose_inv [OF sys inv] show ?thesis by simp
next
  case ErrorEvent
  with run inv show ?thesis by (simp add: conn_handleError_def)
next
  case Destroyed
  then have run': "connectDestroyed sys True s = Inr s'" using run by simp
  then show ?thesis using connectDestroyed_ok [OF sys inv] connectDestroyed_guards [OF sys inv run'] by auto
next
  case (Consume n)
  then obtain b where b: "retrieve n (inputBuffer s) = Inr b"
    "s' = s\<lparr>inputBuffer := b, consumed := consumed s @ take (unat n) (readable (inputBuffer s))\<rparr>"
    using run by auto
  have buf: "buf_inv (inputBuffer s)" using inv by (simp add: conn_inv_def streams_ok_def)
  show ?thesis
    using inv bq.discardD [OF buf b(1)] b(2) by (auto simp: conn_inv_def streams_ok_def open_ok_def)
qed

interpretation tc: machine "conn_step sys" op_ok "\<lambda>s. epoll_ctl_ok sys \<and> conn_inv sys s" for sys
  by unfold_locales (use conn_step_inv in blast)

lemma conn_run_inv:
  assumes "epoll_ctl_ok sys" "conn_inv sys s" "ops_ok sys ops s" "rfold (conn_step sys) ops s = Inr s'"
  shows "conn_inv sys s'"
  using tc.run_inv [of sys s ops s'] assms by blast

section \<open>New connections\<close>

lemma conn_inv_new:
  assumes new: "TcpConnection_new pl p c = Inr s" and ep: "ep_inv sys pl"
    and fresh: "chan pl p = None" "channels_ep pl (ch_fd c) = None" and c: "ch_index c = kNew" "ch_loop c = ownerLoop pl" "ch_events c = 0"
  shows "conn_inv sys s"
proof -
  obtain i where i: "Buffer_new = Inr i" using new by (auto simp: TcpConnection_new_def)
  note B = Buffer_new_correct [OF i]
  have ep': "ep_inv sys (pl\<lparr>chan := (chan pl)(p \<mapsto> c)\<rparr>)"
    using fresh(1) c(1) by (intro ep_inv_store [OF ep]) auto
  have s: "chan s = (chan pl)(p \<mapsto> c)" "channels_ep s = channels_ep pl" "kernel s = kernel pl" "ownerLoop s = ownerLoop pl"
    "conn_channel s = p" "inputBuffer s = i" "outputBuffer s = i" "wire s = []" "accepted s = []" "received s = []"
    "consumed s = []" "fins s = []" "conn_state s = kConnecting"
    using new unfolding TcpConnection_new_def i by auto
  have "ep_inv sys s"
    using ep' by (simp add: ep_inv_def interest_of_def s fun_eq_iff cong: option.case_cong)
  then have "chan_ok sys s" using s fresh(2) c by (simp add: chan_ok_def registrable_def)
  moreover have "\<not> writing s"
    using c(3) by (simp add: writing_def s isWriting_def any_set_def)
  ultimately show ?thesis
    using s B by (simp add: conn_inv_def streams_ok_def open_ok_def)
qed

lemma conn_inv_setters [simp]:
  "conn_inv sys (setConnectionCallback s) = conn_inv sys s" "conn_inv sys (setMessageCallback s) = conn_inv sys s"
  "conn_inv sys (setWriteCompleteCallback s) = conn_inv sys s" "conn_inv sys (conn_setCloseCallback s) = conn_inv sys s"
  by (simp_all add: setConnectionCallback_def setMessageCallback_def setWriteCompleteCallback_def conn_setCloseCallback_def
      conn_inv_def streams_ok_def open_ok_def chan_ok_def registrable_def ep_inv_def interest_of_def fun_eq_iff
      writing_def registered_def cong: option.case_cong)

text \<open>While only sending and writing goes on, the connection stays as it is.\<close>

fun sent_bytes :: "conn_op \<Rightarrow> byte list" where
  "sent_bytes (Send w m) = m"
| "sent_bytes (SendQueued w m) = m"
| "sent_bytes _ = []"

fun is_output :: "conn_op \<Rightarrow> bool" where
  "is_output (Send w m) = True"
| "is_output (WriteEvent w) = True"
| "is_output _ = False"

lemma request_fields:
  assumes "epoll_ctl_ok sys" "chan_ok sys s" "Channel_request sys True rq (conn_channel s) s = Inr s'"
  shows "\<exists>ch ce k. s' = s\<lparr>chan := ch, channels_ep := ce, kernel := k\<rparr>"
proof -
  obtain c where "chan s (conn_channel s) = Some c" using chan_ok_channel [OF assms(2)] by blast
  then obtain s1 where "Channel_request sys True rq (conn_channel s) s = Inr s1"
    "\<exists>ch ce k. s1 = s\<lparr>chan := ch, channels_ep := ce, kernel := k\<rparr>"
    by (rule conn_request [OF assms(1,2)])
  with assms(3) show ?thesis by simp
qed

lemma sendInLoop_accepts:
  assumes "epoll_ctl_ok sys" "conn_inv sys s" "write_ok (length m) w" "length m \<le> max_size" "sendInLoop sys True w m s = Inr s'"
  shows "accepted s' = accepted s @ m \<and> conn_state s' = conn_state s"
proof (cases "direct_count s w < length m")
  case True
  then obtain b where b: "append_buffer (drop (direct_count s w) m) (outputBuffer s) = Inr b"
    using assms(5) sendInLoop_rest [OF assms(2) True] by auto
  let ?s = "(after_write (direct_count s w) m s)\<lparr>outputBuffer := b\<rparr>"
  have "chan_ok sys ?s" using after_append_ok [OF assms(2) True assms(4) b] by (simp add: Let_def)
  then have "\<exists>ch ce k. s' = ?s\<lparr>chan := ch, channels_ep := ce, kernel := k\<rparr> \<or> s' = ?s"
    using assms(5) sendInLoop_rest [OF assms(2) True] b request_fields [OF assms(1), of ?s EnableWriting s']
    by (auto simp: Let_def split: if_splits)
  then show ?thesis by (auto simp: after_write_def)
next
  case False
  then show ?thesis using sendInLoop_all_written [OF assms(2,3)] assms(5) by (auto simp: after_write_def)
qed

lemma drained_fields:
  assumes sys: "epoll_ctl_ok sys" and ok: "chan_ok sys s"
    and run: "rbind (Channel_request sys True DisableWriting (conn_channel s) s) (\<lambda>s.
      let s = queue_writeComplete s in
      if conn_state s = kDisconnecting then shutdownInLoop True s else Inr s) = Inr s'"
  shows "accepted s' = accepted s \<and> conn_state s' = conn_state s"
proof -
  obtain s1 where s1: "Channel_request sys True DisableWriting (conn_channel s) s = Inr s1"
    "(let s = queue_writeComplete s1 in
      if conn_state s = kDisconnecting then shutdownInLoop True s else Inr s) = Inr s'"
    using run by auto
  have "accepted s1 = accepted s" "conn_state s1 = conn_state s"
    using request_fields [OF sys ok s1(1)] by auto
  with s1(2) show ?thesis
    by (auto simp: Let_def queue_writeComplete_def shutdownInLoop_def load_def split: if_splits option.splits)
qed

lemma conn_handleWrite_fields:
  assumes sys: "epoll_ctl_ok sys" and inv: "conn_inv sys s" and run: "conn_handleWrite sys True w s = Inr s'"
  shows "accepted s' = accepted s \<and> conn_state s' = conn_state s"
proof -
  have "chan_ok sys (s\<lparr>outputBuffer := b, wire := x\<rparr>)" for b x using inv by (simp add: conn_inv_def)
  then have "rbind (Channel_request sys True DisableWriting (conn_channel (s\<lparr>outputBuffer := b, wire := x\<rparr>))
        (s\<lparr>outputBuffer := b, wire := x\<rparr>)) (\<lambda>s.
      let s = queue_writeComplete s in
      if conn_state s = kDisconnecting then shutdownInLoop True s else Inr s) = Inr s' \<Longrightarrow>
    accepted s' = accepted s \<and> conn_state s' = conn_state s" for b x
    using drained_fields [OF sys, of "s\<lparr>outputBuffer := b, wire := x\<rparr>" s'] by simp
  then show ?thesis
    using run unfolding conn_handleWrite_def by (fastforce simp: load_def Let_def split: if_splits option.splits syswrite.splits)
qed

lemma output_run:
  assumes sys: "epoll_ctl_ok sys" and "conn_inv sys s" "ops_ok sys ops s" "\<forall>op\<in>set ops. is_output op"
    "conn_state s = kConnected" "rfold (conn_step sys) ops s = Inr s'"
  shows "accepted s' = accepted s @ concat (map sent_bytes ops) \<and> conn_state s' = kConnected"
  using assms(2-)
proof (induction ops arbitrary: s)
  case (Cons op ops)
  then obtain s1 where s1: "conn_step sys op s = Inr s1" "rfold (conn_step sys) ops s1 = Inr s'" by auto
  have inv1: "conn_inv sys s1" using conn_step_inv [OF sys Cons.prems(1) _ s1(1)] Cons.prems(2) by simp
  have "accepted s1 = accepted s @ sent_bytes op \<and> conn_state s1 = kConnected"
  proof (cases op)
    case (Send w m)
    then show ?thesis
      using sendInLoop_accepts [OF sys Cons.prems(1), of m w s1] s1(1) Cons.prems(2,4) by (simp add: conn_send_def)
  next
    case (WriteEvent w)
    then show ?thesis
      using conn_handleWrite_fields [OF sys Cons.prems(1), of w s1] s1(1) Cons.prems(4) by simp
  qed (use Cons.prems(3) in auto)
  with Cons.IH [OF inv1] Cons.prems(2,3) s1 show ?case by simp
qed simp

section \<open>Properties\<close>

text \<open>The callbacks a server or client installs on a new connection.\<close>

definition conn_setup :: "('cb, 'k) tcp_connection \<Rightarrow> ('cb, 'k) tcp_connection" where
  "conn_setup s = conn_setCloseCallback (setWriteCompleteCallback (setMessageCallback (setConnectionCallback s)))"

lemma conn_inv_setup:
  assumes "TcpConnection_new pl p (TcpConnection_channel (ownerLoop pl) sockfd r w c e) = Inr s" "ep_inv sys pl"
    "chan pl p = None" "channels_ep pl sockfd = None"
  shows "conn_inv sys (conn_setup s)"
proof -
  have "conn_inv sys s"
    by (rule conn_inv_new [OF assms(1,2,3)]) (use assms(4) in \<open>simp_all add: TcpConnection_channel_def setErrorCallback_def
      setCloseCallback_def setWriteCallback_def setReadCallback_def Channel_new_def kNew_def\<close>)
  then show ?thesis by (simp add: conn_setup_def)
qed

text \<open>A concrete connection on descriptor 5 whose channel is at address 8.\<close>

definition sample_buffer :: buffer where
  "sample_buffer = \<lparr>vec = replicate 1032 0, readerIndex = 8, writerIndex = 8\<rparr>"

definition sample_conn0 :: "(nat, fd \<rightharpoonup> epoll_event) tcp_connection" where
  "sample_conn0 = \<lparr>chan = [8 \<mapsto> TcpConnection_channel 0 5 11 12 13 14], channels_ep = Map.empty,
     events_size = 16, kernel = Map.empty, ownerLoop = 0, conn_state = kConnecting, conn_channel = 8,
     inputBuffer = sample_buffer, outputBuffer = sample_buffer, hasConnectionCallback = False,
     hasMessageCallback = False, hasWriteCompleteCallback = False, hasCloseCallback = False,
     calls = [], wire = [], accepted = [], received = [], consumed = [], fins = [], closed = False\<rparr>"

definition sample_conn :: "(nat, fd \<rightharpoonup> epoll_event) tcp_connection" where
  "sample_conn = conn_setup sample_conn0"

lemma sample_poller: "ep_inv sample_sys (EPoller_new 0 Map.empty :: (nat, fd \<rightharpoonup> epoll_event) poller)"
  by (rule ep_inv_new) (simp add: sample_sys_def)

lemma sample_conn_new:
  "TcpConnection_new (EPoller_new 0 Map.empty) 8
     (TcpConnection_channel (ownerLoop (EPoller_new 0 Map.empty :: (nat, fd \<rightharpoonup> epoll_event) poller)) 5 11 12 13 14) = Inr sample_conn0"
  by (simp add: TcpConnection_new_def Buffer_new_fresh sample_conn0_def sample_buffer_def EPoller_new_def
      kInitEventListSize_def)

lemma sample_conn_inv: "conn_inv sample_sys sample_conn"
  unfolding sample_conn_def
  by (rule conn_inv_setup [OF sample_conn_new sample_poller]) (simp_all add: EPoller_new_def)

lemmas sample_conn_defs = sample_conn_def sample_conn0_def conn_setup_def conn_setCloseCallback_def setWriteCompleteCallback_def
  setMessageCallback_def setConnectionCallback_def TcpConnection_channel_def setErrorCallback_def
  setCloseCallback_def setWriteCallback_def setReadCallback_def Channel_new_def

lemmas request_eval = Channel_request_def EventLoop_updateChannel_def ep_updateChannel_def ep_update_def
  change_def load_def set_index_def isNoneEvent_def mask_defs kNew_def kAdded_def kDeleted_def Let_def

lemma sample_established:
  "\<exists>s. connectEstablished sample_sys True sample_conn = Inr s \<and> conn_inv sample_sys s \<and> conn_state s = kConnected \<and>
     outputBuffer s = sample_buffer \<and> inputBuffer s = sample_buffer \<and> \<not> writing s \<and> \<not> closed s \<and> hasConnectionCallback s \<and>
     hasCloseCallback s \<and> wire s = [] \<and> accepted s = []"
proof -
  obtain s where s: "connectEstablished sample_sys True sample_conn = Inr s"
    "conn_state s = kConnected" "outputBuffer s = sample_buffer" "inputBuffer s = sample_buffer" "\<not> writing s" "\<not> closed s"
    "hasConnectionCallback s" "hasCloseCallback s" "wire s = []" "accepted s = []"
    by (simp add: connectEstablished_def sample_conn_defs request_eval connectionCallback_def writing_def isWriting_def
        any_set_def requested.simps)
  then show ?thesis using connectEstablished_inv [OF sample_ctl_ok sample_conn_inv] by blast
qed

text \<open>
  C2. A connection is a pair of byte streams: after any sequence of sending, reading, writing,
  shutting down and closing on a new connection, the bytes the kernel has taken followed by
  the bytes in the output buffer are exactly the bytes that were accepted for sending, and the
  bytes the user has taken out followed by those in the input buffer exactly the bytes
  received, in order, none lost or repeated; and the poller is still in sync.
\<close>

theorem conn_stream_fifo:
  assumes "epoll_ctl_ok sys" "ep_inv sys pl" "chan pl p = None" "channels_ep pl sockfd = None"
    and "TcpConnection_new pl p (TcpConnection_channel (ownerLoop pl) sockfd onRead onWrite onClose onError) = Inr s0"
    and "ops_ok sys ops (conn_setup s0)" "rfold (conn_step sys) ops (conn_setup s0) = Inr s"
  shows "wire s @ readable (outputBuffer s) = accepted s \<and>
    consumed s @ readable (inputBuffer s) = received s \<and> ep_inv sys s"
  using conn_run_inv [OF assms(1) conn_inv_setup [OF assms(5,2,3,4)] assms(6,7)]
  by (simp add: conn_inv_def streams_ok_def chan_ok_def)

theorem conn_stream_fifo_witness:
  "\<exists>s. rfold (conn_step sample_sys) [Established, CloseEvent] sample_conn = Inr s \<and>
     wire s @ readable (outputBuffer s) = accepted s"
proof -
  let ?ops = "[Established, CloseEvent]"
  obtain s where s: "rfold (conn_step sample_sys) ?ops (conn_setup sample_conn0) = Inr s"
    by (simp add: connectEstablished_def conn_handleClose_def sample_conn_defs request_eval connectionCallback_def
        sample_sys_def requested.simps)
  have ok: "ops_ok sample_sys ?ops (conn_setup sample_conn0)" by (auto split: sum.split)
  have "wire s @ readable (outputBuffer s) = accepted s"
    using conn_stream_fifo [OF sample_ctl_ok sample_poller _ _ sample_conn_new ok s] by (simp add: EPoller_new_def)
  with s show ?thesis by (auto simp: sample_conn_def)
qed

text \<open>
  What is sent goes out in order: while a connected connection only sends and writes, in any
  mixture and however much the kernel takes at a time, the bytes handed to the kernel followed
  by those waiting are those from before followed by all messages in the order of their sends.
\<close>

theorem sent_in_order:
  assumes "epoll_ctl_ok sys" "conn_inv sys s" "conn_state s = kConnected" "ops_ok sys ops s"
    and "\<forall>op\<in>set ops. is_output op" "rfold (conn_step sys) ops s = Inr s'"
  shows "wire s' @ readable (outputBuffer s') = wire s @ readable (outputBuffer s) @ concat (map sent_bytes ops)"
proof -
  have "conn_inv sys s'" by (rule conn_run_inv [OF assms(1,2,4,6)])
  then have "wire s' @ readable (outputBuffer s') = accepted s'" "wire s @ readable (outputBuffer s) = accepted s"
    using assms(2) by (simp_all add: conn_inv_def streams_ok_def)
  then show ?thesis using output_run [OF assms(1,2,4,5,3,6)] by (metis append_assoc)
qed

lemma send_all_at_once:
  assumes "conn_inv sys s" "conn_state s = kConnected" "\<not> writing s" "readableBytes (outputBuffer s) = 0"
  shows "\<exists>s'. conn_send sys True (Wrote (length m)) m s = Inr s'"
  using sendInLoop_all_written [OF assms(1), of m "Wrote (length m)"] assms(2-4)
  by (auto simp: conn_send_def direct_count_def write_ok_def)

lemma sample_buffer_empty: "readableBytes sample_buffer = 0" "readable sample_buffer = []"
  by (simp_all add: sample_buffer_def readableBytes_def readable_def segment_def)

theorem sent_in_order_witness:
  "\<exists>s s'. connectEstablished sample_sys True sample_conn = Inr s \<and>
     rfold (conn_step sample_sys) [Send (Wrote 3) [1, 2, 3], WriteEvent (WriteErr 11)] s = Inr s' \<and>
     wire s' @ readable (outputBuffer s') = [1, 2, 3]"
proof -
  obtain s where s: "connectEstablished sample_sys True sample_conn = Inr s" "conn_inv sample_sys s"
    "conn_state s = kConnected" "outputBuffer s = sample_buffer" "\<not> writing s" "wire s = []"
    using sample_established by blast
  let ?m = "[1, 2, 3] :: byte list" and ?ops = "[Send (Wrote 3) [1, 2, 3], WriteEvent (WriteErr 11)]"
  obtain s1 where s1: "conn_send sample_sys True (Wrote 3) ?m s = Inr s1"
    using send_all_at_once [OF s(2,3,5), of ?m] s(4) sample_buffer_empty by (auto simp: numeral_3_eq_3)
  then have inv1: "conn_inv sample_sys s1"
    using conn_step_inv [OF sample_ctl_ok s(2), of "Send (Wrote 3) ?m"] by (simp add: write_ok_def max_size_def)
  obtain s' where s': "conn_handleWrite sample_sys True (WriteErr 11) s1 = Inr s'"
    using conn_handleWrite_ok [OF sample_ctl_ok inv1, of "WriteErr 11"] by (auto simp: write_ok_def)
  have run: "rfold (conn_step sample_sys) ?ops s = Inr s'" using s1 s' by simp
  have ok: "ops_ok sample_sys ?ops s" using s1 s' by (simp add: write_ok_def max_size_def)
  have "wire s' @ readable (outputBuffer s') = [1, 2, 3]"
    using sent_in_order [OF sample_ctl_ok s(2,3) ok _ run] s(4,6) sample_buffer_empty by simp
  with s(1) run show ?thesis by blast
qed

text \<open>
  C15. An open connection neither stalls nor cuts off: until it is closed, a connection watches for
  room to write exactly when bytes are waiting; \<^verbatim>\<open>shutdownWrite\<close> has only been called when every
  accepted byte had been handed to the kernel; and once a shutdown was requested, it has been
  carried out or bytes are still waiting, after the last of which it will be.
\<close>

theorem open_connection_live:
  assumes "epoll_ctl_ok sys" "conn_inv sys s0" "ops_ok sys ops s0" "rfold (conn_step sys) ops s0 = Inr s" "\<not> closed s"
  shows "(writing s \<longleftrightarrow> readable (outputBuffer s) \<noteq> []) \<and> (\<forall>(a, b) \<in> set (fins s). a = b) \<and>
    (conn_state s = kDisconnecting \<longrightarrow> fins s \<noteq> [] \<or> writing s)"
  using conn_run_inv [OF assms(1-4)] assms(5) by (auto simp: conn_inv_def open_ok_def)

theorem open_connection_live_witness:
  "\<exists>s. rfold (conn_step sample_sys) [Established] sample_conn = Inr s \<and> (writing s \<longleftrightarrow> readable (outputBuffer s) \<noteq> [])"
proof -
  obtain s where s: "rfold (conn_step sample_sys) [Established] sample_conn = Inr s" "\<not> closed s"
    using sample_established by auto
  have "ops_ok sample_sys [Established] sample_conn" by (auto split: sum.split)
  then show ?thesis using open_connection_live [OF sample_ctl_ok sample_conn_inv _ s] s(1) by blast
qed

text \<open>
  C16. Writing makes progress and never fails: whenever the kernel has room and takes \<open>n\<close> bytes,
  \<^verbatim>\<open>handleWrite\<close> succeeds and exactly the first \<open>n\<close> waiting bytes move to the kernel; when they
  were the last ones the connection stops watching for room, and if a shutdown was requested it
  calls \<^verbatim>\<open>shutdownWrite\<close>.
\<close>

theorem handleWrite_progress:
  assumes "epoll_ctl_ok sys" "conn_inv sys s" "writing s" "0 < n" "n \<le> length (readable (outputBuffer s))"
  shows "\<exists>s'. conn_handleWrite sys True (Wrote n) s = Inr s' \<and> conn_inv sys s' \<and>
    wire s' = wire s @ take n (readable (outputBuffer s)) \<and>
    readable (outputBuffer s') = drop n (readable (outputBuffer s))"
proof -
  obtain s' where s': "conn_handleWrite sys True (Wrote n) s = Inr s'" "conn_inv sys s'"
    "wire s' = wire s @ take n (readable (outputBuffer s))"
    using conn_handleWrite_ok [OF assms(1,2), of "Wrote n" n] assms(3,5) by (auto simp: write_ok_def)
  have "accepted s' = accepted s" using conn_handleWrite_fields [OF assms(1,2) s'(1)] by simp
  then have "wire s' @ readable (outputBuffer s') = wire s @ readable (outputBuffer s)"
    using s'(2) assms(2) by (simp add: conn_inv_def streams_ok_def)
  then have "readable (outputBuffer s') = drop n (readable (outputBuffer s))"
    using s'(3) by (metis append_assoc append_take_drop_id same_append_eq)
  with s' show ?thesis by simp
qed

lemma sample_waiting:
  "\<exists>s :: (nat, fd \<rightharpoonup> epoll_event) tcp_connection. conn_inv sample_sys s \<and> writing s \<and> readable (outputBuffer s) = [7, 8] \<and> wire s = []"
proof -
  obtain s where s: "connectEstablished sample_sys True sample_conn = Inr s" "conn_inv sample_sys s"
    "conn_state s = kConnected" "outputBuffer s = sample_buffer" "\<not> writing s" "wire s = []" "accepted s = []" "\<not> closed s"
    using sample_established by blast
  let ?m = "[7, 8] :: byte list" and ?w = "WriteErr 11"
  have n: "direct_count s ?w < length ?m" "direct_count s ?w = 0" by (simp_all add: direct_count_def)
  have buf: "buf_inv sample_buffer" using s(2,4) by (simp add: conn_inv_def streams_ok_def)
  have "append_ok (length ?m) sample_buffer" by (simp add: append_ok_def sample_buffer_def Let_def)
  moreover have "length ?m \<le> max_size" by (simp add: max_size_def)
  ultimately obtain b where b: "append_buffer ?m sample_buffer = Inr b"
    using append_buffer_iff [OF buf, of ?m] by blast
  let ?s = "(after_write 0 ?m s)\<lparr>outputBuffer := b\<rparr>"
  have ok: "chan_ok sample_sys ?s" "streams_ok ?s" "readable (outputBuffer ?s) \<noteq> []"
    "\<not> closed ?s \<longrightarrow> (\<forall>(a, b) \<in> set (fins ?s). a = b)"
    using after_append_ok [OF s(2) n(1)] b s(4) n(2) by (simp_all add: Let_def max_size_def)
  obtain s' where s': "conn_inv sample_sys s'" "\<exists>ch ce k. s' = ?s\<lparr>chan := ch, channels_ep := ce, kernel := k\<rparr>" "writing s'"
    by (rule enableWriting_inv [OF sample_ctl_ok ok(1-3)]) (use ok(4) in auto)
  then have "wire s' = []" "accepted s' = [7, 8]" using s(6,7) by (auto simp: after_write_def)
  moreover from this have "readable (outputBuffer s') = [7, 8]"
    using s'(1) by (simp add: conn_inv_def streams_ok_def)
  ultimately show ?thesis using s' by blast
qed

theorem handleWrite_progress_witness:
  "\<exists>(s :: (nat, fd \<rightharpoonup> epoll_event) tcp_connection) s'. readable (outputBuffer s) = [7, 8] \<and> conn_handleWrite sample_sys True (Wrote 1) s = Inr s' \<and>
     wire s' = [7] \<and> readable (outputBuffer s') = [8]"
proof -
  obtain s :: "(nat, fd \<rightharpoonup> epoll_event) tcp_connection"
    where s: "conn_inv sample_sys s" "writing s" "readable (outputBuffer s) = [7, 8]" "wire s = []"
    using sample_waiting by blast
  obtain s' where "conn_handleWrite sample_sys True (Wrote 1) s = Inr s'" "wire s' = [7]" "readable (outputBuffer s') = [8]"
    using handleWrite_progress [OF sample_ctl_ok s(1,2), of 1] s(3,4) by auto
  with s(3) show ?thesis by blast
qed

text \<open>
  Tearing down is safe: for every connection that was established, closed before or not,
  \<^verbatim>\<open>connectDestroyed\<close> fails no assertion, calls the connection callback in the state
  \<^verbatim>\<open>kDisconnected\<close>, and leaves neither the poller nor the kernel with a reference to the channel
  of the connection, so that the connection can be deleted.
\<close>

theorem teardown_unregisters:
  assumes "epoll_ctl_ok sys" "conn_inv sys s" "hasConnectionCallback s"
    and "conn_state s = kConnected \<or> conn_state s = kDisconnecting"
  shows "\<exists>s'. connectDestroyed sys True s = Inr s' \<and> conn_state s' = kDisconnected \<and>
    (\<forall>d. channels_ep s' d \<noteq> Some (conn_channel s')) \<and>
    (\<forall>d m. interest sys (kernel s') d \<noteq> Some (m, conn_channel s'))"
proof -
  obtain s' where s': "connectDestroyed sys True s = Inr s'" "conn_inv sys s'" "\<not> registered s'" "conn_state s' = kDisconnected"
    using connectDestroyed_ok [OF assms] by blast
  have ep: "ep_inv sys s'" using s'(2) by (simp add: conn_inv_def chan_ok_def)
  have none: "channels_ep s' d \<noteq> Some (conn_channel s')" for d
    using ep_invD(3) [OF ep, of d "conn_channel s'"] s'(3) by (auto simp: registered_def)
  then have "interest sys (kernel s') d \<noteq> Some (m, conn_channel s')" for d m
    by (auto simp: ep_invD(4) [OF ep] interest_of_def split: option.splits if_splits)
  with s' none show ?thesis by blast
qed

theorem teardown_unregisters_witness:
  "\<exists>s s'. connectEstablished sample_sys True sample_conn = Inr s \<and>
     connectDestroyed sample_sys True s = Inr s' \<and> conn_state s' = kDisconnected"
proof -
  obtain s where s: "connectEstablished sample_sys True sample_conn = Inr s" "conn_inv sample_sys s"
    "conn_state s = kConnected" "hasConnectionCallback s"
    using sample_established by blast
  then show ?thesis using teardown_unregisters [OF sample_ctl_ok s(2,4)] by blast
qed

text \<open>
  Closing does not end a connection: \<^verbatim>\<open>handleClose\<close> leaves the state as it was, so a \<^verbatim>\<open>send\<close> that
  comes after it (the peer is gone, so writing fails) is accepted, keeps its bytes and registers the
  channel with the kernel again; the next event of the dead connection then runs \<^verbatim>\<open>handleClose\<close>
  and the close callback a second time.
\<close>

theorem send_after_close_rearms:
  assumes "epoll_ctl_ok sys" "conn_inv sys s" "conn_state s = kConnected" "hasCloseCallback s"
    and "m \<noteq> []" "length m \<le> max_size" "append_ok (length m) (outputBuffer s)"
  shows "\<exists>s1 s2 s3. conn_handleClose sys True s = Inr s1 \<and> conn_send sys True (WriteErr e) m s1 = Inr s2 \<and>
    writing s2 \<and> conn_handleClose sys True s2 = Inr s3 \<and> calls s3 = calls s @ [CloseCallback, CloseCallback]"
proof -
  have close: "\<exists>s1. conn_handleClose sys True s = Inr s1 \<and> conn_inv sys s1 \<and> \<not> writing s1 \<and> conn_state s1 = kConnected \<and>
      hasCloseCallback s1 \<and> outputBuffer s1 = outputBuffer s \<and> calls s1 = calls s @ [CloseCallback]"
    if s: "conn_inv sys s" "conn_state s = kConnected" "hasCloseCallback s" for s
  proof -
    let ?s = "s\<lparr>closed := True\<rparr>"
    obtain s1 where s1: "Channel_request sys True DisableAll (conn_channel ?s) ?s = Inr s1" "conn_inv sys s1"
      "\<exists>ch ce k. s1 = ?s\<lparr>chan := ch, channels_ep := ce, kernel := k\<rparr>"
      "\<exists>c. chan s1 (conn_channel s1) = Some c \<and> isNoneEvent c \<and> ch_index c \<noteq> kNew"
      by (rule disableAll_inv [OF assms(1), of ?s]) (use s(1) in \<open>simp_all add: conn_inv_def streams_ok_def\<close>)
    have "\<not> writing s1" using s1(4) by (auto simp: writing_def isWriting_def isNoneEvent_def any_set_def kNoneEvent_def)
    with s s1 show ?thesis by (auto simp: conn_handleClose_def)
  qed
  obtain s1 where s1: "conn_handleClose sys True s = Inr s1" "conn_inv sys s1" "\<not> writing s1" "conn_state s1 = kConnected"
    "hasCloseCallback s1" "outputBuffer s1 = outputBuffer s" "calls s1 = calls s @ [CloseCallback]"
    using close [OF assms(2-4)] by blast
  have n: "direct_count s1 (WriteErr e) = 0" by (simp add: direct_count_def)
  have "buf_inv (outputBuffer s)" using assms(2) by (simp add: conn_inv_def streams_ok_def)
  then obtain b where b: "append_buffer m (outputBuffer s1) = Inr b"
    using append_buffer_iff assms(6,7) s1(6) by metis
  let ?s = "(after_write 0 m s1)\<lparr>outputBuffer := b\<rparr>"
  have ok: "chan_ok sys ?s" "streams_ok ?s" "readable (outputBuffer ?s) \<noteq> []" "\<not> closed ?s \<longrightarrow> (\<forall>(a, b) \<in> set (fins ?s). a = b)"
    using after_append_ok [OF s1(2), of "WriteErr e" m b] b n assms(5,6) by (simp_all add: Let_def)
  obtain s2 where s2: "Channel_request sys True EnableWriting (conn_channel ?s) ?s = Inr s2" "conn_inv sys s2"
    "\<exists>ch ce k. s2 = ?s\<lparr>chan := ch, channels_ep := ce, kernel := k\<rparr>" "writing s2"
    by (rule enableWriting_inv [OF assms(1) ok(1-3)]) (use ok(4) in auto)
  have send: "conn_send sys True (WriteErr e) m s1 = Inr s2"
    using sendInLoop_rest [OF s1(2), of "WriteErr e" m] n assms(5) s1(3,4) b s2(1) by (simp add: conn_send_def)
  have "conn_state s2 = kConnected" "hasCloseCallback s2" "calls s2 = calls s @ [CloseCallback]"
    using s2(3) s1 by (auto simp: after_write_def)
  then show ?thesis using close [OF s2(2)] s1(1) send s2(4) by auto
qed

theorem send_after_close_rearms_witness:
  "\<exists>s s1 s2. connectEstablished sample_sys True sample_conn = Inr s \<and> conn_handleClose sample_sys True s = Inr s1 \<and>
     conn_send sample_sys True (WriteErr 32) [1] s1 = Inr s2 \<and> writing s2"
proof -
  obtain s where s: "connectEstablished sample_sys True sample_conn = Inr s" "conn_inv sample_sys s"
    "conn_state s = kConnected" "hasCloseCallback s" "outputBuffer s = sample_buffer"
    using sample_established by blast
  have "append_ok (length [1 :: byte]) (outputBuffer s)" by (simp add: s(5) append_ok_def sample_buffer_def Let_def)
  then obtain s1 s2 where "conn_handleClose sample_sys True s = Inr s1"
    "conn_send sample_sys True (WriteErr 32) [1] s1 = Inr s2" "writing s2"
    using send_after_close_rearms [OF sample_ctl_ok s(2-4), of "[1]" 32] by (auto simp: max_size_def)
  with s(1) show ?thesis by blast
qed

end
