(* ===== verification/TcpServer.thy ===== *)
theory TcpServer
  imports TcpConnection EventLoopThreadPool Sockets
begin

text \<open>
  \<^verbatim>\<open>TcpServer.h\<close> and \<^verbatim>\<open>TcpServer.cc\<close>: which connections a server knows, and how long they live.

  The server runs in the base loop, a connection in the loop the pool chose for it. \<open>functors\<close>
  are the functors queued in the loops, each with its loop, in the order they were queued; a
  loop runs its own in that order, and the loops take turns in any way. \<open>conns\<close> are the
  connection objects that exist. A \<^verbatim>\<open>TcpConnectionPtr\<close> counts references: an object is freed when
  the map does not hold it and no functor with a reference to it is left. Of a connection the
  server sees the name, the loop and the socket; its state is followed through the functions
  that change it, whose work on the channel is in the theory of connections.

  \<open>freed\<close> and \<open>closedConns\<close> record the connections that were freed and closed, in order.
\<close>

section \<open>State\<close>

record server_conn =
  sc_name :: string
  sc_loop :: addr
  sc_fd :: fd
  sc_state :: conn_state
  sc_closed :: bool

datatype sv_functor = Establish nat | RemoveInLoop nat | Destroy nat

record tcp_server =
  sv_base :: addr
  sv_name :: string
  sv_pool :: thread_pool
  sv_started :: bool
  sv_listening :: bool
  nextConnId :: int
  connections :: "string \<rightharpoonup> nat"
  conns :: "nat \<rightharpoonup> server_conn"
  nextPtr :: nat
  functors :: "(addr \<times> sv_functor) list"
  freed :: "nat list"
  closedConns :: "nat list"

definition TcpServer_new :: "addr \<Rightarrow> sockaddr_in \<Rightarrow> tcp_server" where
  "TcpServer_new loop listenAddr = \<lparr>sv_base = loop, sv_name = InetAddress_toHostPort listenAddr,
     sv_pool = EventLoopThreadPool_new loop, sv_started = False, sv_listening = False, nextConnId = 1,
     connections = Map.empty, conns = Map.empty, nextPtr = 0, functors = [], freed = [], closedConns = []\<rparr>"

definition sv_setThreadNum :: "int \<Rightarrow> tcp_server \<Rightarrow> tcp_server result" where
  "sv_setThreadNum n s =
     rbind (check (0 \<le> n) AssertFailure) (\<lambda>_. Inr (s\<lparr>sv_pool := tp_setThreadNum n (sv_pool s)\<rparr>))"

text \<open>\<^verbatim>\<open>start\<close> in the thread of the base loop; \<open>r\<close> is what \<^verbatim>\<open>listen\<close> returns.\<close>

definition sv_start :: "bool \<Rightarrow> (int \<Rightarrow> addr) \<Rightarrow> int \<Rightarrow> tcp_server \<Rightarrow> tcp_server result" where
  "sv_start inLoop newLoop r s =
     rbind (if \<not> sv_started s
            then rbind (tp_start inLoop newLoop (sv_pool s)) (\<lambda>tp. Inr (s\<lparr>sv_started := True, sv_pool := tp\<rparr>))
            else Inr s) (\<lambda>s.
     if \<not> sv_listening s then rbind (listenOrDie r) (\<lambda>_. Inr (s\<lparr>sv_listening := True\<rparr>)) else Inr s)"

section \<open>Lives of connections\<close>

definition life_established :: "conn_state \<Rightarrow> conn_state result" where
  "life_established st = rbind (check (st = kConnecting) AssertFailure) (\<lambda>_. Inr kConnected)"

definition life_closing :: "conn_state \<Rightarrow> unit result" where
  "life_closing st = check (st = kConnected \<or> st = kDisconnecting) AssertFailure"

definition life_destroyed :: "conn_state \<Rightarrow> conn_state result" where
  "life_destroyed st = rbind (check (st = kConnected \<or> st = kDisconnecting) AssertFailure) (\<lambda>_. Inr kDisconnected)"

definition deref_conn :: "nat \<Rightarrow> tcp_server \<Rightarrow> server_conn result" where
  "deref_conn i s = (case conns s i of None \<Rightarrow> Inl DanglingPointer | Some c \<Rightarrow> Inr c)"

text \<open>The functors that hold a reference; \<^verbatim>\<open>connectEstablished\<close> is bound to a raw pointer.\<close>

fun holds :: "nat \<Rightarrow> sv_functor \<Rightarrow> bool" where
  "holds i (Establish j) = False"
| "holds i (RemoveInLoop j) = (i = j)"
| "holds i (Destroy j) = (i = j)"

definition referenced :: "nat \<Rightarrow> server_conn \<Rightarrow> tcp_server \<Rightarrow> bool" where
  "referenced i c s \<longleftrightarrow> connections s (sc_name c) = Some i \<or> (\<exists>lf\<in>set (functors s). holds i (snd lf))"

definition release :: "nat \<Rightarrow> tcp_server \<Rightarrow> tcp_server" where
  "release i s = (case conns s i of None \<Rightarrow> s | Some c \<Rightarrow>
     if referenced i c s then s else s\<lparr>conns := (conns s)(i := None), freed := freed s @ [i]\<rparr>)"

section \<open>Operations\<close>

definition run_established :: "nat \<Rightarrow> tcp_server \<Rightarrow> tcp_server result" where
  "run_established i s = rbind (deref_conn i s) (\<lambda>c.
     rbind (life_established (sc_state c)) (\<lambda>st. Inr (s\<lparr>conns := (conns s)(i \<mapsto> c\<lparr>sc_state := st\<rparr>)\<rparr>)))"

definition run_destroyed :: "nat \<Rightarrow> tcp_server \<Rightarrow> tcp_server result" where
  "run_destroyed i s = rbind (deref_conn i s) (\<lambda>c.
     rbind (life_destroyed (sc_state c)) (\<lambda>st. Inr (s\<lparr>conns := (conns s)(i \<mapsto> c\<lparr>sc_state := st\<rparr>)\<rparr>)))"

definition sv_newConnection :: "bool \<Rightarrow> fd \<Rightarrow> tcp_server \<Rightarrow> tcp_server result" where
  "sv_newConnection inLoop sockfd s =
     rbind (check inLoop FatalLog) (\<lambda>_.
     let buf = snprintf 32 (''#'' @ show_int (nextConnId s));
         connName = sv_name s @ buf;
         s = s\<lparr>nextConnId := i32 (nextConnId s + 1)\<rparr>
     in rbind (getNextLoop inLoop (sv_pool s)) (\<lambda>(ioLoop, tp).
        let i = nextPtr s;
            c = \<lparr>sc_name = connName, sc_loop = ioLoop, sc_fd = sockfd, sc_state = kConnecting, sc_closed = False\<rparr>;
            old = connections s connName;
            s = s\<lparr>sv_pool := tp, nextPtr := Suc i, conns := (conns s)(i \<mapsto> c), connections := (connections s)(connName \<mapsto> i)\<rparr>;
            s = (case old of None \<Rightarrow> s | Some j \<Rightarrow> release j s)
        in if ioLoop = sv_base s then run_established i s
           else Inr (s\<lparr>functors := functors s @ [(ioLoop, Establish i)]\<rparr>)))"

definition removeConnectionInLoop :: "bool \<Rightarrow> nat \<Rightarrow> tcp_server \<Rightarrow> tcp_server result" where
  "removeConnectionInLoop inLoop i s =
     rbind (check inLoop FatalLog) (\<lambda>_.
     rbind (deref_conn i s) (\<lambda>c.
     rbind (check (connections s (sc_name c) \<noteq> None) AssertFailure) (\<lambda>_.
       Inr (s\<lparr>connections := (connections s)(sc_name c := None),
              functors := functors s @ [(sc_loop c, Destroy i)]\<rparr>))))"

text \<open>\<^verbatim>\<open>removeConnection\<close>, the close callback, in the thread of loop \<open>l\<close>.\<close>

definition removeConnection :: "addr \<Rightarrow> nat \<Rightarrow> tcp_server \<Rightarrow> tcp_server result" where
  "removeConnection l i s =
     (if l = sv_base s then removeConnectionInLoop True i s
      else Inr (s\<lparr>functors := functors s @ [(sv_base s, RemoveInLoop i)]\<rparr>))"

text \<open>\<^verbatim>\<open>handleClose\<close> of a connection, with its close callback.\<close>

definition conn_closes :: "nat \<Rightarrow> tcp_server \<Rightarrow> tcp_server result" where
  "conn_closes i s = rbind (deref_conn i s) (\<lambda>c.
     rbind (life_closing (sc_state c)) (\<lambda>_.
       removeConnection (sc_loop c) i
         (s\<lparr>conns := (conns s)(i \<mapsto> c\<lparr>sc_closed := True\<rparr>), closedConns := closedConns s @ [i]\<rparr>)))"

fun run_functor :: "sv_functor \<Rightarrow> tcp_server \<Rightarrow> tcp_server result" where
  "run_functor (Establish i) s = run_established i s"
| "run_functor (RemoveInLoop i) s = rbind (removeConnectionInLoop True i s) (\<lambda>s. Inr (release i s))"
| "run_functor (Destroy i) s = rbind (run_destroyed i s) (\<lambda>s. Inr (release i s))"

fun take_functor :: "addr \<Rightarrow> (addr \<times> sv_functor) list \<Rightarrow> (sv_functor \<times> (addr \<times> sv_functor) list) option" where
  "take_functor l [] = None"
| "take_functor l (x # xs) = (if fst x = l then Some (snd x, xs)
     else map_option (\<lambda>(f, ys). (f, x # ys)) (take_functor l xs))"

text \<open>
  What can happen to a server: a socket is accepted, a connection that is watched is closed by
  its peer or shut down by the user, a loop runs its next functor. The poller reports nothing for
  a connection that is not registered yet or was closed.
\<close>

datatype sv_op = Accept fd | PeerCloses nat | UserShutdown nat | RunNext addr

fun sv_step :: "sv_op \<Rightarrow> tcp_server \<Rightarrow> tcp_server result" where
  "sv_step (Accept d) s = sv_newConnection True d s"
| "sv_step (PeerCloses i) s = (case conns s i of None \<Rightarrow> Inr s | Some c \<Rightarrow>
     if sc_state c \<noteq> kConnecting \<and> sc_state c \<noteq> kDisconnected \<and> \<not> sc_closed c then conn_closes i s else Inr s)"
| "sv_step (UserShutdown i) s = (case conns s i of None \<Rightarrow> Inr s | Some c \<Rightarrow>
     Inr (if sc_state c = kConnected then s\<lparr>conns := (conns s)(i \<mapsto> c\<lparr>sc_state := kDisconnecting\<rparr>)\<rparr> else s))"
| "sv_step (RunNext l) s = (case take_functor l (functors s) of None \<Rightarrow> Inr s
     | Some (f, fs) \<Rightarrow> run_functor f (s\<lparr>functors := fs\<rparr>))"

section \<open>The connections do what the server follows\<close>

lemma Channel_request_conn_state:
  "Channel_request sys b rq p s = Inr s' \<Longrightarrow> conn_state s' = conn_state s"
  by (auto simp: Channel_request_def change_def load_def EventLoop_updateChannel_def ep_updateChannel_def
      ep_update_def Let_def split: if_splits option.splits)

lemma removeChannel_conn_state:
  "EventLoop_removeChannel sys b p s = Inr s' \<Longrightarrow> conn_state s' = conn_state s"
  by (auto simp: EventLoop_removeChannel_def ep_removeChannel_def change_def load_def
      ep_update_def Let_def split: if_splits option.splits)

text \<open>The state of a connection changes as the server assumes, and under the same conditions.\<close>

lemma connectEstablished_life:
  "connectEstablished sys True s = Inr s' \<Longrightarrow> life_established (conn_state s) = Inr (conn_state s')"
  by (auto simp: connectEstablished_def life_established_def connectionCallback_def
      dest: Channel_request_conn_state)

lemma handleClose_life:
  "conn_handleClose sys True s = Inr s' \<Longrightarrow> life_closing (conn_state s) = Inr () \<and> conn_state s' = conn_state s"
  by (auto simp: conn_handleClose_def life_closing_def dest: Channel_request_conn_state)

lemma connectDestroyed_life:
  "connectDestroyed sys True s = Inr s' \<Longrightarrow> life_destroyed (conn_state s) = Inr (conn_state s')"
  by (auto simp: connectDestroyed_def life_destroyed_def connectionCallback_def
      dest!: Channel_request_conn_state removeChannel_conn_state)

text \<open>
  The contract between a server or client and its connections: being established, closed and
  destroyed changes the state of a connection as above.
\<close>

locale connection_contract =
  fixes state :: "'s \<Rightarrow> conn_state" and established closing destroyed :: "'s \<Rightarrow> 's result"
  assumes established_life: "established s = Inr s' \<Longrightarrow> life_established (state s) = Inr (state s')"
    and closing_life: "closing s = Inr s' \<Longrightarrow> life_closing (state s) = Inr () \<and> state s' = state s"
    and destroyed_life: "destroyed s = Inr s' \<Longrightarrow> life_destroyed (state s) = Inr (state s')"
begin

lemma established_once: "established s = Inr s1 \<Longrightarrow> established s1 \<noteq> Inr s2"
  using established_life [of s s1] established_life [of s1 s2] by (auto simp: life_established_def)

lemma destroyed_last:
  assumes "destroyed s = Inr s1"
  shows "destroyed s1 \<noteq> Inr s2" "closing s1 \<noteq> Inr s2" "established s1 \<noteq> Inr s2"
  using destroyed_life [OF assms] destroyed_life [of s1 s2] closing_life [of s1 s2] established_life [of s1 s2]
  by (auto simp: life_destroyed_def life_closing_def life_established_def)

end

interpretation cc: connection_contract conn_state "connectEstablished sys True" "conn_handleClose sys True"
  "connectDestroyed sys True" for sys
  by unfold_locales (rule connectEstablished_life handleClose_life connectDestroyed_life, assumption)+

section \<open>Invariant\<close>

fun target :: "sv_functor \<Rightarrow> nat" where
  "target (Establish i) = i" | "target (RemoveInLoop i) = i" | "target (Destroy i) = i"

definition todo :: "nat \<Rightarrow> (addr \<times> sv_functor) list \<Rightarrow> (addr \<times> sv_functor) list" where
  "todo i fs = filter (\<lambda>lf. target (snd lf) = i) fs"

definition name_of :: "tcp_server \<Rightarrow> nat \<Rightarrow> string" where
  "name_of s i = sv_name s @ ''#'' @ show_int (int i + 1)"

text \<open>
  The stages of a connection: waiting to be established, open, closed and waiting to be removed
  from the map, removed and waiting to be destroyed.
\<close>

definition stage_ok :: "addr \<Rightarrow> nat \<Rightarrow> server_conn \<Rightarrow> nat option \<Rightarrow> (addr \<times> sv_functor) list \<Rightarrow> bool" where
  "stage_ok base i c entry fs \<longleftrightarrow>
     (if sc_state c = kConnecting then \<not> sc_closed c \<and> entry = Some i \<and> fs = [(sc_loop c, Establish i)]
      else (sc_state c = kConnected \<or> sc_state c = kDisconnecting) \<and>
        (if sc_closed c then entry = Some i \<and> fs = [(base, RemoveInLoop i)] \<or> entry = None \<and> fs = [(sc_loop c, Destroy i)]
         else entry = Some i \<and> fs = []))"

definition conn_ok :: "tcp_server \<Rightarrow> nat \<Rightarrow> bool" where
  "conn_ok s i \<longleftrightarrow> (case conns s i of
       None \<Rightarrow> todo i (functors s) = [] \<and> connections s (name_of s i) = None
     | Some c \<Rightarrow> i < nextPtr s \<and> sc_name c = name_of s i \<and> sc_loop c = loop_for (sv_pool s) i \<and>
         (sc_closed c \<longleftrightarrow> i \<in> set (closedConns s)) \<and>
         stage_ok (sv_base s) i c (connections s (name_of s i)) (todo i (functors s)))"

definition sv_inv :: "tcp_server \<Rightarrow> bool" where
  "sv_inv s \<longleftrightarrow> (\<forall>i. conn_ok s i) \<and>
     (\<forall>n i. connections s n = Some i \<longrightarrow> n = name_of s i) \<and>
     nextConnId s = int (nextPtr s) + 1 \<and> tp_at (nextPtr s) (sv_pool s) \<and>
     distinct (freed s) \<and> set (freed s) = {i. i < nextPtr s \<and> conns s i = None} \<and>
     distinct (closedConns s) \<and> set (freed s) \<subseteq> set (closedConns s) \<and> (\<forall>i\<in>set (closedConns s). i < nextPtr s)"

lemma name_of_inj [simp]: "name_of s i = name_of s j \<longleftrightarrow> i = j"
  by (simp add: name_of_def show_int_nonneg nat_add_distrib)

lemma todo_simps [simp]:
  "todo i [] = []" "todo i (fs @ gs) = todo i fs @ todo i gs"
  "todo i (lf # fs) = (if target (snd lf) = i then lf # todo i fs else todo i fs)"
  by (simp_all add: todo_def)

lemma take_functor_Some:
  "take_functor l fs = Some (f, gs) \<Longrightarrow> \<exists>as bs. fs = as @ (l, f) # bs \<and> gs = as @ bs"
proof (induction fs arbitrary: gs)
  case (Cons x fs)
  show ?case
  proof (cases "fst x = l")
    case True
    then show ?thesis using Cons.prems by (intro exI [of _ "[]"] exI [of _ fs]) auto
  next
    case False
    then obtain ys where ys: "take_functor l fs = Some (f, ys)" "gs = x # ys" using Cons.prems by auto
    from Cons.IH [OF ys(1)] obtain as bs where "fs = as @ (l, f) # bs" "ys = as @ bs" by blast
    with ys(2) show ?thesis by (intro exI [of _ "x # as"] exI [of _ bs]) simp
  qed
qed simp

text \<open>A functor that is taken was the only one of its connection.\<close>

lemma take_functor_todo:
  assumes "take_functor l fs = Some (f, gs)"
  shows "(l, f) \<in> set (todo (target f) fs)" "\<And>j. j \<noteq> target f \<Longrightarrow> todo j gs = todo j fs"
    "length (todo (target f) fs) \<le> 1 \<Longrightarrow> todo (target f) gs = []"
  using take_functor_Some [OF assms] by auto

text \<open>A step that concerns one connection only keeps the invariant if it keeps it for that one.\<close>

lemma sv_inv_one:
  assumes inv: "sv_inv s"
    and same: "sv_base s' = sv_base s" "sv_name s' = sv_name s" "sv_pool s' = sv_pool s"
      "nextConnId s' = nextConnId s" "nextPtr s' = nextPtr s"
    and others: "\<And>j. j \<noteq> i \<Longrightarrow> conns s' j = conns s j"
      "\<And>j. j \<noteq> i \<Longrightarrow> todo j (functors s') = todo j (functors s)"
      "connections s' = connections s \<or> connections s' = (connections s)(name_of s i := None)"
    and closing: "closedConns s' = closedConns s \<or>
      i < nextPtr s \<and> i \<notin> set (closedConns s) \<and> closedConns s' = closedConns s @ [i]"
    and freeing: "freed s' = freed s \<and> (conns s' i = None \<longleftrightarrow> conns s i = None) \<or>
      freed s' = freed s @ [i] \<and> conns s i \<noteq> None \<and> i \<in> set (closedConns s) \<and> conns s' i = None"
    and one: "conn_ok s' i"
  shows "sv_inv s'"
proof -
  have name: "name_of s' = name_of s" by (simp add: name_of_def fun_eq_iff same)
  have "conn_ok s' j" for j
  proof (cases "j = i")
    case False
    moreover have "connections s' (name_of s j) = connections s (name_of s j)" using others(3) False by auto
    moreover have "j \<in> set (closedConns s') \<longleftrightarrow> j \<in> set (closedConns s)" using closing False by auto
    moreover have "conn_ok s j" using inv by (simp add: sv_inv_def)
    ultimately show ?thesis using others(1,2) [of j] by (cases "conns s j") (simp_all add: conn_ok_def name same)
  qed (simp add: one)
  moreover have "n = name_of s' j" if "connections s' n = Some j" for n j
    using that inv others(3) by (auto simp: sv_inv_def name split: if_splits)
  moreover have "set (freed s') = {j. j < nextPtr s' \<and> conns s' j = None} \<and> distinct (freed s')"
  proof -
    have old: "set (freed s) = {j. j < nextPtr s \<and> conns s j = None}" "distinct (freed s)"
      using inv by (simp_all add: sv_inv_def)
    have eq: "conns s' j = None \<longleftrightarrow> conns s j = None" if "j \<noteq> i" for j using others(1) that by simp
    from freeing show ?thesis
    proof
      assume f: "freed s' = freed s \<and> (conns s' i = None \<longleftrightarrow> conns s i = None)"
      then have "conns s' j = None \<longleftrightarrow> conns s j = None" for j using eq by (cases "j = i") auto
      then show ?thesis using f old same by simp
    next
      assume f: "freed s' = freed s @ [i] \<and> conns s i \<noteq> None \<and> i \<in> set (closedConns s) \<and> conns s' i = None"
      then have lt: "i < nextPtr s" using inv by (auto simp: sv_inv_def)
      have "conns s' j = None \<longleftrightarrow> j = i \<or> conns s j = None" for j using eq [of j] f by (cases "j = i") auto
      then show ?thesis using f lt old(2) by (auto simp: old(1) same)
    qed
  qed
  moreover have "distinct (closedConns s') \<and> set (freed s') \<subseteq> set (closedConns s') \<and>
      (\<forall>i\<in>set (closedConns s'). i < nextPtr s')"
  proof -
    have "distinct (closedConns s)" "set (freed s) \<subseteq> set (closedConns s)" "\<forall>i\<in>set (closedConns s). i < nextPtr s"
      using inv unfolding sv_inv_def by blast+
    with closing freeing show ?thesis by (auto simp: same)
  qed
  moreover have "nextConnId s' = int (nextPtr s') + 1" "tp_at (nextPtr s') (sv_pool s')"
    using inv unfolding sv_inv_def same by blast+
  ultimately show ?thesis unfolding sv_inv_def by blast
qed

section \<open>Steps keep the invariant\<close>

lemma sv_inv_conn:
  assumes "sv_inv s" "conns s i = Some c"
  shows "i < nextPtr s" "sc_name c = name_of s i" "sc_loop c = loop_for (sv_pool s) i"
    "sc_closed c \<longleftrightarrow> i \<in> set (closedConns s)"
    "stage_ok (sv_base s) i c (connections s (name_of s i)) (todo i (functors s))"
  using assms by (auto simp: sv_inv_def conn_ok_def split: option.splits dest: spec [of _ i])

lemma name_of_frame [simp]:
  "name_of (s\<lparr>conns := cs\<rparr>) = name_of s" "name_of (s\<lparr>functors := fs\<rparr>) = name_of s"
  "name_of (s\<lparr>connections := m\<rparr>) = name_of s" "name_of (s\<lparr>closedConns := xs\<rparr>) = name_of s"
  "name_of (s\<lparr>freed := xs\<rparr>) = name_of s" "name_of (s\<lparr>nextPtr := n\<rparr>) = name_of s"
  "name_of (s\<lparr>nextConnId := k\<rparr>) = name_of s" "name_of (s\<lparr>sv_pool := tp\<rparr>) = name_of s"
  by (simp_all add: name_of_def fun_eq_iff)

text \<open>A functor that is due, and what it finds.\<close>

lemma due_functor:
  assumes inv: "sv_inv s" and f: "take_functor l (functors s) = Some (f, fs)"
  obtains c where "conns s (target f) = Some c" "todo (target f) fs = []"
    "(l, f) \<in> set (todo (target f) (functors s))"
proof -
  note F = take_functor_todo [OF f]
  have ok: "conn_ok s (target f)" using inv by (simp add: sv_inv_def)
  with F(1) obtain c where c: "conns s (target f) = Some c" by (cases "conns s (target f)") (auto simp: conn_ok_def)
  have "length (todo (target f) (functors s)) \<le> 1"
    using sv_inv_conn(5) [OF inv c] by (auto simp: stage_ok_def split: if_splits)
  with F c show ?thesis using that by blast
qed

lemma run_established_inv:
  assumes inv: "sv_inv s" and f: "take_functor l (functors s) = Some (Establish i, fs)"
  shows "yields {} sv_inv (run_established i (s\<lparr>functors := fs\<rparr>))"
proof -
  obtain c where c: "conns s i = Some c" "todo i fs = []" "(l, Establish i) \<in> set (todo i (functors s))"
    using due_functor [OF inv f] by auto
  note C = sv_inv_conn [OF inv c(1)]
  have st: "sc_state c = kConnecting" "\<not> sc_closed c" "connections s (name_of s i) = Some i"
    using C(5) c(3) by (auto simp: stage_ok_def split: if_splits)
  let ?s = "s\<lparr>functors := fs, conns := (conns s)(i \<mapsto> c\<lparr>sc_state := kConnected\<rparr>)\<rparr>"
  have "sv_inv ?s"
  proof (rule sv_inv_one [OF inv, of _ i])
    show "conn_ok ?s i" using C st c(2) by (simp add: conn_ok_def stage_ok_def)
    show "todo j (functors ?s) = todo j (functors s)" if "j \<noteq> i" for j
      using take_functor_todo(2) [OF f] that by simp
  qed (use c(1) in simp_all)
  then show ?thesis using c(1) st by (simp add: run_established_def deref_conn_def life_established_def)
qed

lemma removeConnectionInLoop_inv:
  assumes inv: "sv_inv s" and c: "conns s i = Some c" "sc_closed c" "todo i fs = []"
    and entry: "connections s (name_of s i) = Some i" and fs: "\<And>j. j \<noteq> i \<Longrightarrow> todo j fs = todo j (functors s)"
  shows "removeConnectionInLoop True i (s\<lparr>functors := fs\<rparr>) = Inr (s\<lparr>functors := fs @ [(sc_loop c, Destroy i)],
      connections := (connections s)(name_of s i := None)\<rparr>)"
    "sv_inv (s\<lparr>functors := fs @ [(sc_loop c, Destroy i)], connections := (connections s)(name_of s i := None)\<rparr>)"
proof -
  let ?s = "s\<lparr>functors := fs @ [(sc_loop c, Destroy i)], connections := (connections s)(name_of s i := None)\<rparr>"
  note C = sv_inv_conn [OF inv c(1)]
  show "removeConnectionInLoop True i (s\<lparr>functors := fs\<rparr>) = Inr ?s"
    using c(1) C(2) entry by (simp add: removeConnectionInLoop_def deref_conn_def)
  show "sv_inv ?s"
  proof (rule sv_inv_one [OF inv, of _ i])
    show "conn_ok ?s i" using C c by (simp add: conn_ok_def stage_ok_def split: if_splits)
    show "todo j (functors ?s) = todo j (functors s)" if "j \<noteq> i" for j using fs that by simp
  qed simp_all
qed

lemma release_referenced: "conns s i = Some c \<Longrightarrow> referenced i c s \<Longrightarrow> release i s = s"
  by (simp add: release_def)

lemma run_remove_inv:
  assumes inv: "sv_inv s" and f: "take_functor l (functors s) = Some (RemoveInLoop i, fs)"
  shows "yields {} sv_inv (run_functor (RemoveInLoop i) (s\<lparr>functors := fs\<rparr>))"
proof -
  obtain c where c: "conns s i = Some c" "todo i fs = []" "(l, RemoveInLoop i) \<in> set (todo i (functors s))"
    using due_functor [OF inv f] by auto
  have st: "sc_closed c" "connections s (name_of s i) = Some i"
    using sv_inv_conn(5) [OF inv c(1)] c(3) by (auto simp: stage_ok_def split: if_splits)
  note R = removeConnectionInLoop_inv [OF inv c(1) st(1) c(2) st(2)]
  show ?thesis
    using R [of] take_functor_todo(2) [OF f] c(1)
    by (simp add: release_def referenced_def)
qed

lemma run_destroyed_inv:
  assumes inv: "sv_inv s" and f: "take_functor l (functors s) = Some (Destroy i, fs)"
  shows "yields {} sv_inv (run_functor (Destroy i) (s\<lparr>functors := fs\<rparr>))"
proof -
  obtain c where c: "conns s i = Some c" "todo i fs = []" "(l, Destroy i) \<in> set (todo i (functors s))"
    using due_functor [OF inv f] by auto
  note C = sv_inv_conn [OF inv c(1)]
  have st: "sc_state c = kConnected \<or> sc_state c = kDisconnecting" "sc_closed c" "connections s (name_of s i) = None"
    using C(5) c(3) by (auto simp: stage_ok_def split: if_splits)
  have none: "\<not> holds i (snd lf)" if "lf \<in> set fs" for lf
  proof
    assume "holds i (snd lf)"
    then have "lf \<in> set (todo i fs)" using that by (cases "snd lf") (auto simp: todo_def)
    with c(2) show False by simp
  qed
  let ?s = "s\<lparr>functors := fs, conns := (conns s)(i := None), freed := freed s @ [i]\<rparr>"
  have "sv_inv ?s"
  proof (rule sv_inv_one [OF inv, of _ i])
    show "conn_ok ?s i" using c(2) st(3) by (simp add: conn_ok_def)
    show "todo j (functors ?s) = todo j (functors s)" if "j \<noteq> i" for j
      using take_functor_todo(2) [OF f] that by simp
  qed (use c(1) C(4) st(2) in simp_all)
  moreover have "run_functor (Destroy i) (s\<lparr>functors := fs\<rparr>) = Inr ?s"
    using c(1) st C(2) none
    by (auto simp: run_destroyed_def deref_conn_def life_destroyed_def release_def referenced_def)
  ultimately show ?thesis by (simp only: yields_Inr)
qed

lemma conn_closes_inv:
  assumes inv: "sv_inv s" and c: "conns s i = Some c" "sc_state c \<noteq> kConnecting" "\<not> sc_closed c"
  shows "yields {} sv_inv (conn_closes i s)"
proof -
  note C = sv_inv_conn [OF inv c(1)]
  let ?c = "c\<lparr>sc_closed := True\<rparr>"
  let ?s = "s\<lparr>conns := (conns s)(i \<mapsto> ?c), closedConns := closedConns s @ [i]\<rparr>"
  let ?r = "?s\<lparr>functors := functors s @ [(sv_base s, RemoveInLoop i)]\<rparr>"
  have st: "sc_state c = kConnected \<or> sc_state c = kDisconnecting" "connections s (name_of s i) = Some i"
      "todo i (functors s) = []"
    using C(5) c(2,3) by (auto simp: stage_ok_def split: if_splits)
  have r: "sv_inv ?r"
  proof (rule sv_inv_one [OF inv, of _ i])
    show "conn_ok ?r i" using C st c(2) by (simp add: conn_ok_def stage_ok_def)
  qed (use c C in simp_all)
  have "conn_closes i s = removeConnection (sc_loop c) i ?s"
    using c st(1) by (auto simp: conn_closes_def deref_conn_def life_closing_def)
  moreover have "yields {} sv_inv (removeConnection (sc_loop c) i ?s)"
  proof (cases "sc_loop c = sv_base s")
    case True
    have todo: "todo j (functors s) = todo j (functors ?r)" if "j \<noteq> i" for j using that by simp
    have c': "conns ?r i = Some ?c" "sc_closed ?c" "connections ?r (name_of ?r i) = Some i" using st(2) by simp_all
    have "?s = ?r\<lparr>functors := functors s\<rparr>" by simp
    then have "removeConnectionInLoop True i ?s = removeConnectionInLoop True i (?r\<lparr>functors := functors s\<rparr>)"
      by (rule arg_cong)
    also note removeConnectionInLoop_inv(1) [OF r c'(1,2) st(3) c'(3) todo]
    finally have run: "removeConnectionInLoop True i ?s = Inr (?r\<lparr>functors := functors s @ [(sc_loop ?c, Destroy i)],
        connections := (connections ?r)(name_of ?r i := None)\<rparr>)" .
    have "yields {} sv_inv (removeConnectionInLoop True i ?s)"
      unfolding run yields_Inr by (rule removeConnectionInLoop_inv(2) [OF r c'(1,2) st(3) c'(3) todo])
    with True show ?thesis by (simp add: removeConnection_def)
  next
    case False
    then show ?thesis using r by (simp add: removeConnection_def)
  qed
  ultimately show ?thesis by simp
qed

lemma UserShutdown_inv:
  assumes inv: "sv_inv s" and c: "conns s i = Some c" "sc_state c = kConnected"
  shows "sv_inv (s\<lparr>conns := (conns s)(i \<mapsto> c\<lparr>sc_state := kDisconnecting\<rparr>)\<rparr>)"
proof (rule sv_inv_one [OF inv, of _ i])
  show "conn_ok (s\<lparr>conns := (conns s)(i \<mapsto> c\<lparr>sc_state := kDisconnecting\<rparr>)\<rparr>) i"
    using sv_inv_conn [OF inv c(1)] c(2) by (auto simp: conn_ok_def stage_ok_def split: if_splits)
qed (use c in simp_all)

text \<open>The name of a new connection is not cut off and is new.\<close>

lemma new_name:
  assumes "sv_inv s" "nextPtr s < 2 ^ 31 - 2"
  shows "sv_name s @ snprintf 32 (''#'' @ show_int (nextConnId s)) = name_of s (nextPtr s)"
    "i32 (nextConnId s + 1) = int (Suc (nextPtr s)) + 1" "connections s (name_of s (nextPtr s)) = None"
    "conns s (nextPtr s) = None"
proof -
  have id: "nextConnId s = int (nextPtr s) + 1" using assms(1) by (simp add: sv_inv_def)
  have "Suc (nextPtr s) < 10 ^ Suc 9" using assms(2) by simp
  from length_show_nat [OF this] have "length (show_nat (Suc (nextPtr s))) \<le> 10" by simp
  then show "sv_name s @ snprintf 32 (''#'' @ show_int (nextConnId s)) = name_of s (nextPtr s)"
    by (simp add: snprintf_def name_of_def id show_int_nonneg nat_add_distrib)
  show "i32 (nextConnId s + 1) = int (Suc (nextPtr s)) + 1" using assms(2) by (simp add: i32_def id)
  show none: "conns s (nextPtr s) = None"
    using sv_inv_conn(1) [OF assms(1), of "nextPtr s"] by (cases "conns s (nextPtr s)") auto
  have "conn_ok s (nextPtr s)" using assms(1) by (simp add: sv_inv_def)
  with none show "connections s (name_of s (nextPtr s)) = None" by (simp add: conn_ok_def)
qed

definition server_added :: "addr \<Rightarrow> conn_state \<Rightarrow> fd \<Rightarrow> thread_pool \<Rightarrow> (addr \<times> sv_functor) list \<Rightarrow> tcp_server \<Rightarrow> tcp_server" where
  "server_added ioLoop st d tp fs s =
     s\<lparr>nextConnId := int (Suc (nextPtr s)) + 1, sv_pool := tp, nextPtr := Suc (nextPtr s),
       conns := (conns s)(nextPtr s \<mapsto> \<lparr>sc_name = name_of s (nextPtr s), sc_loop = ioLoop, sc_fd = d,
         sc_state = st, sc_closed = False\<rparr>),
       connections := (connections s)(name_of s (nextPtr s) \<mapsto> nextPtr s), functors := functors s @ fs\<rparr>"

lemma server_added_inv:
  assumes inv: "sv_inv s" and tp: "tp = (sv_pool s)\<lparr>next_ix := n\<rparr>" "tp_at (Suc (nextPtr s)) tp"
    and loop: "ioLoop = loop_for (sv_pool s) (nextPtr s)"
    and st: "st = kConnecting \<and> fs = [(ioLoop, Establish (nextPtr s))] \<or> st = kConnected \<and> fs = []"
  shows "sv_inv (server_added ioLoop st d tp fs s)"
proof -
  let ?i = "nextPtr s" and ?s = "server_added ioLoop st d tp fs s"
  have name: "name_of ?s = name_of s" by (simp add: server_added_def)
  have lt: "i < ?i" if "i \<in> set (closedConns s)" for i using inv that by (simp add: sv_inv_def)
  have none: "conns s ?i = None" using sv_inv_conn(1) [OF inv, of ?i] by (cases "conns s ?i") auto
  have ok: "conn_ok s j" for j using inv by (simp add: sv_inv_def)
  have "conn_ok ?s j" for j
  proof (cases "j = ?i")
    case True
    have "todo ?i (functors s) = []" using ok [of ?i] none by (simp add: conn_ok_def)
    then show ?thesis
      using st True loop tp lt [of ?i] by (auto simp: conn_ok_def name server_added_def stage_ok_def)
  next
    case False
    moreover have "todo j (functors ?s) = todo j (functors s)" using st False by (auto simp: server_added_def)
    moreover have "connections ?s (name_of s j) = connections s (name_of s j)" using False by (simp add: server_added_def)
    ultimately show ?thesis using ok [of j]
      by (cases "conns s j") (auto simp: conn_ok_def name, auto simp: server_added_def tp(1))
  qed
  moreover have "n = name_of ?s j" if "connections ?s n = Some j" for n j
    using that inv by (auto simp: sv_inv_def name server_added_def split: if_splits)
  moreover have "set (freed s) = {i. i < ?i \<and> conns s i = None}" using inv by (simp add: sv_inv_def)
  then have "set (freed ?s) = {i. i < nextPtr ?s \<and> conns ?s i = None}"
    by (auto simp: server_added_def less_Suc_eq)
  moreover have "\<forall>i\<in>set (closedConns ?s). i < nextPtr ?s" using lt by (simp add: server_added_def less_Suc_eq)
  moreover have "nextConnId ?s = int (nextPtr ?s) + 1" "tp_at (nextPtr ?s) (sv_pool ?s)"
    using tp(2) by (simp_all add: server_added_def)
  moreover have "distinct (freed ?s)" "distinct (closedConns ?s)" "set (freed ?s) \<subseteq> set (closedConns ?s)"
    using inv unfolding sv_inv_def by (auto simp: server_added_def)
  ultimately show ?thesis unfolding sv_inv_def by blast
qed

lemma if_both: "P x \<Longrightarrow> P y \<Longrightarrow> P (if b then x else y)"
  by simp

lemma sv_newConnection_run:
  assumes inv: "sv_inv s" and few: "nextPtr s < 2 ^ 31 - 2"
  obtains n tp where "tp = (sv_pool s)\<lparr>next_ix := n\<rparr>" "tp_at (Suc (nextPtr s)) tp"
    "sv_newConnection True d s = Inr (if loop_for (sv_pool s) (nextPtr s) = sv_base s
      then server_added (loop_for (sv_pool s) (nextPtr s)) kConnected d tp [] s
      else server_added (loop_for (sv_pool s) (nextPtr s)) kConnecting d tp [(loop_for (sv_pool s) (nextPtr s), Establish (nextPtr s))] s)"
proof -
  note N = new_name [OF inv few]
  have "tp_at (nextPtr s) (sv_pool s)" using inv by (simp add: sv_inv_def)
  from getNextLoop_at [OF this] obtain n where n: "getNextLoop True (sv_pool s) =
      Inr (loop_for (sv_pool s) (nextPtr s), (sv_pool s)\<lparr>next_ix := n\<rparr>)"
    "tp_at (Suc (nextPtr s)) ((sv_pool s)\<lparr>next_ix := n\<rparr>)" .
  show ?thesis
    by (rule that [of "(sv_pool s)\<lparr>next_ix := n\<rparr>" n])
      (use N n in \<open>simp_all add: sv_newConnection_def Let_def run_established_def deref_conn_def life_established_def server_added_def\<close>)
qed

lemma sv_newConnection_inv:
  assumes inv: "sv_inv s" and few: "nextPtr s < 2 ^ 31 - 2"
  shows "yields {} sv_inv (sv_newConnection True d s)"
proof -
  let ?l = "loop_for (sv_pool s) (nextPtr s)"
  obtain n tp where tp: "tp = (sv_pool s)\<lparr>next_ix := n\<rparr>" "tp_at (Suc (nextPtr s)) tp"
    "sv_newConnection True d s = Inr (if ?l = sv_base s then server_added ?l kConnected d tp [] s
      else server_added ?l kConnecting d tp [(?l, Establish (nextPtr s))] s)"
    by (rule sv_newConnection_run [OF inv few])
  have "sv_inv (server_added ?l kConnected d tp [] s)"
    by (rule server_added_inv [OF inv tp(1,2) refl]) simp
  moreover have "sv_inv (server_added ?l kConnecting d tp [(?l, Establish (nextPtr s))] s)"
    by (rule server_added_inv [OF inv tp(1,2) refl]) simp
  ultimately show ?thesis unfolding tp(3) yields_Inr by (rule if_both [where P = sv_inv])
qed

section \<open>Properties\<close>

lemma sv_step_inv:
  assumes inv: "sv_inv s" and few: "nextPtr s < 2 ^ 31 - 2"
  shows "yields {} sv_inv (sv_step op s)"
proof (cases op)
  case (Accept d)
  then show ?thesis using sv_newConnection_inv [OF inv few] by simp
next
  case (PeerCloses i)
  then show ?thesis using conn_closes_inv [OF inv, of i] inv by (auto split: option.split)
next
  case (UserShutdown i)
  then show ?thesis using UserShutdown_inv [OF inv, of i] inv by (auto split: option.split)
next
  case (RunNext l)
  show ?thesis
  proof (cases "take_functor l (functors s)")
    case None
    with RunNext inv show ?thesis by simp
  next
    case (Some a)
    obtain f fs where a: "a = (f, fs)" by (cases a)
    have "yields {} sv_inv (run_functor f (s\<lparr>functors := fs\<rparr>))"
      using Some a run_established_inv [OF inv] run_remove_inv [OF inv] run_destroyed_inv [OF inv]
      by (cases f) (simp_all only: run_functor.simps)
    with RunNext Some a show ?thesis by simp
  qed
qed

lemma release_nextPtr [simp]: "nextPtr (release i s) = nextPtr s"
  by (simp add: release_def split: option.split)

lemma run_functor_nextPtr: "run_functor f s = Inr s' \<Longrightarrow> nextPtr s' = nextPtr s"
  by (cases f) (auto simp: run_established_def run_destroyed_def removeConnectionInLoop_def)

lemma sv_step_nextPtr: "sv_step op s = Inr s' \<Longrightarrow> nextPtr s' \<le> Suc (nextPtr s)"
proof (cases op)
  case (Accept d)
  moreover assume "sv_step op s = Inr s'"
  ultimately show ?thesis
    by (auto simp: sv_newConnection_def Let_def run_established_def split: if_splits option.splits)
qed (auto simp: conn_closes_def removeConnection_def removeConnectionInLoop_def
    dest: run_functor_nextPtr split: option.splits if_splits)

lemma few_after: "rfold sv_step ops s = Inr s' \<Longrightarrow> nextPtr s' \<le> nextPtr s + length ops"
proof (induction ops arbitrary: s)
  case (Cons op ops)
  then obtain s1 where "sv_step op s = Inr s1" "rfold sv_step ops s1 = Inr s'" by auto
  with Cons.IH sv_step_nextPtr [of op s s1] show ?case by fastforce
qed simp

interpretation sv: total_machine sv_step "\<lambda>op s. nextPtr s < 2 ^ 31 - 2" sv_inv
proof unfold_locales
  fix s op assume "sv_inv s" "nextPtr s < 2 ^ 31 - 2"
  then have "yields {} sv_inv (sv_step op s)" by (rule sv_step_inv)
  then show "\<exists>s'. sv_step op s = Inr s'" and "\<And>s'. sv_step op s = Inr s' \<Longrightarrow> sv_inv s'"
    by (auto simp: yields_returns)
qed

lemma few_connections:
  "nextPtr s + length ops < 2 ^ 31 - 2 \<Longrightarrow> run_ok (\<lambda>op s. nextPtr s < 2 ^ 31 - 2) sv_step ops s"
proof (induction ops arbitrary: s)
  case (Cons op ops)
  have "run_ok (\<lambda>op s. nextPtr s < 2 ^ 31 - 2) sv_step ops s'" if "sv_step op s = Inr s'" for s'
    using Cons.IH [of s'] sv_step_nextPtr [OF that] Cons.prems by simp
  then show ?case using Cons.prems by (simp split: sum.split)
qed simp

lemma sv_start_inv:
  assumes "sv_setThreadNum n (TcpServer_new loop addr) = Inr s0" "sv_start True newLoop r s0 = Inr s"
  shows "sv_inv s" "nextPtr s = 0" "sv_name s = InetAddress_toHostPort addr"
    "loop_for (sv_pool s) i = (if n = 0 then loop else newLoop (int i mod n))"
proof -
  have n: "0 \<le> n" and s0: "s0 = (TcpServer_new loop addr)\<lparr>sv_pool := tp_setThreadNum n (EventLoopThreadPool_new loop)\<rparr>"
    using assms(1) by (auto simp: sv_setThreadNum_def TcpServer_new_def)
  obtain tp where tp: "tp_start True newLoop (tp_setThreadNum n (EventLoopThreadPool_new loop)) = Inr tp"
      "s = s0\<lparr>sv_started := True, sv_pool := tp, sv_listening := True\<rparr>"
    using assms(2) by (auto simp: sv_start_def s0 TcpServer_new_def listenOrDie_def split: if_splits)
  note st = tp_start_at [OF tp(1) n]
  show "sv_inv s" using st(1) by (simp add: sv_inv_def conn_ok_def tp(2) s0 TcpServer_new_def)
  show "nextPtr s = 0" "sv_name s = InetAddress_toHostPort addr" by (simp_all add: tp(2) s0 TcpServer_new_def)
  show "loop_for (sv_pool s) i = (if n = 0 then loop else newLoop (int i mod n))"
    using st(2,3) n by (simp add: tp(2) loop_for_def nat_mod_distrib zmod_int)
qed

text \<open>The name of the server and the order of its loops are fixed.\<close>

definition fixed_part :: "tcp_server \<Rightarrow> string \<times> addr \<times> (nat \<Rightarrow> addr)" where
  "fixed_part s = (sv_name s, sv_base s, loop_for (sv_pool s))"

lemma getNextLoop_loops: "getNextLoop b tp = Inr (l, tp') \<Longrightarrow> loop_for tp' = loop_for tp"
  by (auto simp: getNextLoop_def Let_def fun_eq_iff split: if_splits)

lemma fixed_part_simps [simp]:
  "fixed_part (release i s) = fixed_part s" "fixed_part (s\<lparr>functors := fs\<rparr>) = fixed_part s"
  "fixed_part (s\<lparr>conns := cs\<rparr>) = fixed_part s" "fixed_part (s\<lparr>closedConns := xs\<rparr>) = fixed_part s"
  "fixed_part (s\<lparr>connections := m\<rparr>) = fixed_part s"
  by (simp_all add: fixed_part_def release_def split: option.split)

lemma fixed_part_established: "run_established i s = Inr s' \<Longrightarrow> fixed_part s' = fixed_part s"
  by (auto simp: run_established_def)

lemma fixed_part_new:
  assumes "sv_newConnection b d s = Inr s'"
  shows "fixed_part s' = fixed_part s"
proof -
  obtain l tp where l: "getNextLoop b (sv_pool s) = Inr (l, tp)"
    using assms by (auto simp: sv_newConnection_def Let_def)
  from getNextLoop_loops [OF l] have "fixed_part (s\<lparr>nextConnId := x, sv_pool := tp, nextPtr := y, conns := cs, connections := m\<rparr>) =
      fixed_part s" for x y cs m by (simp add: fixed_part_def)
  then show ?thesis
    using assms l by (auto simp: sv_newConnection_def Let_def dest!: fixed_part_established split: if_splits option.splits)
qed

lemma sv_step_fixed: "sv_step op s = Inr s' \<Longrightarrow> fixed_part s' = fixed_part s"
proof (cases op)
  case (RunNext l)
  moreover assume "sv_step op s = Inr s'"
  moreover have "fixed_part s' = fixed_part s" if "run_functor f s = Inr s'" for f s s'
    using that by (cases f) (auto simp: run_established_def run_destroyed_def removeConnectionInLoop_def)
  ultimately show ?thesis by (fastforce split: option.splits)
qed (auto simp: conn_closes_def removeConnection_def removeConnectionInLoop_def
    dest: fixed_part_new split: option.splits if_splits)

lemma sv_run_fixed: "rfold sv_step ops s = Inr s' \<Longrightarrow> fixed_part s' = fixed_part s"
  by (induction ops arbitrary: s) (auto dest: sv_step_fixed)

lemma quiet_conns:
  assumes inv: "sv_inv s" and quiet: "functors s = []"
  shows "conns s i \<noteq> None \<longleftrightarrow> i < nextPtr s \<and> i \<notin> set (closedConns s)"
proof
  assume "conns s i \<noteq> None"
  then obtain c where c: "conns s i = Some c" by blast
  note C = sv_inv_conn [OF inv c]
  have "\<not> sc_closed c" using C(5) by (auto simp: quiet stage_ok_def split: if_splits)
  with C(1,4) show "i < nextPtr s \<and> i \<notin> set (closedConns s)" by blast
next
  assume "i < nextPtr s \<and> i \<notin> set (closedConns s)"
  moreover have sub: "set (freed s) \<subseteq> set (closedConns s)" using inv unfolding sv_inv_def by blast
  have "set (freed s) = {i. i < nextPtr s \<and> conns s i = None}" using inv by (simp add: sv_inv_def)
  ultimately show "conns s i \<noteq> None" using subsetD [OF sub, of i] by auto
qed

lemma open_in_map:
  assumes "sv_inv s" "conns s i = Some c" "i \<notin> set (closedConns s)"
  shows "connections s (sc_name c) = Some i"
  using sv_inv_conn [OF assms(1,2)] assms(3) by (auto simp: stage_ok_def split: if_splits)

lemma server_run:
  assumes "sv_setThreadNum n (TcpServer_new loop addr) = Inr s0" "sv_start True newLoop r s0 = Inr s1"
    and "length ops < 2 ^ 31 - 2"
  shows "\<exists>s. rfold sv_step ops s1 = Inr s \<and> distinct (freed s) \<and> set (freed s) \<subseteq> set (closedConns s) \<and>
    (\<forall>i c. conns s i = Some c \<longrightarrow>
       sc_name c = InetAddress_toHostPort addr @ ''#'' @ show_int (int i + 1) \<and>
       sc_loop c = (if n = 0 then loop else newLoop (int i mod n)) \<and>
       (i \<notin> set (closedConns s) \<longrightarrow> connections s (sc_name c) = Some i)) \<and>
    (functors s = [] \<longrightarrow> (\<forall>i. conns s i \<noteq> None \<longleftrightarrow> i < nextPtr s \<and> i \<notin> set (closedConns s)))"
proof -
  note st = sv_start_inv [OF assms(1,2)]
  have "run_ok (\<lambda>op s. nextPtr s < 2 ^ 31 - 2) sv_step ops s1" using few_connections assms(3) st(2) by simp
  from sv.run_total [OF st(1) this] obtain s where s: "rfold sv_step ops s1 = Inr s" "sv_inv s" by blast
  have fixed: "sv_name s = sv_name s1" "loop_for (sv_pool s) = loop_for (sv_pool s1)"
    using sv_run_fixed [OF s(1)] by (simp_all add: fixed_part_def)
  have "sc_name c = InetAddress_toHostPort addr @ ''#'' @ show_int (int i + 1) \<and>
       sc_loop c = (if n = 0 then loop else newLoop (int i mod n)) \<and>
       (i \<notin> set (closedConns s) \<longrightarrow> connections s (sc_name c) = Some i)" if "conns s i = Some c" for i c
    using sv_inv_conn(2,3) [OF s(2) that] open_in_map [OF s(2) that] st(3,4) fixed by (simp add: name_of_def)
  moreover have "distinct (freed s)" "set (freed s) \<subseteq> set (closedConns s)"
    using s(2) unfolding sv_inv_def by blast+
  ultimately show ?thesis using s quiet_conns [OF s(2)] by blast
qed


lemmas server_eval = sv_setThreadNum_def TcpServer_new_def sv_start_def tp_start_def tp_setThreadNum_def
  EventLoopThreadPool_new_def start_threads_none listenOrDie_def


text \<open>
  A second close is fatal: on a server without threads, when a connection that was closed by
  its peer is closed again before it is destroyed (as happens after a \<^verbatim>\<open>send\<close> in between has
  watched it again), the map has no entry for it and the assertion of \<^verbatim>\<open>removeConnectionInLoop\<close> fails.
\<close>

theorem second_close_aborts:
  assumes "sv_setThreadNum 0 (TcpServer_new loop addr) = Inr s0" "sv_start True newLoop r s0 = Inr s1"
  shows "\<exists>s. rfold sv_step [Accept d, PeerCloses 0] s1 = Inr s \<and> conn_closes 0 s = Inl AssertFailure"
proof -
  have s1: "s1 = (TcpServer_new loop addr)\<lparr>sv_pool := (EventLoopThreadPool_new loop)\<lparr>tp_started := True\<rparr>,
      sv_started := True, sv_listening := True\<rparr>"
    using assms by (auto simp: server_eval split: if_splits)
  have "yields {} (\<lambda>s. conn_closes 0 s = Inl AssertFailure) (rfold sv_step [Accept d, PeerCloses 0] s1)"
    by (simp add: s1 TcpServer_new_def EventLoopThreadPool_new_def sv_newConnection_def getNextLoop_def Let_def
        run_established_def deref_conn_def life_established_def conn_closes_def life_closing_def
        removeConnection_def removeConnectionInLoop_def)
  then show ?thesis unfolding yields_returns .
qed

theorem second_close_aborts_witness:
  "\<exists>s0 s1 s. sv_setThreadNum 0 (TcpServer_new 1 (InetAddress_port 9876)) = Inr s0 \<and>
     sv_start True (\<lambda>i. 0) 0 s0 = Inr s1 \<and> rfold sv_step [Accept 7, PeerCloses 0] s1 = Inr s \<and>
     conn_closes 0 s = Inl AssertFailure"
proof -
  let ?s0 = "(TcpServer_new 1 (InetAddress_port 9876))\<lparr>sv_pool := tp_setThreadNum 0 (EventLoopThreadPool_new 1)\<rparr>"
  have s0: "sv_setThreadNum 0 (TcpServer_new 1 (InetAddress_port 9876)) = Inr ?s0"
    by (simp add: sv_setThreadNum_def TcpServer_new_def)
  obtain s1 where s1: "sv_start True (\<lambda>i. 0) 0 ?s0 = Inr s1" by (simp add: server_eval)
  from second_close_aborts [OF s0 s1, of 7] s0 s1 show ?thesis by blast
qed

end
