(* ===== verification/TcpClient.thy ===== *)
theory TcpClient
  imports Connector TcpConnection Sockets
begin

text \<open>
  \<^verbatim>\<open>TcpClient.h\<close> and \<^verbatim>\<open>TcpClient.cc\<close>: a connector and the connection it has made, in the thread of
  the loop. Connections are numbered in the order they are made; of each the client sees the name,
  the socket and the state, and which function its close callback is. \<open>destroys\<close> are the queued calls
  of \<^verbatim>\<open>connectDestroyed\<close>. What the kernel answers (the socket and error number of a connection attempt,
  the addresses of a socket) is an argument. The registration of the channel of a connection attempt is
  part of the state, with the connector; that of the channel of a connection is the subject of \<open>TcpConnection\<close>.
\<close>

section \<open>State\<close>

datatype close_target = ClientRemove | DetailRemove

record client_conn =
  cc_name :: string
  cc_fd :: fd
  cc_state :: conn_state
  cc_closed :: bool
  cc_close :: close_target

record ('cb, 'k) tcp_client =
  cl_connector :: "('cb, 'k) connector"
  cl_retry :: bool
  cl_connect :: bool
  cl_nextConnId :: int
  cl_connection :: "nat option"
  cl_conns :: "client_conn list"
  destroys :: "nat list"

definition TcpClient_new :: "('cb, 'k) poller \<Rightarrow> 'cb \<Rightarrow> 'cb \<Rightarrow> ('cb, 'k) tcp_client" where
  "TcpClient_new pl w e = \<lparr>cl_connector = setNewConnectionCallback (Connector_new pl w e), cl_retry = False, cl_connect = True,
     cl_nextConnId = 1, cl_connection = None, cl_conns = [], destroys = []\<rparr>"

definition enableRetry :: "('cb, 'k) tcp_client \<Rightarrow> ('cb, 'k) tcp_client" where
  "enableRetry s = s\<lparr>cl_retry := True\<rparr>"

section \<open>Operations\<close>

definition with_connector :: "(('cb, 'k) connector \<Rightarrow> ('cb, 'k) connector result) \<Rightarrow> ('cb, 'k) tcp_client \<Rightarrow> ('cb, 'k) tcp_client result" where
  "with_connector f s = rbind (f (cl_connector s)) (\<lambda>c. Inr (s\<lparr>cl_connector := c\<rparr>))"

definition client_connect :: "'k epoll_sys \<Rightarrow> new_socket \<Rightarrow> ('cb, 'k) tcp_client \<Rightarrow> ('cb, 'k) tcp_client result" where
  "client_connect sys ns s = with_connector (start sys ns) (s\<lparr>cl_connect := True\<rparr>)"

text \<open>\<^verbatim>\<open>shutdown\<close> of the current connection.\<close>

definition disconnect :: "('cb, 'k) tcp_client \<Rightarrow> ('cb, 'k) tcp_client result" where
  "disconnect s =
     (let s = s\<lparr>cl_connect := False\<rparr> in
      case cl_connection s of None \<Rightarrow> Inr s
      | Some i \<Rightarrow> if i < length (cl_conns s) then
          (let c = cl_conns s ! i in
           Inr (if cc_state c = kConnected then s\<lparr>cl_conns := (cl_conns s)[i := c\<lparr>cc_state := kDisconnecting\<rparr>]\<rparr> else s))
          else Inl DanglingPointer)"

definition client_stop :: "('cb, 'k) tcp_client \<Rightarrow> ('cb, 'k) tcp_client result" where
  "client_stop s = with_connector (\<lambda>c. Inr (stop c)) (s\<lparr>cl_connect := False\<rparr>)"

definition client_newConnection :: "bool \<Rightarrow> fd \<Rightarrow> sockaddr_in option \<Rightarrow> ('cb, 'k) tcp_client \<Rightarrow> ('cb, 'k) tcp_client result" where
  "client_newConnection inLoop sockfd peer s =
     rbind (check inLoop FatalLog) (\<lambda>_.
     let connName = snprintf 32 ('':'' @ InetAddress_toHostPort (getPeerAddr peer) @ ''#'' @ show_int (cl_nextConnId s));
         i = length (cl_conns s);
         c = \<lparr>cc_name = connName, cc_fd = sockfd, cc_state = kConnected, cc_closed = False, cc_close = ClientRemove\<rparr>
     in Inr (s\<lparr>cl_nextConnId := i32 (cl_nextConnId s + 1), cl_conns := cl_conns s @ [c], cl_connection := Some i\<rparr>))"

text \<open>\<^verbatim>\<open>removeConnection\<close>, the close callback; the answers are for the new attempt of \<^verbatim>\<open>restart\<close>.\<close>

definition client_removeConnection :: "'k epoll_sys \<Rightarrow> bool \<Rightarrow> new_socket \<Rightarrow> nat \<Rightarrow> ('cb, 'k) tcp_client \<Rightarrow> ('cb, 'k) tcp_client result" where
  "client_removeConnection sys inLoop ns i s =
     rbind (check inLoop FatalLog) (\<lambda>_.
     rbind (check (cl_connection s = Some i) AssertFailure) (\<lambda>_.
     let s = s\<lparr>cl_connection := None, destroys := destroys s @ [i]\<rparr> in
     if cl_retry s \<and> cl_connect s then with_connector (cn_restart sys inLoop ns) s else Inr s))"

text \<open>\<^verbatim>\<open>detail::removeConnection\<close>, the close callback after the client is gone.\<close>

definition detail_removeConnection :: "nat \<Rightarrow> ('cb, 'k) tcp_client \<Rightarrow> ('cb, 'k) tcp_client result" where
  "detail_removeConnection i s = Inr (s\<lparr>destroys := destroys s @ [i]\<rparr>)"

text \<open>\<^verbatim>\<open>handleClose\<close> of connection \<open>i\<close>.\<close>

definition client_conn_closes :: "'k epoll_sys \<Rightarrow> new_socket \<Rightarrow> nat \<Rightarrow> ('cb, 'k) tcp_client \<Rightarrow> ('cb, 'k) tcp_client result" where
  "client_conn_closes sys ns i s =
     (let c = cl_conns s ! i; s = s\<lparr>cl_conns := (cl_conns s)[i := c\<lparr>cc_closed := True\<rparr>]\<rparr> in
      rbind (check (cc_state c = kConnected \<or> cc_state c = kDisconnecting) AssertFailure) (\<lambda>_.
      case cc_close c of ClientRemove \<Rightarrow> client_removeConnection sys True ns i s
      | DetailRemove \<Rightarrow> detail_removeConnection i s))"

definition client_conn_destroyed :: "nat \<Rightarrow> ('cb, 'k) tcp_client \<Rightarrow> ('cb, 'k) tcp_client result" where
  "client_conn_destroyed i s =
     (let c = cl_conns s ! i in
      rbind (check (cc_state c = kConnected \<or> cc_state c = kDisconnecting) AssertFailure) (\<lambda>_.
        Inr (s\<lparr>cl_conns := (cl_conns s)[i := c\<lparr>cc_state := kDisconnected\<rparr>]\<rparr>)))"

text \<open>The destructor; the members go after its body, the connector among them.\<close>

definition TcpClient_delete :: "('cb, 'k) tcp_client \<Rightarrow> ('cb, 'k) tcp_client result" where
  "TcpClient_delete s =
     (let s = (case cl_connection s of None \<Rightarrow> s
        | Some i \<Rightarrow> s\<lparr>cl_conns := (cl_conns s)[i := (cl_conns s ! i)\<lparr>cc_close := DetailRemove\<rparr>]\<rparr>) in
      rbind (Connector_delete (cl_connector s)) (\<lambda>_. Inr (s\<lparr>cl_connection := None\<rparr>)))"

text \<open>\<^verbatim>\<open>Connector::handleWrite\<close> ends with the call of \<^verbatim>\<open>newConnection\<close> when it hands a socket over.\<close>

definition client_handleWrite :: "'k epoll_sys \<Rightarrow> int \<Rightarrow> sockaddr_in option \<Rightarrow> sockaddr_in option \<Rightarrow> sockaddr_in option \<Rightarrow> ('cb, 'k) tcp_client \<Rightarrow> ('cb, 'k) tcp_client result" where
  "client_handleWrite sys err la pa peer s =
     rbind (cn_handleWrite sys err la pa (cl_connector s)) (\<lambda>c.
     let new = drop (length (handed (cl_connector s))) (handed c); s = s\<lparr>cl_connector := c\<rparr> in
     case new of [] \<Rightarrow> Inr s | d # _ \<Rightarrow> client_newConnection True d peer s)"

section \<open>Sequences of events\<close>

text \<open>
  Connection \<open>i\<close> reports that its peer is gone only while it is watched, that is until it is closed;
  destroying a connection is done by the functors that were queued.
\<close>

datatype cl_op =
    Connect new_socket
  | Disconnect
  | StopClient
  | ConnectorTimer nat new_socket
  | ConnectorWritable int "sockaddr_in option" "sockaddr_in option" "sockaddr_in option"
  | ConnectorError
  | ConnectorReset
  | PeerGone nat new_socket
  | RunDestroy

fun cl_step :: "'k epoll_sys \<Rightarrow> cl_op \<Rightarrow> ('cb, 'k) tcp_client \<Rightarrow> ('cb, 'k) tcp_client result" where
  "cl_step sys (Connect ns) s = client_connect sys ns s"
| "cl_step sys Disconnect s = disconnect s"
| "cl_step sys StopClient s = client_stop s"
| "cl_step sys (ConnectorTimer i ns) s = with_connector (cn_step sys (TimerFires i ns)) s"
| "cl_step sys (ConnectorWritable err la pa peer) s = client_handleWrite sys err la pa peer s"
| "cl_step sys ConnectorError s = with_connector (cn_step sys AttemptError) s"
| "cl_step sys ConnectorReset s = with_connector (cn_step sys RunReset) s"
| "cl_step sys (PeerGone i ns) s =
     (if i < length (cl_conns s) \<and> \<not> cc_closed (cl_conns s ! i) then client_conn_closes sys ns i s else Inr s)"
| "cl_step sys RunDestroy s = (case destroys s of [] \<Rightarrow> Inr s | i # is \<Rightarrow> client_conn_destroyed i (s\<lparr>destroys := is\<rparr>))"

text \<open>A new channel has a new address, and a new descriptor is not registered.\<close>

fun cl_ok :: "cl_op \<Rightarrow> ('cb, 'k) tcp_client \<Rightarrow> bool" where
  "cl_ok (Connect ns) s = cn_ok (Start ns) (cl_connector s)"
| "cl_ok (ConnectorTimer i ns) s = cn_ok (TimerFires i ns) (cl_connector s)"
| "cl_ok (PeerGone i ns) s = cn_ok (Restart ns) (cl_connector s)"
| "cl_ok _ s = True"

section \<open>Invariant\<close>

text \<open>
  The connection the client holds is the last one it made and the only one that is not closed;
  closed ones are destroyed or waiting for it; while there is one the connector is done.
\<close>

definition cl_inv :: "'k epoll_sys \<Rightarrow> ('cb, 'k) tcp_client \<Rightarrow> bool" where
  "cl_inv sys s \<longleftrightarrow> cn_inv sys (cl_connector s) \<and>
     (\<forall>i < length (cl_conns s). (cc_closed (cl_conns s ! i) \<longleftrightarrow> cl_connection s \<noteq> Some i) \<and>
        cc_close (cl_conns s ! i) = ClientRemove \<and> cc_state (cl_conns s ! i) \<noteq> kConnecting \<and>
        (cc_state (cl_conns s ! i) = kDisconnected \<longleftrightarrow> cc_closed (cl_conns s ! i) \<and> i \<notin> set (destroys s))) \<and>
     (\<forall>i. cl_connection s = Some i \<longrightarrow> Suc i = length (cl_conns s) \<and> cn_state (cl_connector s) = Connected) \<and>
     distinct (destroys s) \<and> (\<forall>i\<in>set (destroys s). i < length (cl_conns s) \<and> cl_connection s \<noteq> Some i) \<and>
     map cc_fd (cl_conns s) = handed (cl_connector s)"

lemma cl_inv_new: "ep_inv sys pl \<Longrightarrow> cl_inv sys (TcpClient_new pl w e)"
  using cn_inv_new by (simp add: cl_inv_def TcpClient_new_def) (simp add: setNewConnectionCallback_def Connector_new_def)

section \<open>What the connector does to a client\<close>

lemma connector_more:
  fixes c c' :: "('cb, 'k) connector"
  assumes "poller.more c' = poller.more c"
  shows "handed c' = handed c" "cn_state c' = cn_state c" "connect_flag c' = connect_flag c"
    "hasNewConnectionCallback c' = hasNewConnectionCallback c"
  using assms by (cases c; cases c'; simp)+

lemma retry_fields [simp]: "handed (retry d c) = handed c" "cn_state (retry d c) = Disconnected"
  by (simp_all add: retry_def close_sock_def Let_def)

lemma close_sock_fields [simp]: "handed (close_sock d c) = handed c" "cn_state (close_sock d c) = cn_state c"
  by (simp_all add: close_sock_def)

lemma connecting_handed: "connecting sys p d c = Inr c' \<Longrightarrow> handed c' = handed c"
  by (auto simp: connecting_def Let_def dest!: Channel_request_more connector_more(1))

lemma cn_connect_handed: "cn_connect sys ns c = Inr c' \<Longrightarrow> handed c' = handed c"
  by (auto simp: cn_connect_def Let_def dest!: connecting_handed split: if_splits prod.splits)

lemma startInLoop_idle:
  "startInLoop sys b ns c = Inr c' \<Longrightarrow> cn_state c = Disconnected \<and> handed c' = handed c"
  by (auto simp: startInLoop_def dest: cn_connect_handed split: if_splits)

lemma cancel_timer_frame [simp]:
  "cn_state (cancel_timer c) = cn_state c" "handed (cancel_timer c) = handed c"
  by (simp_all add: cancel_timer_def split: option.split)

lemma removeAndResetChannel_frame:
  assumes "removeAndResetChannel sys c = Inr (d, c')"
  shows "handed c' = handed c \<and> cn_state c' = cn_state c"
proof -
  obtain p c1 c2 where c: "Channel_request sys True DisableAll p c = Inr c1" "EventLoop_removeChannel sys True p c1 = Inr c2"
    "c' = c2\<lparr>resets := Suc (resets c2)\<rparr>"
    using assms by (auto simp: removeAndResetChannel_def split: option.splits)
  have "poller.more c2 = poller.more c" using Channel_request_more [OF c(1)] EventLoop_removeChannel_more [OF c(2)] by simp
  from connector_more [OF this] show ?thesis by (simp add: c(3))
qed

lemma handleError_connecting: "cn_handleError sys c = Inr c' \<Longrightarrow> cn_state c = Connecting \<and> handed c' = handed c"
  by (auto simp: cn_handleError_def dest!: removeAndResetChannel_frame)

lemma resetChannel_frame: "resetChannel c = Inr c' \<Longrightarrow> handed c' = handed c \<and> cn_state c' = cn_state c"
  by (auto simp: resetChannel_def Let_def split: option.splits)

text \<open>The connector's other steps hand nothing over and do not disturb it once it is connected.\<close>

fun quiet_op :: "cn_op \<Rightarrow> bool" where
  "quiet_op (Writable _ _ _) = False"
| "quiet_op (Restart _) = False"
| "quiet_op _ = True"

lemma cn_step_quiet:
  assumes "quiet_op op" "cn_step sys op c = Inr c'"
  shows "handed c' = handed c \<and> (cn_state c = Connected \<longrightarrow> cn_state c' = Connected)"
  using assms
  by (cases op) (auto simp: start_def stop_def
      dest!: startInLoop_idle handleError_connecting resetChannel_frame split: if_splits)

lemma cn_restart_handed: "cn_restart sys b ns c = Inr c' \<Longrightarrow> handed c' = handed c"
  by (auto simp: cn_restart_def dest!: startInLoop_idle)

lemma cn_handleWrite_handed:
  assumes "cn_handleWrite sys err la pa c = Inr c'"
  shows "handed c' = handed c \<and> (cn_state c = Connected \<longrightarrow> cn_state c' = Connected) \<or>
    (\<exists>d. handed c' = handed c @ [d] \<and> cn_state c = Connecting \<and> cn_state c' = Connected)"
  using assms by (auto simp: cn_handleWrite_def Let_def dest!: removeAndResetChannel_frame split: if_splits)

section \<open>Steps keep the invariant\<close>

lemma map_cc_fd_update [simp]:
  "map cc_fd (cs[i := (cs ! i)\<lparr>cc_state := st\<rparr>]) = map cc_fd cs"
  "map cc_fd (cs[i := (cs ! i)\<lparr>cc_closed := b\<rparr>]) = map cc_fd cs"
  by (cases "i < length cs"; simp add: map_update; metis list_update_id map_update nth_map)+

lemma cl_inv_connector:
  assumes inv: "cl_inv sys s" and c: "cn_inv sys c" "handed c = handed (cl_connector s)"
    and st: "cn_state (cl_connector s) = Connected \<Longrightarrow> cn_state c = Connected"
  shows "cl_inv sys (s\<lparr>cl_connector := c\<rparr>)"
  using inv c st by (simp add: cl_inv_def)

lemma cl_inv_flags [simp]:
  "cl_inv sys (s\<lparr>cl_connect := b\<rparr>) = cl_inv sys s" "cl_inv sys (s\<lparr>cl_retry := b\<rparr>) = cl_inv sys s"
  by (simp_all add: cl_inv_def)

lemma with_connector_inv:
  assumes sys: "epoll_ctl_ok sys" and inv: "cl_inv sys s" and op: "quiet_op op" "cn_ok op (cl_connector s)"
    and run: "with_connector (cn_step sys op) s = Inr s'"
  shows "cl_inv sys s'"
proof -
  obtain c where c: "cn_step sys op (cl_connector s) = Inr c" "s' = s\<lparr>cl_connector := c\<rparr>"
    using run by (auto simp: with_connector_def)
  have "cn_inv sys c" using cn_step_inv [OF sys _ op(2) c(1)] inv by (simp add: cl_inv_def)
  then show ?thesis
    unfolding c(2) using cn_step_quiet [OF op(1) c(1)] by (intro cl_inv_connector [OF inv]) auto
qed

lemma disconnect_inv: "cl_inv sys s \<Longrightarrow> disconnect s = Inr s' \<Longrightarrow> cl_inv sys s'"
  by (auto simp: disconnect_def cl_inv_def Let_def nth_list_update split: option.splits if_splits)

lemma client_handleWrite_inv:
  assumes sys: "epoll_ctl_ok sys" and inv: "cl_inv sys s" and run: "client_handleWrite sys err la pa peer s = Inr s'"
  shows "cl_inv sys s'"
proof -
  obtain c where c: "cn_handleWrite sys err la pa (cl_connector s) = Inr c" using run by (auto simp: client_handleWrite_def)
  have cn: "cn_inv sys c" using cn_handleWrite_inv [OF sys _ c] inv by (simp add: cl_inv_def)
  from cn_handleWrite_handed [OF c] show ?thesis
  proof
    assume h: "handed c = handed (cl_connector s) \<and> (cn_state (cl_connector s) = Connected \<longrightarrow> cn_state c = Connected)"
    then have "s' = s\<lparr>cl_connector := c\<rparr>" using run c by (simp add: client_handleWrite_def)
    then show ?thesis using cl_inv_connector [OF inv cn] h by simp
  next
    assume "\<exists>d. handed c = handed (cl_connector s) @ [d] \<and> cn_state (cl_connector s) = Connecting \<and> cn_state c = Connected"
    then obtain d where d: "handed c = handed (cl_connector s) @ [d]" "cn_state (cl_connector s) = Connecting" "cn_state c = Connected"
      by blast
    have none: "cl_connection s = None" using inv d(2) by (cases "cl_connection s") (auto simp: cl_inv_def)
    have "client_newConnection True d peer (s\<lparr>cl_connector := c\<rparr>) = Inr s'"
      using run c d(1) by (simp add: client_handleWrite_def)
    with inv cn d none show ?thesis
      by (auto simp: cl_inv_def client_newConnection_def Let_def nth_append less_Suc_eq)
  qed
qed

lemma client_conn_closes_inv:
  assumes sys: "epoll_ctl_ok sys" and inv: "cl_inv sys s" and i: "i < length (cl_conns s)" "\<not> cc_closed (cl_conns s ! i)"
    and ok: "cn_ok (Restart ns) (cl_connector s)" and run: "client_conn_closes sys ns i s = Inr s'"
  shows "cl_inv sys s'"
proof -
  let ?s = "s\<lparr>cl_conns := (cl_conns s)[i := (cl_conns s ! i)\<lparr>cc_closed := True\<rparr>], cl_connection := None, destroys := destroys s @ [i]\<rparr>"
  have cur: "cl_connection s = Some i" "cc_close (cl_conns s ! i) = ClientRemove" using inv i by (auto simp: cl_inv_def)
  have inv': "cl_inv sys ?s" using inv i cur by (auto simp: cl_inv_def nth_list_update)
  have "(if cl_retry ?s \<and> cl_connect ?s then with_connector (cn_restart sys True ns) ?s else Inr ?s) = Inr s'"
    using run cur by (auto simp: client_conn_closes_def client_removeConnection_def Let_def split: if_splits)
  moreover have "cl_inv sys s'" if r: "with_connector (cn_restart sys True ns) ?s = Inr s'"
  proof -
    obtain c where c: "cn_restart sys True ns (cl_connector s) = Inr c" "s' = ?s\<lparr>cl_connector := c\<rparr>"
      using r by (auto simp: with_connector_def)
    have "cn_inv sys c" using cn_step_inv [OF sys _ ok, of c] c(1) inv by (simp add: cl_inv_def)
    with inv' c cn_restart_handed [OF c(1)] show ?thesis by (simp add: cl_inv_def)
  qed
  ultimately show ?thesis using inv' by (auto split: if_splits)
qed

lemma RunDestroy_inv:
  assumes inv: "cl_inv sys s" and ds: "destroys s = i # is"
  obtains s' where "client_conn_destroyed i (s\<lparr>destroys := is\<rparr>) = Inr s'" "cl_inv sys s'"
proof -
  let ?c = "cl_conns s ! i"
  have i: "i < length (cl_conns s)" "cl_connection s \<noteq> Some i" "i \<notin> set is" using inv ds by (auto simp: cl_inv_def)
  then have st: "cc_state ?c = kConnected \<or> cc_state ?c = kDisconnecting"
    using inv ds by (cases "cc_state ?c") (auto simp: cl_inv_def)
  have "cl_inv sys (s\<lparr>destroys := is, cl_conns := (cl_conns s)[i := ?c\<lparr>cc_state := kDisconnected\<rparr>]\<rparr>)"
    using inv ds i by (auto simp: cl_inv_def nth_list_update)
  moreover have "client_conn_destroyed i (s\<lparr>destroys := is\<rparr>) =
      Inr (s\<lparr>destroys := is, cl_conns := (cl_conns s)[i := ?c\<lparr>cc_state := kDisconnected\<rparr>]\<rparr>)"
    using st by (auto simp: client_conn_destroyed_def Let_def)
  ultimately show ?thesis using that by blast
qed

lemma cl_step_inv:
  assumes sys: "epoll_ctl_ok sys" and inv: "cl_inv sys s" and ok: "cl_ok op s" and run: "cl_step sys op s = Inr s'"
  shows "cl_inv sys s'"
proof (cases op)
  case (Connect ns)
  then show ?thesis
    using with_connector_inv [OF sys, of "s\<lparr>cl_connect := True\<rparr>" "Start ns" s'] inv ok run
    by (simp add: client_connect_def with_connector_def)
next
  case StopClient
  then show ?thesis
    using with_connector_inv [OF sys, of "s\<lparr>cl_connect := False\<rparr>" Stop s'] inv run
    by (simp add: client_stop_def with_connector_def)
next
  case RunDestroy
  show ?thesis
  proof (cases "destroys s")
    case (Cons i "is")
    obtain t where "client_conn_destroyed i (s\<lparr>destroys := is\<rparr>) = Inr t" "cl_inv sys t" by (rule RunDestroy_inv [OF inv Cons])
    then show ?thesis using run RunDestroy Cons by simp
  qed (use run RunDestroy inv in simp)
next
  case (PeerGone i ns)
  then show ?thesis using client_conn_closes_inv [OF sys inv, of i ns s'] inv ok run by (auto split: if_splits)
next
  case (ConnectorTimer i ns)
  then show ?thesis using with_connector_inv [OF sys inv, of "TimerFires i ns"] ok run by simp
next
  case ConnectorError
  then show ?thesis using with_connector_inv [OF sys inv, of AttemptError] run by simp
next
  case ConnectorReset
  then show ?thesis using with_connector_inv [OF sys inv, of RunReset] run by simp
qed (use run inv disconnect_inv [OF inv] client_handleWrite_inv [OF sys inv] in auto)

interpretation cl: machine "cl_step sys" cl_ok "\<lambda>s. epoll_ctl_ok sys \<and> cl_inv sys s" for sys
  by unfold_locales (use cl_step_inv in blast)

lemma cl_run_inv:
  assumes "epoll_ctl_ok sys" "cl_inv sys s" "run_ok cl_ok (cl_step sys) ops s" "rfold (cl_step sys) ops s = Inr s'"
  shows "cl_inv sys s'"
  using cl.run_inv [of sys s ops s'] assms by blast

section \<open>Properties\<close>

lemma cl_inv_start: "ep_inv sys pl \<Longrightarrow> cl_inv sys ((if r then enableRetry else id) (TcpClient_new pl w e))"
  using cl_inv_new [of sys pl w e] by (simp add: enableRetry_def)

lemma at_most_one:
  assumes "\<And>i. i < length xs \<Longrightarrow> P (xs ! i) \<Longrightarrow> Suc i = length xs"
  shows "length (filter P xs) \<le> 1"
proof (cases xs rule: rev_cases)
  case (snoc ys y)
  have "\<not> P x" if x: "x \<in> set ys" for x
  proof
    assume "P x"
    obtain j where "j < length ys" "ys ! j = x" using x by (auto simp: in_set_conv_nth)
    then show False using assms [of j] \<open>P x\<close> snoc by (simp add: nth_append)
  qed
  then have "filter P ys = []" by (simp add: filter_empty_conv)
  then show ?thesis using snoc by simp
qed simp

text \<open>
  C24. A client has one connection at a time: after any sequence of connecting, stopping,
  disconnecting, losing connections and reconnecting that does not abort, every socket the
  connector handed over has become exactly one connection, at most one of them is not closed,
  and that one is what the client holds; when no functor is left to run, every closed
  connection has been destroyed.
\<close>

theorem client_one_connection:
  assumes "epoll_ctl_ok sys" "ep_inv sys pl"
    and "run_ok cl_ok (cl_step sys) ops ((if r then enableRetry else id) (TcpClient_new pl w e))"
    and "rfold (cl_step sys) ops ((if r then enableRetry else id) (TcpClient_new pl w e)) = Inr s"
  shows "map cc_fd (cl_conns s) = handed (cl_connector s) \<and>
    length (filter (\<lambda>c. \<not> cc_closed c) (cl_conns s)) \<le> 1 \<and>
    (\<forall>i. cl_connection s = Some i \<longleftrightarrow> i < length (cl_conns s) \<and> \<not> cc_closed (cl_conns s ! i)) \<and>
    (destroys s = [] \<longrightarrow> (\<forall>i < length (cl_conns s). cc_closed (cl_conns s ! i) \<longleftrightarrow> cc_state (cl_conns s ! i) = kDisconnected))"
proof -
  have inv: "cl_inv sys s" by (rule cl_run_inv [OF assms(1) cl_inv_start [OF assms(2)] assms(3,4)])
  have cur: "cl_connection s = Some i \<longleftrightarrow> i < length (cl_conns s) \<and> \<not> cc_closed (cl_conns s ! i)" for i
    using inv by (auto simp: cl_inv_def)
  have "length (filter (\<lambda>c. \<not> cc_closed c) (cl_conns s)) \<le> 1"
    by (rule at_most_one) (use inv in \<open>auto simp: cl_inv_def\<close>)
  then show ?thesis using inv cur by (auto simp: cl_inv_def)
qed

lemmas client_eval [model_eval] = TcpClient_new_def client_connect_def with_connector_def client_handleWrite_def client_newConnection_def
  client_conn_closes_def client_removeConnection_def client_conn_destroyed_def enableRetry_def getPeerAddr_def

text \<open>A client on an empty poller, and how it gets its first connection.\<close>

definition sample_client :: "bool \<Rightarrow> (nat, fd \<rightharpoonup> epoll_event) tcp_client" where
  "sample_client r = (if r then enableRetry else id) (TcpClient_new (EPoller_new 0 Map.empty) 2 3)"

abbreviation connect_ops :: "cl_op list" where
  "connect_ops \<equiv> [Connect (8, 3, 115), ConnectorWritable 0 None other_addr other_addr, ConnectorReset]"

lemma sample_pl: "ep_inv sample_sys (EPoller_new 0 Map.empty :: (nat, fd \<rightharpoonup> epoll_event) poller)"
  by (rule ep_inv_new) (simp add: sample_sys_def)

lemma sample_connects:
  obtains s where "rfold (cl_step sample_sys) connect_ops (sample_client r) = Inr s" "run_ok cl_ok (cl_step sample_sys) connect_ops (sample_client r)"
    "cl_inv sample_sys s" "cl_connection s = Some 0" "cn_channel (cl_connector s) = None" "cl_retry s = r" "cl_connect s"
    "chan (cl_connector s) 8 = None" "channels_ep (cl_connector s) 4 = None"
proof -
  have "yields {} (\<lambda>s. cl_connection s = Some 0 \<and> cn_channel (cl_connector s) = None \<and> cl_retry s = r \<and> cl_connect s \<and>
      chan (cl_connector s) 8 = None \<and> channels_ep (cl_connector s) 4 = None)
      (rfold (cl_step sample_sys) connect_ops (sample_client r))"
    by (cases r) (simp_all add: sample_client_def model_eval)
  then obtain s where s: "rfold (cl_step sample_sys) connect_ops (sample_client r) = Inr s"
    "cl_connection s = Some 0" "cn_channel (cl_connector s) = None" "cl_retry s = r" "cl_connect s"
    "chan (cl_connector s) 8 = None" "channels_ep (cl_connector s) 4 = None"
    unfolding yields_returns by blast
  have ok: "run_ok cl_ok (cl_step sample_sys) connect_ops (sample_client r)"
    by (cases r) (simp_all add: sample_client_def model_eval)
  have "cl_inv sample_sys (sample_client r)" unfolding sample_client_def by (rule cl_inv_start [OF sample_pl])
  from cl_run_inv [OF sample_ctl_ok this ok s(1)] show ?thesis by (rule that [OF s(1) ok _ s(2-)])
qed

theorem client_one_connection_witness:
  "\<exists>s. rfold (cl_step sample_sys) connect_ops (sample_client False) = Inr s \<and>
     length (filter (\<lambda>c. \<not> cc_closed c) (cl_conns s)) \<le> 1 \<and> cl_connection s = Some 0 \<and> map cc_fd (cl_conns s) = handed (cl_connector s)"
proof -
  obtain s where s: "rfold (cl_step sample_sys) connect_ops (sample_client False) = Inr s"
    "run_ok cl_ok (cl_step sample_sys) connect_ops (sample_client False)" "cl_connection s = Some 0"
    by (rule sample_connects)
  from client_one_connection [OF sample_ctl_ok sample_pl s(2,1) [unfolded sample_client_def]] s(1,3) show ?thesis by blast
qed

text \<open>
  C34. Reconnecting: when the connection of a client is closed, the client gives it up and queues
  its destruction; with retrying enabled and unless the user has disconnected or stopped the
  client, the connector starts a new attempt at once, with its channel registered and the delays back
  at their initial value, and otherwise the connector is left alone.
\<close>

theorem client_reconnects:
  assumes sys: "epoll_ctl_ok sys" and inv: "cl_inv sys s" and cur: "cl_connection s = Some i"
    and idle: "cn_channel (cl_connector s) = None" and d: "0 \<le> d" "e \<in> set in_progress_errnos"
    and fresh: "chan (cl_connector s) p = None" "channels_ep (cl_connector s) d = None"
  shows "\<exists>s'. client_conn_closes sys (p, d, e) i s = Inr s' \<and> cl_connection s' = None \<and> destroys s' = destroys s @ [i] \<and>
    (if cl_retry s \<and> cl_connect s
     then cn_state (cl_connector s') = Connecting \<and> attempt (cl_connector s') = [d] \<and>
       retryDelayMs (cl_connector s') = kInitRetryDelayMs \<and> ep_inv sys (cl_connector s')
     else cl_connector s' = cl_connector s)"
proof -
  have i: "i < length (cl_conns s)" "cc_close (cl_conns s ! i) = ClientRemove"
    "cc_state (cl_conns s ! i) = kConnected \<or> cc_state (cl_conns s ! i) = kDisconnecting"
    using inv cur by (auto simp: cl_inv_def intro: conn_state.exhaust [of "cc_state (cl_conns s ! i)"])
  let ?c = "cl_connector s"
  let ?r = "?c\<lparr>cn_state := Disconnected, retryDelayMs := kInitRetryDelayMs, delays := [], connect_flag := True, created := created ?c @ [d]\<rparr>"
  have reg: "reg_ok sys ?r" using inv by (simp add: cl_inv_def cn_inv_def)
  obtain c where c: "connecting sys p d ?r = Inr c" "reg_ok sys c" "attempt c = [d]"
    "\<exists>ch ce k. c = ?r\<lparr>cn_state := Connecting, cn_channel := Some p, chan := ch, channels_ep := ce, kernel := k\<rparr>"
    by (rule connecting_ok [OF sys reg, of p d]) (use idle fresh in simp_all)
  have "cn_restart sys True (p, d, e) ?c = Inr c"
    using c(1) d by (simp add: cn_restart_def startInLoop_def cn_connect_def createNonBlockingOrDie_def)
  moreover have "cn_state c = Connecting" "retryDelayMs c = kInitRetryDelayMs" "ep_inv sys c"
    using c(2,4) by (auto simp: reg_ok_def)
  ultimately show ?thesis
    using i cur c(3) by (auto simp: client_conn_closes_def client_removeConnection_def with_connector_def Let_def)
qed

theorem client_reconnects_witness:
  "\<exists>s s'. rfold (cl_step sample_sys) connect_ops (sample_client True) = Inr s \<and>
     client_conn_closes sample_sys (8, 4, 115) 0 s = Inr s' \<and> attempt (cl_connector s') = [4]"
proof -
  obtain s where s: "rfold (cl_step sample_sys) connect_ops (sample_client True) = Inr s" "cl_inv sample_sys s"
    "cl_connection s = Some 0" "cn_channel (cl_connector s) = None" "cl_retry s = True" "cl_connect s"
    "chan (cl_connector s) 8 = None" "channels_ep (cl_connector s) 4 = None"
    by (rule sample_connects)
  from client_reconnects [OF sample_ctl_ok s(2-4) _ _ s(7,8), of 115] s(1,5,6) show ?thesis
    by (auto simp: in_progress_errnos_def)
qed

lemma run_destroys:
  assumes "cl_inv sys s"
  shows "\<exists>s'. rfold (cl_step sys) (replicate n RunDestroy) s = Inr s' \<and> cl_connector s' = cl_connector s \<and>
    cl_connection s' = cl_connection s"
  using assms
proof (induction n arbitrary: s)
  case (Suc n)
  show ?case
  proof (cases "destroys s")
    case Nil
    then show ?thesis using Suc.IH [OF Suc.prems] by simp
  next
    case (Cons i "is")
    obtain t where t: "client_conn_destroyed i (s\<lparr>destroys := is\<rparr>) = Inr t" "cl_inv sys t"
      by (rule RunDestroy_inv [OF Suc.prems Cons])
    have "cl_connector t = cl_connector s" "cl_connection t = cl_connection s"
      using t(1) by (auto simp: client_conn_destroyed_def Let_def)
    then show ?thesis using Suc.IH [OF t(2)] t(1) Cons by simp
  qed
qed simp

text \<open>
  A client cannot connect twice: once its connection is closed and however many of the
  queued functors have run, \<^verbatim>\<open>connect\<close> fails the assertion of \<^verbatim>\<open>startInLoop\<close> unless the client reconnects
  by itself, since nothing but \<^verbatim>\<open>restart\<close> takes the connector out of the state \<^verbatim>\<open>kConnected\<close>.
\<close>

theorem connect_again_aborts:
  assumes "epoll_ctl_ok sys" "cl_inv sys s" "cl_connection s = Some i" "\<not> (cl_retry s \<and> cl_connect s)" "cl_ok (PeerGone i ns) s"
  shows "\<exists>s'. rfold (cl_step sys) (PeerGone i ns # replicate n RunDestroy) s = Inr s' \<and> cl_connection s' = None \<and>
    cl_step sys (Connect ns') s' = Inl AssertFailure"
proof -
  have i: "i < length (cl_conns s)" "\<not> cc_closed (cl_conns s ! i)" "cc_close (cl_conns s ! i) = ClientRemove"
    "cc_state (cl_conns s ! i) = kConnected \<or> cc_state (cl_conns s ! i) = kDisconnecting" "cn_state (cl_connector s) = Connected"
    using assms(2,3) by (auto simp: cl_inv_def intro: conn_state.exhaust [of "cc_state (cl_conns s ! i)"])
  then obtain s1 where s1: "cl_step sys (PeerGone i ns) s = Inr s1" "cl_connection s1 = None" "cl_connector s1 = cl_connector s"
    using assms(3,4) by (auto simp: client_conn_closes_def client_removeConnection_def Let_def)
  obtain s' where "rfold (cl_step sys) (replicate n RunDestroy) s1 = Inr s'" "cl_connector s' = cl_connector s" "cl_connection s' = None"
    using run_destroys [OF cl_step_inv [OF assms(1,2,5) s1(1)], of n] s1(2,3) by auto
  with s1(1) i(5) show ?thesis by (auto simp: client_connect_def with_connector_def start_def startInLoop_def)
qed

theorem connect_again_aborts_witness:
  "\<exists>s s'. rfold (cl_step sample_sys) connect_ops (sample_client False) = Inr s \<and>
     rfold (cl_step sample_sys) [PeerGone 0 (8, 4, 0), RunDestroy] s = Inr s' \<and>
     cl_step sample_sys (Connect (8, 4, 115)) s' = Inl AssertFailure"
proof -
  obtain s where s: "rfold (cl_step sample_sys) connect_ops (sample_client False) = Inr s" "cl_inv sample_sys s"
    "cl_connection s = Some 0" "cl_retry s = False" "chan (cl_connector s) 8 = None" "channels_ep (cl_connector s) 4 = None"
    by (rule sample_connects)
  have "cl_ok (PeerGone 0 (8, 4, 0)) s" using s(5,6) by simp
  moreover have "PeerGone 0 (8, 4, 0) # replicate 1 RunDestroy = [PeerGone 0 (8, 4, 0), RunDestroy]" by simp
  moreover have "\<not> (cl_retry s \<and> cl_connect s)" using s(4) by simp
  ultimately show ?thesis using connect_again_aborts [OF sample_ctl_ok s(2,3), of "(8, 4, 0)" 1 "(8, 4, 115)"] s(1) by metis
qed

text \<open>Destroying a client whose attempt is under way fails the assertion of \<^verbatim>\<open>~Connector\<close>.\<close>

lemma delete_while_connecting_aborts:
  "cn_channel (cl_connector s) \<noteq> None \<Longrightarrow> cl_connection s = None \<Longrightarrow> TcpClient_delete s = Inl AssertFailure"
  by (auto simp: TcpClient_delete_def Connector_delete_def cancel_timer_def Let_def split: option.split)

text \<open>Names are not cut off, and differ, for the first hundred million connections.\<close>

lemma client_name_full:
  assumes "0 \<le> n" "n < 10 ^ 8"
  shows "snprintf 32 ('':'' @ InetAddress_toHostPort a @ ''#'' @ show_int n) = '':'' @ InetAddress_toHostPort a @ ''#'' @ show_int n"
proof -
  have p: "length (show_nat (unat (htons (sin_port a)))) \<le> 5"
    using length_show_nat [of "unat (htons (sin_port a))" 4] unsigned_less [of "htons (sin_port a)", where ?'a = nat] by simp
  have n: "length (show_int n) \<le> 8"
    using length_show_nat [of "nat n" 7] assms by (simp add: show_int_nonneg)
  have "length ('':'' @ InetAddress_toHostPort a @ ''#'' @ show_int n) \<le> 31"
    using p n length_dotted [of "sin_addr a"] by (simp add: InetAddress_toHostPort_eq)
  then show ?thesis by (simp only: snprintf_def) (simp only: take_all)
qed

end
