(* ===== verification/Buffer_Capacity.thy ===== *)
theory Buffer_Capacity
  imports Buffer
begin

text \<open>
  When a buffer cannot abort: one that never had bytes prepended and whose vector has room for
  \<open>N\<close> bytes behind the reserved eight takes any block as long as it then holds at most \<open>N\<close> bytes. It
  moves its contents to the front instead of growing, and the assertion of \<^verbatim>\<open>ensureWritableBytes\<close>
  holds. A new buffer has room for 1024 bytes.
\<close>

definition room_for :: "nat \<Rightarrow> buffer \<Rightarrow> bool" where
  "room_for N b \<longleftrightarrow> buf_inv b \<and> 8 \<le> unat (readerIndex b) \<and> N + 8 \<le> length (vec b)"

lemma room_forD:
  assumes "room_for N b"
  shows "buf_inv b" "8 \<le> unat (readerIndex b)" "N + 8 \<le> length (vec b)" "N \<le> max_size"
  using assms by (auto simp: room_for_def buf_inv_def)

lemma room_for_mono: "room_for N b \<Longrightarrow> M \<le> N \<Longrightarrow> room_for M b"
  by (simp add: room_for_def)

lemma room_for_new: "room_for 1024 \<lparr>vec = replicate 1032 0, readerIndex = 8, writerIndex = 8\<rparr>"
  by (simp add: room_for_def buf_inv_def max_size_def)

lemma vec_split:
  assumes "buf_inv b"
  shows "length (vec b) = unat (readerIndex b) + length (readable b) + (length (vec b) - unat (writerIndex b))"
  using assms by (simp add: length_readable unat_readableBytes) (auto simp: buf_inv_def)

lemma ensureWritableBytes_room:
  assumes room: "room_for N b" and fits: "length (readable b) + unat len \<le> N"
  obtains b' where "ensureWritableBytes len b = Inr b'" "makes_room (unat len) b b'" "length (vec b') = length (vec b)"
proof (cases "unat len \<le> length (vec b) - unat (writerIndex b)")
  case True
  with that ensureWritableBytes_enough [OF room_forD(1) [OF room]] show ?thesis by blast
next
  case False
  note R = room_forD [OF room]
  let ?w = "length (vec b) - unat (writerIndex b)" and ?r = "unat (readerIndex b)"
  have move: "8 < ?r" "unat len \<le> ?w + (?r - 8)" using vec_split [OF R(1)] R(3) fits False by linarith+
  obtain b' where b': "ensureWritableBytes len b = Inr b'" "makes_room (unat len) b b'"
    using ensureWritableBytes_move [OF R(1) _ move] False by auto
  obtain m where m: "move_front b = Inr m" "length (vec m) = length (vec b)"
    using move_front_correct [OF R(1) move(1)] by metis
  have "writableBytes b < len" "\<not> writableBytes b + prependableBytes b < len" "kCheapPrepend < readerIndex b"
    using False move by (simp_all add: word_less_nat_alt unat_writableBytes unat_writable_plus_prependable R(1))
  then have "b' = m" using b'(1) m(1) by (auto simp: ensureWritableBytes_def)
  with b' m that show ?thesis by blast
qed

lemma append_buffer_room:
  assumes room: "room_for N b" and fits: "length (readable b) + length xs \<le> N"
  obtains b' where "append_buffer xs b = Inr b'" "room_for N b'" "readable b' = readable b @ xs"
proof -
  note R = room_forD [OF room]
  let ?n = "word_of_nat (length xs) :: size_t"
  have n: "unat ?n = length xs" using fits R(4) by (intro unat_of_length) (simp add: max_size_def)
  obtain b1 where b1: "ensureWritableBytes ?n b = Inr b1" "makes_room (length xs) b b1" "length (vec b1) = length (vec b)"
    using ensureWritableBytes_room [OF room, of ?n] fits by (auto simp: n)
  then have B: "buf_inv b1" "unat (writerIndex b1) + length xs \<le> length (vec b1)" "readable b1 = readable b"
    "8 \<le> unat (readerIndex b1)" using R(2) by (simp_all add: makes_room_def)
  obtain v where v: "store_at (beginWrite b1) xs (vec b1) = Inr v"
    "buf_inv (hasWritten ?n (b1\<lparr>vec := v\<rparr>))" "readable (hasWritten ?n (b1\<lparr>vec := v\<rparr>)) = readable b1 @ xs"
    "length v = length (vec b1)"
    by (rule store_and_advance [OF B(1,2)])
  have "append_buffer xs b = Inr (hasWritten ?n (b1\<lparr>vec := v\<rparr>))" using b1(1) v(1) by (simp add: append_buffer_def Let_def)
  moreover have "room_for N (hasWritten ?n (b1\<lparr>vec := v\<rparr>))"
    using v(2,4) b1(3) B(4) R(3) by (simp add: room_for_def hasWritten_def)
  ultimately show ?thesis using that v(3) B(3) by simp
qed

lemma retrieve_room:
  assumes room: "room_for N b" and n: "unat n \<le> length (readable b)"
  obtains b' where "retrieve n b = Inr b'" "room_for N b'" "readable b' = drop (unat n) (readable b)"
proof -
  note R = room_forD [OF room]
  obtain b' where b': "retrieve n b = Inr b'" "buf_inv b'" "readable b' = drop (unat n) (readable b)"
    "unat (readerIndex b') = unat (readerIndex b) + unat n" "vec b' = vec b"
    by (rule retrieve_correct [OF R(1) n])
  then have "room_for N b'" using R(2,3) by (simp add: room_for_def)
  with b' that show ?thesis by blast
qed

lemma retrieveAsString_room:
  assumes room: "room_for N b"
  obtains b' where "retrieveAsString b = Inr (readable b, b')" "room_for N b'" "readable b' = []"
proof -
  note R = room_forD [OF room]
  obtain b' where b': "retrieve (readableBytes b) b = Inr b'" "room_for N b'" "readable b' = drop (unat (readableBytes b)) (readable b)"
    by (rule retrieve_room [OF room, of "readableBytes b"]) (simp add: length_readable R(1))
  then show ?thesis
    using that load_readable [OF R(1)] by (simp add: retrieveAsString_def retrieveAll_def length_readable R(1))
qed

lemma readFd_room:
  assumes room: "room_for N b" and fits: "length (readable b) + length data \<le> N"
  obtains b' where "readFd (ReadData data) b = Inr (int (length data), 0, b')" "room_for N b'" "readable b' = readable b @ data"
proof (cases "length data \<le> unat (writableBytes b)")
  case True
  note R = room_forD [OF room]
  have "unat (writerIndex b) + length data \<le> length (vec b)"
    using True R(1) by (simp add: unat_writableBytes) (auto simp: buf_inv_def)
  then obtain v where v: "store_at (beginWrite b) data (vec b) = Inr v"
    "buf_inv (hasWritten (word_of_nat (length data)) (b\<lparr>vec := v\<rparr>))"
    "readable (hasWritten (word_of_nat (length data)) (b\<lparr>vec := v\<rparr>)) = readable b @ data" "length v = length (vec b)"
    by (rule store_and_advance [OF R(1)])
  moreover have "room_for N (hasWritten (word_of_nat (length data)) (b\<lparr>vec := v\<rparr>))"
    using v(2,4) R(2,3) by (simp add: room_for_def hasWritten_def)
  ultimately show ?thesis using True that by (simp add: readFd_def Let_def hasWritten_def)
next
  case False
  note R = room_forD [OF room]
  let ?w = "unat (writableBytes b)"
  obtain v where v: "store_at (beginWrite b) (take ?w data) (vec b) = Inr v"
    "buf_inv (b\<lparr>vec := v, writerIndex := size_of (b\<lparr>vec := v\<rparr>)\<rparr>)"
    "readable (b\<lparr>vec := v, writerIndex := size_of (b\<lparr>vec := v\<rparr>)\<rparr>) = readable b @ take ?w data"
    "length v = length (vec b)"
    using readFd_first_block [OF R(1), of "take ?w data"] False by auto
  let ?b = "b\<lparr>vec := v, writerIndex := size_of (b\<lparr>vec := v\<rparr>)\<rparr>"
  have "room_for N ?b" using v(2,4) R(2,3) by (simp add: room_for_def)
  moreover have "length (readable ?b) + length (drop ?w data) \<le> N" using v(3) fits False by simp
  ultimately obtain b' where "append_buffer (drop ?w data) ?b = Inr b'" "room_for N b'" "readable b' = readable ?b @ drop ?w data"
    by (rule append_buffer_room)
  with False v(1,3) that show ?thesis by (simp add: readFd_def Let_def)
qed

section \<open>Memory safety\<close>

text \<open>How an operation of a well-formed buffer can end: well-formed, or in one of these two faults.\<close>

definition sound_end :: "buffer result \<Rightarrow> bool" where
  "sound_end r \<longleftrightarrow> (case r of Inl e \<Rightarrow> e = AssertFailure \<or> e = LengthError | Inr b \<Rightarrow> buf_inv b)"

lemma ensureWritableBytes_faults:
  assumes "buf_inv b" "ensureWritableBytes n b = Inl e"
  shows "e = AssertFailure \<or> e = LengthError"
  using assms by (auto simp: ensureWritableBytes_def move_front_def resize_def check_def Let_def buf_inv_def split: if_splits)

lemma append_buffer_sound:
  assumes inv: "buf_inv b" and small: "length xs \<le> max_size"
  shows "sound_end (append_buffer xs b)"
proof (cases "append_ok (length xs) b")
  case True
  then show ?thesis using append_buffer_correct [OF inv small] by (metis sound_end_def sum.case(2))
next
  case False
  have n: "unat (word_of_nat (length xs) :: size_t) = length xs" using small by (intro unat_of_length) (simp add: max_size_def)
  obtain e where e: "ensureWritableBytes (word_of_nat (length xs)) b = Inl e"
    using ensureWritableBytes_abort [OF inv, of "word_of_nat (length xs)"] False small by (auto simp: n)
  then show ?thesis using ensureWritableBytes_faults [OF inv e] by (simp add: sound_end_def append_buffer_def Let_def)
qed

lemma readFd_sound:
  assumes inv: "buf_inv b" and small: "length data \<le> max_size"
  shows "sound_end (rbind (readFd (ReadData data) b) (\<lambda>(_, _, b'). Inr b'))"
proof (cases "length data \<le> unat (writableBytes b)")
  case True
  then have "readFd_ok (ReadData data) b" by (simp add: readFd_ok_def)
  then show ?thesis using readFd_correct [OF inv small] by (metis (no_types, lifting) case_prod_conv rbind.simps(2) sound_end_def sum.case(2))
next
  case False
  let ?w = "unat (writableBytes b)"
  obtain v where v: "store_at (beginWrite b) (take ?w data) (vec b) = Inr v"
    "buf_inv (b\<lparr>vec := v, writerIndex := size_of (b\<lparr>vec := v\<rparr>)\<rparr>)"
    by (rule readFd_first_block [OF inv, of "take ?w data"]) (use False in auto)
  have "sound_end (append_buffer (drop ?w data) (b\<lparr>vec := v, writerIndex := size_of (b\<lparr>vec := v\<rparr>)\<rparr>))"
    using small by (intro append_buffer_sound v(2)) simp
  then show ?thesis using v(1) False by (auto simp: readFd_def Let_def sound_end_def split: sum.splits)
qed

lemma buf_step_sound:
  assumes inv: "buf_inv b" and small: "op_small op"
  shows "sound_end (buf_step op b)"
proof (cases op)
  case (Retrieve n)
  show ?thesis
  proof (cases "unat n \<le> length (readable b)")
    case True
    then show ?thesis using Retrieve by (elim retrieve_correct [OF inv]) (simp add: sound_end_def)
  qed (use Retrieve retrieve_too_much [OF inv] in \<open>simp add: sound_end_def\<close>)
next
  case RetrieveAll
  obtain b' where "retrieveAll b = Inr b'" "buf_inv b'" by (rule retrieveAll_correct [OF inv])
  then show ?thesis using RetrieveAll by (simp add: sound_end_def)
next
  case RetrieveAsString
  obtain b' where "retrieveAsString b = Inr (readable b, b')" "buf_inv b'" by (rule retrieveAsString_correct [OF inv])
  then show ?thesis using RetrieveAsString by (simp add: sound_end_def)
next
  case (Append xs)
  then show ?thesis using append_buffer_sound [OF inv] small by simp
next
  case (EnsureWritable n)
  then show ?thesis
    using ensureWritableBytes_faults [OF inv, of n] ensureWritableBytes_contents [OF inv, of n] small
    by (cases "ensureWritableBytes n b") (auto simp: sound_end_def makes_room_def)
next
  case (Prepend xs)
  show ?thesis
  proof (cases "length xs \<le> unat (readerIndex b)")
    case True
    then show ?thesis using Prepend by (elim prepend_correct [OF inv]) (simp add: sound_end_def)
  qed (use Prepend prepend_too_long [OF inv, of xs] small in \<open>simp add: sound_end_def\<close>)
next
  case (ReadFd r)
  then show ?thesis using readFd_sound [OF inv] small inv by (cases r) (simp_all add: readFd_error sound_end_def)
qed



end
