(* ===== verification/Connection_Capacity.thy ===== *)
theory Connection_Capacity
  imports TcpConnection Buffer_Capacity "HOL-Library.Sublist"
begin

text \<open>
  New connections, and connections that cannot abort: as long as the bytes waiting in a buffer stay
  within the room the buffer has, sending, reading and writing always succeed.
\<close>

section \<open>Opening\<close>

text \<open>A connection that has just been established, and one with all callbacks set.\<close>

definition opened :: "'k epoll_sys \<Rightarrow> ('cb, 'k) tcp_connection \<Rightarrow> bool" where
  "opened sys s \<longleftrightarrow> conn_inv sys s \<and> conn_state s = kConnected \<and> \<not> closed s \<and> \<not> writing s \<and>
     wire s = [] \<and> accepted s = [] \<and> received s = [] \<and> fins s = [] \<and>
     readable (inputBuffer s) = [] \<and> readable (outputBuffer s) = [] \<and> room_for 1024 (inputBuffer s) \<and> room_for 1024 (outputBuffer s) \<and>
     WriteCompleteCallback \<notin> set (calls s)"

definition ready :: "'k epoll_sys \<Rightarrow> ('cb, 'k) tcp_connection \<Rightarrow> bool" where
  "ready sys s \<longleftrightarrow> opened sys s \<and> hasMessageCallback s \<and> hasWriteCompleteCallback s"

lemmas ready_defs = ready_def opened_def

lemma connection_opens:
  assumes sys: "epoll_ctl_ok sys" and pl: "ep_inv sys pl" "chan pl p = None" "channels_ep pl d = None"
  obtains c0 c where "TcpConnection_new pl p (TcpConnection_channel (ownerLoop pl) d r w cl e) = Inr c0"
    "connectEstablished sys True (conn_setup c0) = Inr c" "ready sys c" "interest sys (kernel c) d = Some (kReadEvent, p)"
proof -
  let ?ch = "TcpConnection_channel (ownerLoop pl) d r w cl e" and ?b = "\<lparr>vec = replicate 1032 0, readerIndex = 8, writerIndex = 8\<rparr> :: buffer"
  obtain c0 where c0: "TcpConnection_new pl p ?ch = Inr c0" "conn_state c0 = kConnecting" "conn_channel c0 = p" "chan c0 p = Some ?ch"
    "inputBuffer c0 = ?b" "outputBuffer c0 = ?b" "wire c0 = []" "accepted c0 = []" "received c0 = []" "fins c0 = []" "\<not> closed c0" "calls c0 = []"
    by (simp add: TcpConnection_new_def Buffer_new_fresh)
  let ?s = "(conn_setup c0)\<lparr>conn_state := kConnected\<rparr>"
  have inv: "conn_inv sys (conn_setup c0)" by (rule conn_inv_setup [OF c0(1) pl])
  then have ok: "chan_ok sys ?s" by (simp add: conn_inv_def)
  have fields: "conn_channel ?s = p" "chan ?s (conn_channel ?s) = Some ?ch" "hasConnectionCallback ?s" "conn_state (conn_setup c0) = kConnecting"
    "conn_channel (conn_setup c0) = p"
    using c0 by (simp_all add: conn_setup_def setConnectionCallback_def setMessageCallback_def setWriteCompleteCallback_def
        conn_setCloseCallback_def)
  have init: "hasMessageCallback ?s" "hasWriteCompleteCallback ?s" "inputBuffer ?s = ?b" "outputBuffer ?s = ?b" "wire ?s = []" "accepted ?s = []"
    "received ?s = []" "fins ?s = []" "\<not> closed ?s" "calls ?s = []"
    using c0 by (simp_all add: conn_setup_def setConnectionCallback_def setMessageCallback_def setWriteCompleteCallback_def
        conn_setCloseCallback_def)
  obtain s1 where s1: "Channel_request sys True EnableReading (conn_channel ?s) ?s = Inr s1" "chan_ok sys s1"
    "writing s1 = any_set (requested EnableReading (ch_events ?ch)) kWriteEvent"
    "chan s1 (conn_channel ?s) = Some (after_request EnableReading ?ch)"
    "\<exists>ch ce k. s1 = ?s\<lparr>chan := ch, channels_ep := ce, kernel := k\<rparr>"
    by (rule conn_request [OF sys ok fields(2)])
  have new: "ch_events ?ch = 0" "ch_fd ?ch = d" "ch_index ?ch = kNew"
    by (simp_all add: TcpConnection_channel_def setErrorCallback_def setCloseCallback_def setWriteCallback_def setReadCallback_def
        Channel_new_def kNew_def)
  have after: "ch_fd (after_request EnableReading ?ch) = d" "ch_index (after_request EnableReading ?ch) = kAdded"
    "ch_events (after_request EnableReading ?ch) = kReadEvent"
    using new by (simp_all add: after_request_def set_index_def requested.simps Let_def)
  let ?c = "s1\<lparr>calls := calls s1 @ [ConnectionCallback (conn_state s1)]\<rparr>"
  have run: "connectEstablished sys True (conn_setup c0) = Inr ?c"
    using s1(1,5) fields by (auto simp: connectEstablished_def connectionCallback_def)
  have ep: "ep_inv sys s1" using s1(2) by (simp add: chan_ok_def)
  have p: "chan s1 p = Some (after_request EnableReading ?ch)" using s1(4) fields(1) by simp
  have "channels_ep s1 d = Some p" using ep_invD(2) [OF ep p] after by simp
  then have int: "interest sys (kernel ?c) d = Some (kReadEvent, p)"
    using p after by (simp add: ep_invD(4) [OF ep] interest_of_def)
  have "\<not> writing s1" unfolding s1(3) requested_writing(1) new by (simp add: any_set_def)
  moreover have "readable ?b = []" by (simp add: readable_def)
  ultimately have ready: "ready sys ?c"
    using connectEstablished_inv [OF sys inv run] s1(5) init room_for_new by (auto simp: ready_defs)
  show ?thesis by (rule that [OF c0(1) run ready int])
qed

text \<open>Such a connection exists: one on an empty poller.\<close>

lemma sample_ready: "\<exists>c :: (nat, fd \<rightharpoonup> epoll_event) tcp_connection. ready sample_sys c"
  using connection_opens [OF sample_ctl_ok sample_poller, of 8 5 11 12 13 14] by (auto simp: EPoller_new_def)

section \<open>Operations that cannot fail\<close>

lemma rbind_InrE: "rbind m f = Inr y \<Longrightarrow> (\<And>x. m = Inr x \<Longrightarrow> f x = Inr y \<Longrightarrow> P) \<Longrightarrow> P"
  by auto

text \<open>What a request leaves alone, and what sending and writing do to the bytes handed to the kernel.\<close>

lemma conn_more:
  fixes s s' :: "('cb, 'k) tcp_connection"
  assumes "poller.more s' = poller.more s"
  shows "outputBuffer s' = outputBuffer s" "wire s' = wire s \<and> closed s' = closed s"
  using assms by (cases s; cases s'; simp)+

lemmas request_outputBuffer = Channel_request_more [THEN conn_more(1)]
lemmas request_wire = Channel_request_more [THEN conn_more(2)]

lemma shutdownInLoop_wire: "shutdownInLoop b s = Inr s' \<Longrightarrow> wire s' = wire s \<and> closed s' = closed s"
  by (auto simp: shutdownInLoop_def load_def split: option.splits if_splits)

lemma sendInLoop_wire:
  assumes "sendInLoop sys b w m s = Inr s'"
  shows "closed s' = closed s \<and> prefix (wire s) (wire s')"
  using assms unfolding sendInLoop_def Let_def queue_writeComplete_def
  by (cases w) (auto simp del: rbind_Inr_iff elim!: rbind_InrE split: if_splits dest!: request_wire)

lemma handleWrite_wire:
  assumes "conn_handleWrite sys b w s = Inr s'"
  shows "closed s' = closed s \<and> prefix (wire s) (wire s')"
  using assms unfolding conn_handleWrite_def Let_def queue_writeComplete_def
  by (cases w) (auto simp del: rbind_Inr_iff elim!: rbind_InrE split: if_splits dest!: request_wire shutdownInLoop_wire)

lemma sendInLoop_room:
  assumes sys: "epoll_ctl_ok sys" and inv: "conn_inv sys s" and room: "room_for N (outputBuffer s)"
    and w: "write_ok (length m) w" and fits: "length (readable (outputBuffer s)) + length m \<le> N"
  obtains s' where "sendInLoop sys True w m s = Inr s'" "room_for N (outputBuffer s')"
proof (cases "direct_count s w < length m")
  case True
  have small: "length m \<le> max_size" using fits room_forD(4) [OF room] by simp
  obtain b where b: "append_buffer (drop (direct_count s w) m) (outputBuffer s) = Inr b" "room_for N b"
    by (rule append_buffer_room [OF room, of "drop (direct_count s w) m"]) (use fits in auto)
  let ?s = "(after_write (direct_count s w) m s)\<lparr>outputBuffer := b\<rparr>"
  note run = sendInLoop_rest [OF inv True]
  show ?thesis
  proof (cases "writing s")
    case True
    then show ?thesis using that [of ?s] run b by simp
  next
    case False
    have ok: "chan_ok sys ?s" "streams_ok ?s" "readable (outputBuffer ?s) \<noteq> []" "\<not> closed ?s \<longrightarrow> (\<forall>(a, b) \<in> set (fins ?s). a = b)"
      using after_append_ok [OF inv True small b(1)] by (simp_all add: Let_def)
    obtain s' where s': "Channel_request sys True EnableWriting (conn_channel ?s) ?s = Inr s'"
      by (rule enableWriting_inv [OF sys ok(1-3)]) (use ok(4) in auto)
    then show ?thesis using that [of s'] run b False request_outputBuffer [OF s'] by simp
  qed
next
  case False
  then show ?thesis using that sendInLoop_all_written [OF inv w] room by (auto simp: after_write_def)
qed

lemma retrieve_keeps_room: "retrieve n b = Inr b' \<Longrightarrow> room_for N b \<Longrightarrow> room_for N b'"
  using retrieve_room [of N b n] retrieve_too_much [of b n] room_forD(1) [of N b] by (metis Inl_Inr_False Inr_inject not_le)

lemma shutdownInLoop_outputBuffer: "shutdownInLoop b s = Inr s' \<Longrightarrow> outputBuffer s' = outputBuffer s"
  by (auto simp: shutdownInLoop_def load_def split: option.splits if_splits)

lemma handleWrite_outputBuffer:
  assumes "conn_handleWrite sys b w s = Inr s'"
  shows "outputBuffer s' = outputBuffer s \<or> (\<exists>n. retrieve n (outputBuffer s) = Inr (outputBuffer s'))"
  using assms unfolding conn_handleWrite_def Let_def queue_writeComplete_def
  by (cases w) (auto simp del: rbind_Inr_iff elim!: rbind_InrE split: if_splits
      dest!: request_outputBuffer shutdownInLoop_outputBuffer)

lemma handleWrite_keeps_room:
  "conn_handleWrite sys b w s = Inr s' \<Longrightarrow> room_for N (outputBuffer s) \<Longrightarrow> room_for N (outputBuffer s')"
  using handleWrite_outputBuffer retrieve_keeps_room by metis

lemma conn_handleRead_room:
  assumes room: "room_for N (inputBuffer s)" and fits: "length (readable (inputBuffer s)) + length d \<le> N" and d: "d \<noteq> []"
  obtains b cs where "conn_handleRead sys True t (ReadData d) s = Inr (s\<lparr>inputBuffer := b, received := received s @ d, calls := cs\<rparr>)"
    "room_for N b" "readable b = readable (inputBuffer s) @ d"
proof -
  obtain b where b: "readFd (ReadData d) (inputBuffer s) = Inr (int (length d), 0, b)" "room_for N b" "readable b = readable (inputBuffer s) @ d"
    by (rule readFd_room [OF room fits])
  let ?cs = "if hasMessageCallback s then calls s @ [MessageCallback t] else calls s"
  have "conn_handleRead sys True t (ReadData d) s = Inr (s\<lparr>inputBuffer := b, received := received s @ d, calls := ?cs\<rparr>)"
    using b(1) d by (simp add: conn_handleRead_def received_bytes_def Let_def)
  with b show ?thesis using that by blast
qed

section \<open>The two sides of a connection\<close>

text \<open>What reading leaves alone.\<close>

lemma conn_handleRead_fields:
  assumes sys: "epoll_ctl_ok sys" and inv: "conn_inv sys s" and small: "length (received_bytes r) \<le> max_size"
    and run: "conn_handleRead sys True t r s = Inr s'"
  shows "accepted s' = accepted s \<and> conn_state s' = conn_state s \<and> hasMessageCallback s' = hasMessageCallback s \<and>
    received s' = received s @ received_bytes r \<and>
    readable (inputBuffer s') = readable (inputBuffer s) @ received_bytes r"
proof -
  obtain n e b where b: "readFd r (inputBuffer s) = Inr (n, e, b)"
    using run by (auto simp: conn_handleRead_def)
  have "readable b = readable (inputBuffer s) @ received_bytes r \<and> buf_inv b"
  proof (cases r)
    case (ReadErr e)
    then show ?thesis using b inv by (simp add: readFd_error received_bytes_def conn_inv_def streams_ok_def)
  next
    case (ReadData data)
    then show ?thesis
      using readFd_contents [of "inputBuffer s" data n e b] b inv small
      by (simp add: received_bytes_def conn_inv_def streams_ok_def)
  qed
  note B = this
  let ?s = "s\<lparr>inputBuffer := b, received := received s @ received_bytes r\<rparr>"
  have ok: "chan_ok sys (?s\<lparr>closed := True\<rparr>)" using inv by (simp add: conn_inv_def)
  have "accepted s1 = accepted s \<and> conn_state s1 = conn_state s \<and> hasMessageCallback s1 = hasMessageCallback s \<and>
      received s1 = received s @ received_bytes r \<and> inputBuffer s1 = b"
    if "conn_handleClose sys True ?s = Inr s1" for s1
    using that request_fields [OF sys ok, of DisableAll] by (fastforce simp: conn_handleClose_def)
  with run b B show ?thesis
    by (auto simp: conn_handleRead_def conn_handleError_def Let_def split: if_splits)
qed

text \<open>Sending and writing do not touch the input side.\<close>

definition input_side :: "('cb, 'k) tcp_connection \<Rightarrow> byte list \<times> buffer \<times> bool" where
  "input_side s = (received s, inputBuffer s, hasMessageCallback s)"

lemma request_input_side: "Channel_request sys b rq p s = Inr s' \<Longrightarrow> input_side s' = input_side s"
  by (auto simp: Channel_request_def change_def load_def EventLoop_updateChannel_def ep_updateChannel_def
      ep_update_def Let_def input_side_def split: if_splits option.splits)

lemma input_side_simps [simp]:
  "input_side (s\<lparr>wire := x\<rparr>) = input_side s" "input_side (s\<lparr>accepted := x\<rparr>) = input_side s"
  "input_side (s\<lparr>outputBuffer := b\<rparr>) = input_side s" "input_side (s\<lparr>fins := f\<rparr>) = input_side s"
  "input_side (queue_writeComplete s) = input_side s"
  by (simp_all add: input_side_def queue_writeComplete_def)

lemma sendInLoop_input_side: "sendInLoop sys b w m s = Inr s' \<Longrightarrow> input_side s' = input_side s"
  by (auto simp: sendInLoop_def load_def Let_def dest!: request_input_side split: option.splits if_splits syswrite.splits)

lemma shutdownInLoop_input_side: "shutdownInLoop b s = Inr s' \<Longrightarrow> input_side s' = input_side s"
  by (auto simp: shutdownInLoop_def load_def split: option.splits if_splits)

lemma handleWrite_input_side: "conn_handleWrite sys b w s = Inr s' \<Longrightarrow> input_side s' = input_side s"
  by (cases w) (auto simp: conn_handleWrite_def load_def Let_def dest!: request_input_side shutdownInLoop_input_side
      split: option.splits if_splits)

section \<open>Callbacks and ends of the stream\<close>

text \<open>What sending, writing and shutting down do to the queued callbacks and to the end of the stream.\<close>

lemma conn_signals:
  fixes s s' :: "('cb, 'k) tcp_connection"
  assumes "poller.more s' = poller.more s"
  shows "calls s' = calls s \<and> fins s' = fins s \<and> hasWriteCompleteCallback s' = hasWriteCompleteCallback s \<and>
    conn_state s' = conn_state s \<and> outputBuffer s' = outputBuffer s \<and> wire s' = wire s \<and> accepted s' = accepted s"
  using assms by (cases s; cases s'; simp)

lemmas request_signals = Channel_request_more [THEN conn_signals]

lemma sendInLoop_signals:
  assumes "sendInLoop sys b w m s = Inr s'" "conn_inv sys s"
  shows "hasWriteCompleteCallback s' = hasWriteCompleteCallback s \<and> fins s' = fins s \<and>
    calls s' = calls (if length m \<le> direct_count s w \<and> (\<exists>n. w = Wrote n) \<and> \<not> writing s \<and> readableBytes (outputBuffer s) = 0
      then queue_writeComplete s else s)"
proof -
  obtain c where c: "chan s (conn_channel s) = Some c" "writing s = isWriting c"
    using assms(2) chan_ok_channel [of sys s] by (auto simp: conn_inv_def writing_def)
  show ?thesis
    using assms(1) c unfolding sendInLoop_def Let_def queue_writeComplete_def
    by (cases w) (auto simp: load_def direct_count_def simp del: rbind_Inr_iff elim!: rbind_InrE split: if_splits dest!: request_signals)
qed

lemma shutdownInLoop_signals:
  assumes "shutdownInLoop b s = Inr s'"
  shows "calls s' = calls s \<and> hasWriteCompleteCallback s' = hasWriteCompleteCallback s \<and> outputBuffer s' = outputBuffer s \<and>
    (fins s' = fins s \<or> fins s' = fins s @ [(length (wire s'), length (accepted s'))])"
  using assms by (auto simp: shutdownInLoop_def load_def split: option.splits if_splits)

lemma drained_signals:
  assumes "rbind (Channel_request sys b DisableWriting p s) (\<lambda>s.
      let s = queue_writeComplete s in if conn_state s = kDisconnecting then shutdownInLoop b s else Inr s) = Inr s'"
  shows "hasWriteCompleteCallback s' = hasWriteCompleteCallback s \<and> outputBuffer s' = outputBuffer s \<and>
    calls s' = calls (queue_writeComplete s) \<and> (fins s' = fins s \<or> fins s' = fins s @ [(length (wire s'), length (accepted s'))])"
proof -
  obtain s1 where s1: "Channel_request sys b DisableWriting p s = Inr s1"
    "(if conn_state (queue_writeComplete s1) = kDisconnecting then shutdownInLoop b (queue_writeComplete s1) else Inr (queue_writeComplete s1)) = Inr s'"
    using assms by (elim rbind_InrE) (simp add: Let_def)
  note same = request_signals [OF s1(1)]
  have "hasWriteCompleteCallback s' = hasWriteCompleteCallback (queue_writeComplete s1) \<and> outputBuffer s' = outputBuffer (queue_writeComplete s1) \<and>
    calls s' = calls (queue_writeComplete s1) \<and>
    (fins s' = fins (queue_writeComplete s1) \<or> fins s' = fins (queue_writeComplete s1) @ [(length (wire s'), length (accepted s'))])"
    using s1(2) shutdownInLoop_signals [of b "queue_writeComplete s1" s'] by (auto split: if_splits)
  with same show ?thesis by (auto simp: queue_writeComplete_def split: if_splits)
qed

lemma handleWrite_signals:
  assumes "conn_handleWrite sys b w s = Inr s'"
  shows "s' = s \<or> hasWriteCompleteCallback s' = hasWriteCompleteCallback s \<and>
    (\<exists>n. retrieve n (outputBuffer s) = Inr (outputBuffer s')) \<and> writing s \<and>
    (if readableBytes (outputBuffer s') = 0
     then calls s' = calls (queue_writeComplete s) \<and> (fins s' = fins s \<or> fins s' = fins s @ [(length (wire s'), length (accepted s'))])
     else calls s' = calls s \<and> fins s' = fins s)"
proof (cases "s' = s")
  case False
  obtain c where c: "load (conn_channel s) s = Inr c" "isWriting c" "\<exists>n. w = Wrote n \<and> 0 < n"
    using assms False unfolding conn_handleWrite_def
    by (cases w) (auto simp del: rbind_Inr_iff elim!: rbind_InrE split: if_splits)
  then obtain n where n0: "w = Wrote n" "0 < n" by blast
  let ?next = "\<lambda>block d. let s = s\<lparr>outputBuffer := d, wire := wire s @ take n block\<rparr> in
      if readableBytes d = 0 then
        rbind (Channel_request sys b DisableWriting (conn_channel s) s) (\<lambda>s.
        let s = queue_writeComplete s in if conn_state s = kDisconnecting then shutdownInLoop b s else Inr s)
      else Inr s"
  have "rbind (load_block (outputBuffer s) (peek (outputBuffer s)) (readableBytes (outputBuffer s))) (\<lambda>block.
      rbind (retrieve (word_of_nat n) (outputBuffer s)) (?next block)) = Inr s'"
    using assms c(2) unfolding conn_handleWrite_def c(1) n0(1)
    by (cases b) (simp_all only: check_def rbind.simps if_True if_False syswrite.case n0(2) sum.distinct)
  then obtain block d where n: "retrieve (word_of_nat n) (outputBuffer s) = Inr d" "?next block d = Inr s'"
    by (elim rbind_InrE)
  have "writing s" using c(1,2) by (simp add: writing_def load_def split: option.splits)
  let ?s = "s\<lparr>outputBuffer := d, wire := wire s @ take n block\<rparr>"
  show ?thesis
  proof (cases "readableBytes d = 0")
    case True
    then have "rbind (Channel_request sys b DisableWriting (conn_channel s) ?s) (\<lambda>s.
        let s = queue_writeComplete s in if conn_state s = kDisconnecting then shutdownInLoop b s else Inr s) = Inr s'"
      using n(2) by (simp add: Let_def del: rbind_Inr_iff)
    from drained_signals [OF this] have sig: "hasWriteCompleteCallback s' = hasWriteCompleteCallback s" "outputBuffer s' = d"
      "calls s' = calls (queue_writeComplete s)" "fins s' = fins s \<or> fins s' = fins s @ [(length (wire s'), length (accepted s'))]"
      by (simp_all add: queue_writeComplete_def)
    then have "\<exists>n. retrieve n (outputBuffer s) = Inr (outputBuffer s')" using n(1) by blast
    then show ?thesis using sig \<open>writing s\<close> True by simp
  next
    case False
    then have "s' = ?s" using n(2) by (simp add: Let_def)
    then show ?thesis using n(1) \<open>writing s\<close> False by auto
  qed
qed simp

lemma conn_inv_output: "conn_inv sys s \<Longrightarrow> buf_inv (outputBuffer s) \<and> (\<not> closed s \<longrightarrow> (writing s \<longleftrightarrow> readable (outputBuffer s) \<noteq> []))"
  by (simp add: conn_inv_def streams_ok_def open_ok_def)

end
