(* ===== verification/Connection_End.thy ===== *)
theory Connection_End
  imports Connection_Capacity
begin

text \<open>
  How a connection object goes: its destructor frees the channel and closes the socket. After \<^verbatim>\<open>connectDestroyed\<close> the descriptor can be
  used again in the same loop; without it, as when a \<^verbatim>\<open>TcpServer\<close> is destroyed with open connections, the poller keeps a
  pointer to the freed channel.
\<close>

text \<open>The destructor; \<open>k\<close> is the kernel after the socket was closed.\<close>

definition TcpConnection_delete :: "'k \<Rightarrow> ('cb, 'k) tcp_connection \<Rightarrow> ('cb, 'k) poller result" where
  "TcpConnection_delete k s =
     rbind (load (conn_channel s) s) (\<lambda>c.
     rbind (Channel_delete c) (\<lambda>_.
       Inr (poller.truncate (s\<lparr>chan := (chan s)(conn_channel s := None), kernel := k\<rparr>))))"

section \<open>Channels that are not touched\<close>

lemma request_channels:
  "Channel_request sys b rq p s = Inr s' \<Longrightarrow> (\<forall>q. q \<noteq> p \<longrightarrow> chan s' q = chan s q) \<and> map_option ch_fd (chan s' p) = map_option ch_fd (chan s p)"
  by (auto simp: Channel_request_def change_def load_def EventLoop_updateChannel_def ep_updateChannel_def ep_update_def Let_def set_index_def
      split: if_splits option.splits)

lemma remove_channels:
  "EventLoop_removeChannel sys b p s = Inr s' \<Longrightarrow> (\<forall>q. q \<noteq> p \<longrightarrow> chan s' q = chan s q) \<and> map_option ch_fd (chan s' p) = map_option ch_fd (chan s p)"
  by (auto simp: EventLoop_removeChannel_def ep_removeChannel_def change_def load_def ep_update_def Let_def set_index_def
      split: if_splits option.splits)

lemma channel_more:
  fixes s s' :: "('cb, 'k) tcp_connection"
  assumes "poller.more s' = poller.more s"
  shows "conn_channel s' = conn_channel s"
  using assms by (cases s; cases s'; simp)

lemma destroyed_channels:
  assumes "connectDestroyed sys True s = Inr s'"
  shows "conn_channel s' = conn_channel s \<and> (\<forall>q. q \<noteq> conn_channel s \<longrightarrow> chan s' q = chan s q) \<and>
    map_option ch_fd (chan s' (conn_channel s)) = map_option ch_fd (chan s (conn_channel s))"
proof -
  let ?s = "s\<lparr>conn_state := kDisconnected, closed := True\<rparr>"
  obtain s1 s2 where s1: "Channel_request sys True DisableAll (conn_channel s) ?s = Inr s1" "connectionCallback s1 = Inr s2"
    "EventLoop_removeChannel sys True (conn_channel s2) s2 = Inr s'"
    using assms unfolding connectDestroyed_def by (auto simp del: rbind_Inr_iff elim!: rbind_InrE)
  have s2: "chan s2 = chan s1" "conn_channel s2 = conn_channel s1" using s1(2) by (auto simp: connectionCallback_def)
  have "conn_channel s1 = conn_channel s" "conn_channel s' = conn_channel s2"
    using channel_more [OF Channel_request_more [OF s1(1)]] channel_more [OF EventLoop_removeChannel_more [OF s1(3)]] by simp_all
  then show ?thesis using request_channels [OF s1(1)] remove_channels [OF s1(3)] s2 by simp
qed

lemma destroyed_frees_descriptor:
  assumes inv: "conn_inv sys s" "conn_inv sys s'" and ch: "chan s (conn_channel s) = Some c" "ch_index c \<noteq> kNew"
    and run: "connectDestroyed sys True s = Inr s'" and unreg: "\<not> registered s'"
  shows "channels_ep s' (ch_fd c) = None"
proof (rule ccontr)
  have ep: "ep_inv sys s" "ep_inv sys s'" using inv by (simp_all add: conn_inv_def chan_ok_def)
  note same = destroyed_channels [OF run]
  assume "channels_ep s' (ch_fd c) \<noteq> None"
  then obtain q cq where q: "channels_ep s' (ch_fd c) = Some q" "chan s' q = Some cq" "ch_fd cq = ch_fd c" "ch_index cq \<noteq> kNew"
    using ep_invD(3) [OF ep(2)] by blast
  have "q \<noteq> conn_channel s" using q unreg same by (auto simp: registered_def)
  then have "chan s q = Some cq" using q(2) same by simp
  then show False using ep_invD(2) [OF ep(1), of q cq] ep_invD(2) [OF ep(1) ch] q(3,4) \<open>q \<noteq> conn_channel s\<close> by simp
qed

lemma delete_poller:
  assumes "TcpConnection_delete k s = Inr pl"
  shows "chan pl = (chan s)(conn_channel s := None)" "channels_ep pl = channels_ep s" "kernel pl = k" "ownerLoop pl = ownerLoop s"
  using assms by (auto simp: TcpConnection_delete_def poller.defs)

lemma delete_unregistered:
  assumes ep: "ep_inv sys s" and unreg: "\<not> registered s" and del: "TcpConnection_delete k s = Inr pl"
    and kernel: "interest sys k = interest sys (kernel s)"
  shows "ep_inv sys pl"
proof -
  note pl = delete_poller [OF del]
  have other: "q \<noteq> conn_channel s" if "channels_ep s d = Some q" for d q
    using ep_invD(3) [OF ep that] unreg by (auto simp: registered_def)
  have "interest_of pl = interest_of s" using other by (auto simp: fun_eq_iff interest_of_def pl split: option.splits)
  then show ?thesis
    using ep other by (intro ep_invI) (auto simp: pl kernel ep_invD(4) [OF ep] dest: ep_invD(1,2) [OF ep] ep_invD(3) [OF ep] split: if_splits)
qed

lemma reuse_opens:
  assumes "epoll_ctl_ok sys" "ep_inv sys s" "\<not> registered s" "channels_ep s d = None"
    and "TcpConnection_delete k s = Inr pl" "interest sys k = interest sys (kernel s)" "chan pl p = None"
  obtains c0 c where "TcpConnection_new pl p (TcpConnection_channel (ownerLoop pl) d r w cl e) = Inr c0"
    "connectEstablished sys True (conn_setup c0) = Inr c" "ready sys c"
proof -
  have "ep_inv sys pl" "channels_ep pl d = None" using delete_unregistered [OF assms(2,3,5,6)] delete_poller [OF assms(5)] assms(4) by simp_all
  with that show ?thesis using connection_opens [OF assms(1) _ assms(7), of d r w cl e] by metis
qed

lemma reuse_aborts:
  assumes "channels_ep pl d = Some q"
  obtains c0 where "TcpConnection_new pl p (TcpConnection_channel (ownerLoop pl) d r w cl e) = Inr c0"
    "connectEstablished sys True (conn_setup c0) = Inl AssertFailure"
proof -
  let ?ch = "TcpConnection_channel (ownerLoop pl) d r w cl e"
  obtain c0 where c0: "TcpConnection_new pl p ?ch = Inr c0" "conn_state c0 = kConnecting" "conn_channel c0 = p" "chan c0 p = Some ?ch"
    "channels_ep c0 = channels_ep pl" "ownerLoop c0 = ownerLoop pl"
    by (simp add: TcpConnection_new_def Buffer_new_fresh)
  have new: "ch_fd ?ch = d" "ch_index ?ch = kNew" "ch_loop ?ch = ownerLoop pl"
    by (simp_all add: TcpConnection_channel_def setErrorCallback_def setCloseCallback_def setWriteCallback_def setReadCallback_def
        Channel_new_def kNew_def)
  have "Channel_request sys True EnableReading p ((conn_setup c0)\<lparr>conn_state := kConnected\<rparr>) = Inl AssertFailure"
    using c0 new assms by (simp add: Channel_request_def change_def load_def EventLoop_updateChannel_def ep_updateChannel_def conn_setup_def
        setConnectionCallback_def setMessageCallback_def setWriteCompleteCallback_def conn_setCloseCallback_def Let_def)
  moreover have "conn_state (conn_setup c0) = kConnecting" "conn_channel (conn_setup c0) = p"
    using c0 by (simp_all add: conn_setup_def setConnectionCallback_def setMessageCallback_def setWriteCompleteCallback_def conn_setCloseCallback_def)
  ultimately have "connectEstablished sys True (conn_setup c0) = Inl AssertFailure" by (simp add: connectEstablished_def)
  with that c0(1) show ?thesis by blast
qed

section \<open>Properties\<close>

text \<open>
  C27. Descriptors are used again: when an established connection is destroyed by \<^verbatim>\<open>connectDestroyed\<close> and its object is freed, a new connection
  for a socket with the same number opens in the same loop without a fault. When the object is freed
  without \<^verbatim>\<open>connectDestroyed\<close>, as the destructor of \<^verbatim>\<open>TcpServer\<close> does, the poller keeps a pointer to the freed channel, and a new
  connection for that number fails an assertion.
\<close>

theorem descriptor_reuse:
  assumes "epoll_ctl_ok sys" "conn_inv sys s" "hasConnectionCallback s" "conn_state s = kConnected \<or> conn_state s = kDisconnecting"
    and "chan s (conn_channel s) = Some ch"
  shows "(\<exists>s'. connectDestroyed sys True s = Inr s' \<and>
      (\<forall>k pl p. TcpConnection_delete k s' = Inr pl \<longrightarrow> interest sys k = interest sys (kernel s') \<longrightarrow> chan pl p = None \<longrightarrow>
        (\<exists>c0 c. TcpConnection_new pl p (TcpConnection_channel (ownerLoop pl) (ch_fd ch) r w cl e) = Inr c0 \<and>
           connectEstablished sys True (conn_setup c0) = Inr c \<and> ready sys c))) \<and>
    (\<forall>k pl p. TcpConnection_delete k s = Inr pl \<longrightarrow> chan pl p = None \<longrightarrow>
        channels_ep pl (ch_fd ch) = Some (conn_channel s) \<and> chan pl (conn_channel s) = None \<and>
        (\<exists>c0. TcpConnection_new pl p (TcpConnection_channel (ownerLoop pl) (ch_fd ch) r w cl e) = Inr c0 \<and>
           connectEstablished sys True (conn_setup c0) = Inl AssertFailure))"
proof (intro conjI allI impI)
  have reg: "ch_index ch \<noteq> kNew" using assms(2,4,5) by (auto simp: conn_inv_def registered_def)
  obtain s' where s': "connectDestroyed sys True s = Inr s'" "conn_inv sys s'" "\<not> registered s'"
    using connectDestroyed_ok [OF assms(1-4)] by blast
  have "ep_inv sys s'" "channels_ep s' (ch_fd ch) = None"
    using s'(2) destroyed_frees_descriptor [OF assms(2) s'(2) assms(5) reg s'(1,3)] by (simp_all add: conn_inv_def chan_ok_def)
  note opens = reuse_opens [OF assms(1) this(1) s'(3) this(2), of _ _ _ r w cl e]
  show "\<exists>s'. connectDestroyed sys True s = Inr s' \<and>
      (\<forall>k pl p. TcpConnection_delete k s' = Inr pl \<longrightarrow> interest sys k = interest sys (kernel s') \<longrightarrow> chan pl p = None \<longrightarrow>
        (\<exists>c0 c. TcpConnection_new pl p (TcpConnection_channel (ownerLoop pl) (ch_fd ch) r w cl e) = Inr c0 \<and>
           connectEstablished sys True (conn_setup c0) = Inr c \<and> ready sys c))"
    using s'(1) opens by metis
  fix k pl p assume del: "TcpConnection_delete k s = Inr pl" "chan pl p = None"
  have "ep_inv sys s" using assms(2) by (simp add: conn_inv_def chan_ok_def)
  then show dangling: "channels_ep pl (ch_fd ch) = Some (conn_channel s)" using ep_invD(2) assms(5) reg delete_poller(2) [OF del(1)] by metis
  show "chan pl (conn_channel s) = None" using delete_poller(1) [OF del(1)] by simp
  show "\<exists>c0. TcpConnection_new pl p (TcpConnection_channel (ownerLoop pl) (ch_fd ch) r w cl e) = Inr c0 \<and>
      connectEstablished sys True (conn_setup c0) = Inl AssertFailure"
    using reuse_aborts [OF dangling, of p r w cl e sys] by metis
qed

theorem descriptor_reuse_witness:
  "\<exists>s pl c0. connectEstablished sample_sys True sample_conn = Inr s \<and> TcpConnection_delete Map.empty s = Inr pl \<and>
     TcpConnection_new pl 16 (TcpConnection_channel (ownerLoop pl) 5 11 12 13 14) = Inr c0 \<and>
     connectEstablished sample_sys True (conn_setup c0) = Inl AssertFailure"
proof -
  obtain s pl ch where s: "connectEstablished sample_sys True sample_conn = Inr s" "conn_state s = kConnected" "hasConnectionCallback s"
    "chan s (conn_channel s) = Some ch" "ch_fd ch = 5" "TcpConnection_delete Map.empty s = Inr pl" "chan pl 16 = None"
    by (simp add: connectEstablished_def sample_conn_defs request_eval connectionCallback_def requested.simps TcpConnection_delete_def
        Channel_delete_def poller.defs)
  have "conn_inv sample_sys s" by (rule connectEstablished_inv [OF sample_ctl_ok sample_conn_inv s(1)])
  from descriptor_reuse [OF sample_ctl_ok this s(3) disjI1 [OF s(2)] s(4), of 11 12 13 14, THEN conjunct2, rule_format, OF s(6,7)]
  show ?thesis unfolding s(5) using s(1,6) by blast
qed

end
