(* ===== verification/Connection_Dispatch.thy ===== *)
theory Connection_Dispatch
  imports Connection_End
begin

text \<open>
  One event of a connection, from \<^verbatim>\<open>Channel::handleEvent\<close> (\<^verbatim>\<open>Channel.cc\<close>) into the handlers of
  \<^verbatim>\<open>TcpConnection\<close> (\<^verbatim>\<open>TcpConnection.cc\<close>) that its constructor bound to the channel. The dispatch
  looks at the channel in the store before each callback, so the handlers really run on the
  state the ones before them left.
\<close>

section \<open>The callbacks of the channel\<close>

datatype handler = OnRead | OnWrite | OnClose | OnError

text \<open>
  What calling a bound member function does. \<open>r\<close> is what \<^verbatim>\<open>read\<close> reports in this event and \<open>w\<close>
  what \<^verbatim>\<open>write\<close> reports for a block of a length; \<open>reply\<close> is what the message callback of the
  user asks of the connection. \<^verbatim>\<open>handleRead\<close> takes the time of the poll; the dispatch gives it.
\<close>

fun conn_callback :: "'k epoll_sys \<Rightarrow> sysread \<Rightarrow> (nat \<Rightarrow> syswrite) \<Rightarrow> conn_op list \<Rightarrow>
    timestamp option \<Rightarrow> handler \<Rightarrow> (handler, 'k) tcp_connection \<Rightarrow> (handler, 'k) tcp_connection result" where
  "conn_callback sys r w reply t OnRead s = (case t of None \<Rightarrow> Inl BadFunctionCall | Some receiveTime \<Rightarrow>
     rbind (conn_handleRead sys True receiveTime r s) (\<lambda>s'.
       if calls s' = calls s @ [MessageCallback receiveTime] then rfold (conn_step sys) reply s' else Inr s'))"
| "conn_callback sys r w reply t OnWrite s =
     conn_handleWrite sys True (w (unat (readableBytes (outputBuffer s)))) s"
| "conn_callback sys r w reply t OnClose s = conn_handleClose sys True s"
| "conn_callback sys r w reply t OnError s = conn_handleError s"

text \<open>What a user may do in a callback.\<close>

fun reply_ok :: "conn_op \<Rightarrow> bool" where
  "reply_ok (Send w m) = (write_ok (length m) w \<and> length m \<le> max_size)"
| "reply_ok Shutdown = True"
| "reply_ok (Consume n) = True"
| "reply_ok _ = False"

definition connection_event :: "'k epoll_sys \<Rightarrow> sysread \<Rightarrow> (nat \<Rightarrow> syswrite) \<Rightarrow> conn_op list \<Rightarrow> timestamp \<Rightarrow>
    (handler, 'k) tcp_connection \<Rightarrow> (handler, 'k) tcp_connection result" where
  "connection_event sys r w reply t s = handleEvent (conn_callback sys r w reply) t (conn_channel s) s"

section \<open>What the handlers leave alone\<close>

definition up :: "('cb, 'k) tcp_connection \<Rightarrow> bool" where
  "up s \<longleftrightarrow> conn_state s = kConnected \<or> conn_state s = kDisconnecting"

definition closes :: "('cb, 'k) tcp_connection \<Rightarrow> nat" where
  "closes s = count_list (calls s) CloseCallback"

definition same_conn :: "('cb, 'k) tcp_connection \<Rightarrow> ('cb, 'k) tcp_connection \<Rightarrow> bool" where
  "same_conn s s' \<longleftrightarrow> conn_channel s' = conn_channel s \<and> hasCloseCallback s' = hasCloseCallback s \<and>
     (up s \<longrightarrow> up s') \<and> (\<forall>q. rel_option same_dispatch (chan s q) (chan s' q))"

lemma same_dispatch_refl [simp]: "same_dispatch c c"
  by (simp add: same_dispatch_def)

lemma same_dispatch_trans: "same_dispatch a b \<Longrightarrow> same_dispatch b c \<Longrightarrow> same_dispatch a c"
  by (simp add: same_dispatch_def)

lemma rel_same_refl [simp]: "rel_option same_dispatch x x"
  by (rule option.rel_refl) simp

lemma same_conn_refl [simp]: "same_conn s s"
  by (simp add: same_conn_def)

lemma same_conn_trans: "same_conn a b \<Longrightarrow> same_conn b c \<Longrightarrow> same_conn a c"
  unfolding same_conn_def by (auto intro: option.rel_transp [unfolded transp_def, rule_format] dest: same_dispatch_trans)

lemma request_store:
  "Channel_request sys b rq p s = Inr s' \<Longrightarrow> rel_option same_dispatch (chan s q) (chan s' q)"
  by (auto simp: Channel_request_def change_def load_def EventLoop_updateChannel_def ep_updateChannel_def ep_update_def Let_def
      set_index_def same_dispatch_def split: if_splits option.splits)

lemma more_up:
  fixes s s' :: "('cb, 'k) tcp_connection"
  assumes "poller.more s' = poller.more s"
  shows "conn_channel s' = conn_channel s \<and> hasCloseCallback s' = hasCloseCallback s \<and> up s' = up s \<and> closes s' = closes s"
  using assms by (cases s; cases s'; simp add: up_def closes_def)

lemma request_same: "Channel_request sys b rq p s = Inr s' \<Longrightarrow> same_conn s s' \<and> closes s' = closes s"
  using request_store [of sys b rq p s s'] more_up [OF Channel_request_more, of sys b rq p s s'] by (simp add: same_conn_def)

lemma same_conn_fields [simp]:
  "same_conn (s\<lparr>wire := xs\<rparr>) s' = same_conn s s'" "same_conn (s\<lparr>outputBuffer := b\<rparr>) s' = same_conn s s'"
  "same_conn (s\<lparr>accepted := xs\<rparr>) s' = same_conn s s'" "same_conn (s\<lparr>calls := cs\<rparr>) s' = same_conn s s'"
  "same_conn (s\<lparr>closed := cl\<rparr>) s' = same_conn s s'" "same_conn (s\<lparr>fins := fs\<rparr>) s' = same_conn s s'"
  "same_conn (s\<lparr>inputBuffer := b\<rparr>) s' = same_conn s s'" "same_conn (s\<lparr>received := xs\<rparr>) s' = same_conn s s'"
  "same_conn s (s'\<lparr>calls := cs\<rparr>) = same_conn s s'" "same_conn s (s'\<lparr>fins := fs\<rparr>) = same_conn s s'"
  "same_conn s (s'\<lparr>inputBuffer := b\<rparr>) = same_conn s s'" "same_conn s (s'\<lparr>consumed := xs\<rparr>) = same_conn s s'"
  "same_conn s (s'\<lparr>wire := xs\<rparr>) = same_conn s s'" "same_conn s (s'\<lparr>outputBuffer := b\<rparr>) = same_conn s s'"
  "same_conn s (s'\<lparr>accepted := xs\<rparr>) = same_conn s s'" "same_conn s (s'\<lparr>received := xs\<rparr>) = same_conn s s'"
  by (simp_all add: same_conn_def up_def)

lemma closes_fields [simp]:
  "closes (s\<lparr>wire := xs\<rparr>) = closes s" "closes (s\<lparr>outputBuffer := b\<rparr>) = closes s" "closes (s\<lparr>accepted := xs\<rparr>) = closes s"
  "closes (s\<lparr>fins := fs\<rparr>) = closes s" "closes (s\<lparr>inputBuffer := b\<rparr>) = closes s" "closes (s\<lparr>consumed := xs\<rparr>) = closes s"
  "closes (s\<lparr>received := xs\<rparr>) = closes s" "closes (s\<lparr>closed := cl\<rparr>) = closes s" "closes (s\<lparr>conn_state := st\<rparr>) = closes s"
  "closes (s\<lparr>calls := calls s @ [WriteCompleteCallback]\<rparr>) = closes s"
  "closes (s\<lparr>calls := calls s @ [MessageCallback t]\<rparr>) = closes s"
  "closes (s\<lparr>calls := calls s @ [CloseCallback]\<rparr>) = Suc (closes s)"
  by (simp_all add: closes_def)

lemma queue_same [simp]:
  "same_conn s (queue_writeComplete s') = same_conn s s'" "same_conn (queue_writeComplete s) s' = same_conn s s'"
  "closes (queue_writeComplete s) = closes s" "conn_channel (queue_writeComplete s) = conn_channel s"
  "outputBuffer (queue_writeComplete s) = outputBuffer s"
  by (simp_all add: queue_writeComplete_def)

lemma shutdownInLoop_same: "shutdownInLoop b s = Inr s' \<Longrightarrow> same_conn s s' \<and> closes s' = closes s"
  by (auto simp: shutdownInLoop_def load_def split: option.splits if_splits)

lemma sendInLoop_same:
  assumes "sendInLoop sys b w m s = Inr s'"
  shows "same_conn s s' \<and> closes s' = closes s"
  using assms unfolding sendInLoop_def Let_def
  by (cases w) (auto simp del: rbind_Inr_iff elim!: rbind_InrE split: if_splits dest!: request_same)

lemma handleWrite_same:
  assumes "conn_handleWrite sys b w s = Inr s'"
  shows "same_conn s s' \<and> closes s' = closes s"
  using assms unfolding conn_handleWrite_def Let_def
  by (cases w) (auto simp del: rbind_Inr_iff elim!: rbind_InrE split: if_splits dest!: request_same shutdownInLoop_same,
      (blast intro: same_conn_trans)?)

lemma handleClose_same:
  assumes "conn_handleClose sys b s = Inr s'"
  shows "same_conn s s' \<and> closes s' = Suc (closes s)"
  using assms unfolding conn_handleClose_def
  by (auto simp del: rbind_Inr_iff elim!: rbind_InrE dest!: request_same)

lemma reply_same:
  assumes "reply_ok op" "conn_step sys op s = Inr s'"
  shows "same_conn s s' \<and> closes s' = closes s"
proof (cases op)
  case Shutdown
  have "same_conn s (s\<lparr>conn_state := kDisconnecting\<rparr>)" by (simp add: same_conn_def up_def)
  then show ?thesis
    using assms Shutdown shutdownInLoop_same [of True "s\<lparr>conn_state := kDisconnecting\<rparr>" s']
    by (auto simp: conn_shutdown_def split: if_splits intro: same_conn_trans)
qed (use assms in \<open>auto simp: conn_send_def split: if_splits dest: sendInLoop_same\<close>)

section \<open>Each handler in an event\<close>

text \<open>The state of a connection between two callbacks of an event.\<close>

definition mid_event :: "'k epoll_sys \<Rightarrow> ('cb, 'k) tcp_connection \<Rightarrow> bool" where
  "mid_event sys s \<longleftrightarrow> conn_inv sys s \<and> up s \<and> hasCloseCallback s"

lemma mid_event_next: "mid_event sys s \<Longrightarrow> same_conn s s' \<Longrightarrow> conn_inv sys s' \<Longrightarrow> mid_event sys s'"
  by (simp add: mid_event_def same_conn_def)

lemma replies_same:
  assumes "\<forall>op\<in>set reply. reply_ok op" "rfold (conn_step sys) reply s = Inr s'"
  shows "same_conn s s' \<and> closes s' = closes s"
  using assms
proof (induction reply arbitrary: s)
  case (Cons op reply)
  then obtain s1 where s1: "conn_step sys op s = Inr s1" "rfold (conn_step sys) reply s1 = Inr s'" by auto
  have "same_conn s s1 \<and> closes s1 = closes s" using reply_same s1(1) Cons.prems(1) by auto
  then show ?case using Cons.IH [OF _ s1(2)] Cons.prems(1) same_conn_trans [of s s1 s'] by auto
qed simp

lemma replies_ok:
  fixes s :: "('a, 'b) tcp_connection"
  shows "\<forall>op\<in>set reply. reply_ok op \<Longrightarrow> ops_ok sys reply s"
proof (induction reply arbitrary: s)
  case (Cons op reply)
  then have "op_ok op s" for s :: "('a, 'b) tcp_connection" by (cases op) auto
  with Cons show ?case by (auto split: sum.split)
qed simp

lemma handleRead_same:
  assumes "conn_handleRead sys b t r s = Inr s'"
  shows "same_conn s s'"
  using assms handleClose_same unfolding conn_handleRead_def Let_def conn_handleError_def
  by (fastforce simp del: rbind_Inr_iff elim!: rbind_InrE split: if_splits)

lemma callback_same:
  assumes ok: "\<forall>op\<in>set reply. reply_ok op" and run: "conn_callback sys r w reply t h s = Inr s'"
  shows "same_conn s s'"
proof (cases h)
  case OnRead
  then obtain receiveTime s1 where "conn_handleRead sys True receiveTime r s = Inr s1"
    "s' = s1 \<or> rfold (conn_step sys) reply s1 = Inr s'"
    using run by (auto split: option.splits if_splits)
  then show ?thesis using handleRead_same replies_same [OF ok] same_conn_trans by blast
qed (use run in \<open>auto simp: conn_handleError_def dest: handleWrite_same handleClose_same\<close>)

lemma callbacks_keep:
  fixes sys :: "'k epoll_sys"
  assumes "\<forall>op\<in>set reply. reply_ok op"
  shows "keeps_dispatch p (conn_callback sys r w reply)"
  unfolding keeps_dispatch_def
proof (intro allI impI, elim conjE)
  fix c t h and s s' :: "(handler, 'k) tcp_connection"
  assume shown: "shows_channel p c s" and run: "conn_callback sys r w reply t h s = Inr s'"
  have "rel_option same_dispatch (chan s p) (chan s' p)"
    using callback_same [OF assms run] by (simp add: same_conn_def)
  with shown show "shows_channel p c s'"
    by (cases "chan s p"; cases "chan s' p") (auto simp: shows_channel_def intro: same_dispatch_trans)
qed

text \<open>Closing always works. A registered connection is quiet then: not writing, and out of the kernel.\<close>

definition quiet :: "'k epoll_sys \<Rightarrow> ('cb, 'k) tcp_connection \<Rightarrow> bool" where
  "quiet sys s \<longleftrightarrow> \<not> writing s \<and> (\<forall>d m. interest sys (kernel s) d \<noteq> Some (m, conn_channel s))"

lemma quiet_if_deleted:
  assumes inv: "conn_inv sys s" and c: "chan s (conn_channel s) = Some c" "isNoneEvent c" "ch_index c = kDeleted"
  shows "quiet sys s"
proof -
  have "interest sys (kernel s) = interest_of s" using inv by (simp add: conn_inv_def chan_ok_def ep_inv_def)
  then show ?thesis
    using c by (auto simp: quiet_def writing_def isWriting_def isNoneEvent_def any_set_def kNoneEvent_def interest_of_def
        split: option.splits if_splits)
qed

lemma handleClose_quiet:
  assumes sys: "epoll_ctl_ok sys" and mid: "mid_event sys s" and c: "chan s (conn_channel s) = Some c"
  obtains s' where "conn_handleClose sys True s = Inr s'" "mid_event sys s'" "\<not> writing s'" "ch_index c = kAdded \<longrightarrow> quiet sys s'"
    "calls s' = calls s @ [CloseCallback]" "wire s' = wire s" "conn_state s' = conn_state s" "received s' = received s"
proof -
  let ?s = "s\<lparr>closed := True\<rparr>"
  obtain s1 where s1: "Channel_request sys True DisableAll (conn_channel ?s) ?s = Inr s1" "conn_inv sys s1"
    "\<exists>ch ce k. s1 = ?s\<lparr>chan := ch, channels_ep := ce, kernel := k\<rparr>"
    by (rule disableAll_inv [OF sys, of ?s]) (use mid in \<open>simp_all add: mid_event_def conn_inv_def streams_ok_def\<close>)
  have ok: "chan_ok sys ?s" using mid by (simp add: mid_event_def conn_inv_def)
  have "chan ?s (conn_channel ?s) = Some c" using c by simp
  then obtain s2 where "Channel_request sys True DisableAll (conn_channel ?s) ?s = Inr s2"
    "chan s2 (conn_channel ?s) = Some (after_request DisableAll c)"
    by (rule conn_request [OF sys ok])
  then have after: "chan s1 (conn_channel s1) = Some (after_request DisableAll c)" using s1(1,3) by auto
  then have nw: "\<not> writing (s1\<lparr>calls := calls s1 @ [CloseCallback]\<rparr>)"
    by (simp add: writing_def isWriting_after_request requested.simps any_set_def kNoneEvent_def)
  have "quiet sys s1" if "ch_index c = kAdded"
    by (rule quiet_if_deleted [OF s1(2) after])
      (simp_all add: isNoneEvent_def after_request_def set_index_def Let_def requested.simps that)
  then have q: "quiet sys (s1\<lparr>calls := calls s1 @ [CloseCallback]\<rparr>)" if "ch_index c = kAdded"
    using that by (simp add: quiet_def)
  then have q: "ch_index c = kAdded \<longrightarrow> quiet sys (s1\<lparr>calls := calls s1 @ [CloseCallback]\<rparr>)" by blast
  have run: "conn_handleClose sys True s = Inr (s1\<lparr>calls := calls s1 @ [CloseCallback]\<rparr>)"
    using s1(1,3) mid by (auto simp: conn_handleClose_def mid_event_def up_def)
  have "mid_event sys (s1\<lparr>calls := calls s1 @ [CloseCallback]\<rparr>)"
    using mid_event_next [OF mid, of "s1\<lparr>calls := calls s1 @ [CloseCallback]\<rparr>"] handleClose_same [OF run] s1(2) by simp
  from run this nw q show ?thesis by (rule that) (use s1(3) in auto)
qed

text \<open>Then the error and the write handler have nothing to do.\<close>

lemma handleWrite_quiet:
  assumes "conn_inv sys s" "\<not> writing s"
  shows "conn_handleWrite sys True w s = Inr s"
proof -
  obtain c where "chan s (conn_channel s) = Some c" using assms(1) chan_ok_channel [of sys s] by (auto simp: conn_inv_def)
  with assms(2) show ?thesis by (simp add: conn_handleWrite_def load_def writing_def)
qed

lemma eof_closes:
  assumes inv: "conn_inv sys s"
  shows "conn_handleRead sys True t (ReadData []) s =
    conn_handleClose sys True (s\<lparr>inputBuffer := inputBuffer s, received := received s\<rparr>)"
proof -
  have buf: "buf_inv (inputBuffer s)" using inv by (simp add: conn_inv_def streams_ok_def)
  obtain b where b: "readFd (ReadData []) (inputBuffer s) = Inr (0, 0, b)"
    by (rule readFd_correct [OF buf, of "[]"]) (simp_all add: readFd_ok_def)
  have "b = inputBuffer s"
    using b by (auto simp: readFd_def Let_def store_at_def store_block_def split: if_splits)
  with b show ?thesis by (simp add: conn_handleRead_def received_bytes_def)
qed

section \<open>The whole event\<close>

text \<open>A channel as the constructor of the connection set it up.\<close>

definition bound :: "handler channel \<Rightarrow> bool" where
  "bound c \<longleftrightarrow> readCallback c = Some OnRead \<and> writeCallback c = Some OnWrite \<and>
     closeCallback c = Some OnClose \<and> errorCallback c = Some OnError"

lemma bound_new: "bound (TcpConnection_channel loop sockfd OnRead OnWrite OnClose OnError)"
  by (simp add: bound_def TcpConnection_channel_def setErrorCallback_def setCloseCallback_def setWriteCallback_def
      setReadCallback_def)

lemma bound_calls:
  "bound c \<Longrightarrow> calls_of t c =
    (if hung_up (ch_revents c) then [(None, OnClose)] else []) @ (if failed (ch_revents c) then [(None, OnError)] else []) @
    (if can_read (ch_revents c) then [(Some t, OnRead)] else []) @ (if can_write (ch_revents c) then [(None, OnWrite)] else [])"
  by (simp add: bound_def calls_of_def slot_calls_def)

definition stored :: "addr \<Rightarrow> 'cb channel \<Rightarrow> ('cb, 'k) tcp_connection \<Rightarrow> ('cb, 'k) tcp_connection" where
  "stored p c s = s\<lparr>chan := (chan s)(p \<mapsto> c)\<rparr>"

text \<open>The events reported and the flag are not what the poller reads of a channel.\<close>

definition same_watch :: "'cb channel \<Rightarrow> 'cb channel \<Rightarrow> bool" where
  "same_watch c c' \<longleftrightarrow> ch_fd c' = ch_fd c \<and> ch_index c' = ch_index c \<and> ch_events c' = ch_events c \<and> ch_loop c' = ch_loop c"

lemma same_watch_flag [simp]: "same_watch c (c\<lparr>eventHandling := b\<rparr>)" "same_watch c (set_revents m c)"
  by (simp_all add: same_watch_def set_revents_def)

lemma stored_ep_inv:
  assumes inv: "ep_inv sys s" and p: "chan s p = Some c" "same_watch c c1"
  shows "ep_inv sys (stored p c1 s)"
proof -
  note D = ep_invD [OF inv]
  have same: "\<exists>c0. chan s q = Some c0 \<and> ch_index c' = ch_index c0 \<and> ch_fd c' = ch_fd c0"
    if "chan (stored p c1 s) q = Some c'" for q c'
    using that p by (auto simp: stored_def same_watch_def split: if_splits)
  show ?thesis
  proof (rule ep_invI)
    fix q c' assume q: "chan (stored p c1 s) q = Some c'"
    show "ch_index c' = kNew \<or> ch_index c' = kAdded \<or> ch_index c' = kDeleted" using same [OF q] D(1) by fastforce
    show "channels_ep (stored p c1 s) (ch_fd c') = Some q" if "ch_index c' \<noteq> kNew"
      using same [OF q] D(2) that by (fastforce simp: stored_def)
  next
    fix d q assume "channels_ep (stored p c1 s) d = Some q"
    then show "\<exists>c'. chan (stored p c1 s) q = Some c' \<and> ch_fd c' = d \<and> ch_index c' \<noteq> kNew"
      using D(3) [of d q] p by (cases "q = p") (auto simp: stored_def same_watch_def)
  next
    show "interest sys (kernel (stored p c1 s)) = interest_of (stored p c1 s)"
      using D(4) p by (auto simp: stored_def same_watch_def interest_of_def fun_eq_iff split: option.splits)
  qed
qed

lemma stored_fields [simp]:
  "conn_channel (stored p c s) = conn_channel s" "calls (stored p c s) = calls s" "wire (stored p c s) = wire s"
  "conn_state (stored p c s) = conn_state s" "hasCloseCallback (stored p c s) = hasCloseCallback s"
  "closes (stored p c s) = closes s" "kernel (stored p c s) = kernel s" "received (stored p c s) = received s"
  "chan (stored p c s) p = Some c"
  by (simp_all add: stored_def closes_def)

lemma stored_mid_event:
  assumes mid: "mid_event sys s" and c: "chan s (conn_channel s) = Some c" "same_watch c c1"
  shows "mid_event sys (stored (conn_channel s) c1 s)"
    and "writing (stored (conn_channel s) c1 s) = writing s"
proof -
  let ?s = "stored (conn_channel s) c1 s"
  have "ep_inv sys ?s" using mid by (intro stored_ep_inv [OF _ c]) (simp add: mid_event_def conn_inv_def chan_ok_def)
  then have "chan_ok sys ?s"
    using mid c by (simp add: mid_event_def conn_inv_def chan_ok_def registrable_def stored_def same_watch_def)
  moreover show w: "writing ?s = writing s" using c by (simp add: writing_def isWriting_def same_watch_def)
  moreover have "registered ?s = registered s" using c by (simp add: registered_def same_watch_def)
  moreover have "streams_ok ?s = streams_ok s" by (simp add: streams_ok_def stored_def)
  moreover have "closed ?s = closed s" "outputBuffer ?s = outputBuffer s" "fins ?s = fins s" by (simp_all add: stored_def)
  ultimately show "mid_event sys ?s" using mid by (auto simp: mid_event_def conn_inv_def up_def open_ok_def)
qed

text \<open>An event is the calls of its callbacks, between setting and clearing the flag.\<close>

lemma event_run:
  assumes ok: "\<forall>op\<in>set reply. reply_ok op" and c: "chan s (conn_channel s) = Some c"
  shows "connection_event sys r w reply t s =
    rbind (rfold (\<lambda>(t, h). conn_callback sys r w reply t h) (calls_of t c) (stored (conn_channel s) (c\<lparr>eventHandling := True\<rparr>) s))
      (change (conn_channel s) (\<lambda>c. c\<lparr>eventHandling := False\<rparr>))"
  unfolding connection_event_def stored_def by (rule handleEvent_calls [OF callbacks_keep [OF ok] c])

lemma flag_cleared:
  assumes mid: "mid_event sys s1" and p: "p = conn_channel s1"
  obtains c1 s2 where "chan s1 p = Some c1" "s2 = stored p (c1\<lparr>eventHandling := False\<rparr>) s1"
    "change p (\<lambda>c. c\<lparr>eventHandling := False\<rparr>) s1 = Inr s2" "mid_event sys s2" "writing s2 = writing s1"
proof -
  obtain c1 where c1: "chan s1 (conn_channel s1) = Some c1"
    using mid chan_ok_channel [of sys s1] by (auto simp: mid_event_def conn_inv_def)
  have "change p (\<lambda>c. c\<lparr>eventHandling := False\<rparr>) s1 = Inr (stored p (c1\<lparr>eventHandling := False\<rparr>) s1)"
    using c1 p by (simp add: change_def load_def stored_def)
  from _ refl this show ?thesis
    by (rule that) (simp_all add: c1 p stored_mid_event [OF mid c1])
qed

section \<open>What an event calls\<close>

abbreviation ends_stream :: "handler \<Rightarrow> sysread \<Rightarrow> bool" where
  "ends_stream h r \<equiv> h = OnClose \<or> h = OnRead \<and> r = ReadData []"

lemma handleRead_closes:
  assumes inv: "conn_inv sys s" and small: "length (received_bytes r) \<le> max_size" and run: "conn_handleRead sys True t r s = Inr s'"
  shows "closes s' = closes s + (if r = ReadData [] then 1 else 0)"
proof (cases r)
  case (ReadErr e)
  then show ?thesis using run by (auto simp: conn_handleRead_def readFd_error conn_handleError_def)
next
  case (ReadData data)
  show ?thesis
  proof (cases "data = []")
    case True
    then show ?thesis using run ReadData eof_closes [OF inv] handleClose_same [of sys True s s'] by simp
  next
    case False
    obtain n e b where b: "readFd r (inputBuffer s) = Inr (n, e, b)" using run by (auto simp: conn_handleRead_def)
    then have "n = int (length data)"
      using readFd_contents [of "inputBuffer s" data n e b] inv small ReadData
      by (simp add: conn_inv_def streams_ok_def received_bytes_def)
    then show ?thesis using run b False ReadData by (auto simp: conn_handleRead_def closes_def Let_def)
  qed
qed

lemma callback_mid:
  assumes sys: "epoll_ctl_ok sys" and ok: "\<forall>op\<in>set reply. reply_ok op" and w: "\<forall>n. write_ok n (w n)"
    and small: "length (received_bytes r) \<le> max_size" and mid: "mid_event sys s"
    and run: "conn_callback sys r w reply t h s = Inr s'"
  shows "mid_event sys s' \<and> closes s' = closes s + (if ends_stream h r then 1 else 0)"
proof -
  have inv: "conn_inv sys s" using mid by (simp add: mid_event_def)
  have "conn_inv sys s' \<and> closes s' = closes s + (if ends_stream h r then 1 else 0)"
  proof (cases h)
    case OnRead
    then obtain receiveTime s1 where s1: "conn_handleRead sys True receiveTime r s = Inr s1"
      "s' = s1 \<or> rfold (conn_step sys) reply s1 = Inr s'"
      using run by (auto split: option.splits if_splits)
    have "conn_inv sys s1" by (rule conn_handleRead_inv [OF sys inv small s1(1)])
    then have "conn_inv sys s' \<and> closes s' = closes s1"
      using s1(2) conn_run_inv [OF sys _ replies_ok [OF ok]] replies_same [OF ok] by blast
    then show ?thesis using handleRead_closes [OF inv small s1(1)] OnRead by simp
  next
    case OnWrite
    have "buf_inv (outputBuffer s)" using inv by (simp add: conn_inv_def streams_ok_def)
    then have "write_ok (length (readable (outputBuffer s))) (w (unat (readableBytes (outputBuffer s))))"
      using w by (simp add: length_readable)
    then show ?thesis using conn_handleWrite_ok [OF sys inv] run OnWrite handleWrite_same by fastforce
  next
    case OnClose
    then show ?thesis using conn_handleClose_inv [OF sys inv] run handleClose_same by fastforce
  next
    case OnError
    then show ?thesis using inv run by (simp add: conn_handleError_def)
  qed
  then show ?thesis using mid_event_next [OF mid callback_same [OF ok run]] by blast
qed

lemma callbacks_mid:
  assumes "epoll_ctl_ok sys" "\<forall>op\<in>set reply. reply_ok op" "\<forall>n. write_ok n (w n)" "length (received_bytes r) \<le> max_size"
    and "mid_event sys s" "rfold (\<lambda>(t, h). conn_callback sys r w reply t h) hs s = Inr s'"
  shows "mid_event sys s' \<and> same_conn s s' \<and> closes s' = closes s + length (filter (\<lambda>(t, h). ends_stream h r) hs)"
  using assms(5-)
proof (induction hs arbitrary: s)
  case (Cons th hs)
  obtain t h where th: "th = (t, h)" by (cases th)
  with Cons.prems(2) obtain s1 where s1: "conn_callback sys r w reply t h s = Inr s1"
    "rfold (\<lambda>(t, h). conn_callback sys r w reply t h) hs s1 = Inr s'" by auto
  note one = callback_mid [OF assms(1-4) Cons.prems(1) s1(1)]
  then show ?case
    using Cons.IH [OF _ s1(2)] callback_same [OF assms(2) s1(1)] same_conn_trans [of s s1 s'] th by auto
qed simp

text \<open>After the end of the stream the rest of the event does nothing.\<close>

lemma rest_quiet:
  assumes "conn_inv sys s" "\<not> writing s" "\<forall>(t, h) \<in> set hs. h = OnError \<or> h = OnWrite"
  shows "rfold (\<lambda>(t, h). conn_callback sys r w reply t h) hs s = Inr s"
  using assms(3)
proof (induction hs)
  case (Cons th hs)
  then show ?case using handleWrite_quiet [OF assms(1,2)] by (cases th) (auto simp: conn_handleError_def)
qed simp

lemma close_callback:
  assumes "mid_event sys s" "ends_stream h r" "h = OnRead \<longrightarrow> t \<noteq> None" "conn_handleClose sys True s = Inr s'"
    "calls s' = calls s @ [CloseCallback]"
  shows "conn_callback sys r w reply t h s = Inr s'"
  using assms eof_closes [of sys s] by (cases h) (auto simp: mid_event_def)

text \<open>The event, once its calls have run.\<close>

lemma event_returns:
  assumes ok: "\<forall>op\<in>set reply. reply_ok op" and c: "chan s (conn_channel s) = Some c" "bound c"
    and calls: "rfold (\<lambda>(t, h). conn_callback sys r w reply t h) (calls_of t c)
      (stored (conn_channel s) (c\<lparr>eventHandling := True\<rparr>) s) = Inr s1"
    and s1: "mid_event sys s1" "same_conn (stored (conn_channel s) (c\<lparr>eventHandling := True\<rparr>) s) s1"
  obtains c2 s2 where "connection_event sys r w reply t s = Inr s2" "mid_event sys s2" "writing s2 = writing s1"
    "s2 = stored (conn_channel s) c2 s1" "conn_channel s1 = conn_channel s" "bound c2" "\<not> eventHandling c2"
proof -
  let ?p = "conn_channel s"
  have p: "?p = conn_channel s1" using s1(2) by (simp add: same_conn_def)
  obtain c1 s2 where s2: "chan s1 ?p = Some c1" "s2 = stored ?p (c1\<lparr>eventHandling := False\<rparr>) s1"
    "change ?p (\<lambda>c. c\<lparr>eventHandling := False\<rparr>) s1 = Inr s2" "mid_event sys s2" "writing s2 = writing s1"
    by (rule flag_cleared [OF s1(1) p])
  have "rel_option same_dispatch (chan (stored ?p (c\<lparr>eventHandling := True\<rparr>) s) ?p) (chan s1 ?p)"
    using s1(2) unfolding same_conn_def by blast
  then have "bound (c1\<lparr>eventHandling := False\<rparr>)" using s2(1) c(2) by (simp add: same_dispatch_def bound_def)
  moreover have "connection_event sys r w reply t s = Inr s2" using event_run [OF ok c(1)] calls s2(3) by simp
  ultimately show ?thesis using s2(2,4,5) p by (intro that [of s2 "c1\<lparr>eventHandling := False\<rparr>"]) simp_all
qed

lemma end_of_stream:
  assumes "epoll_ctl_ok sys" "conn_inv sys s" "up s" "hasCloseCallback s"
    and "chan s (conn_channel s) = Some c" "bound c" "ch_index c = kAdded" "\<forall>op\<in>set reply. reply_ok op"
    and "hung_up (ch_revents c) \<and> \<not> can_read (ch_revents c) \<or>
      \<not> hung_up (ch_revents c) \<and> can_read (ch_revents c) \<and> r = ReadData []"
  shows "\<exists>s'. connection_event sys r w reply t s = Inr s' \<and> conn_inv sys s' \<and> calls s' = calls s @ [CloseCallback] \<and>
    wire s' = wire s \<and> conn_state s' = conn_state s \<and> quiet sys s'"
proof -
  let ?c = "c\<lparr>eventHandling := True\<rparr>" and ?m = "ch_revents c" and ?call = "\<lambda>(t, h). conn_callback sys r w reply t h"
  let ?s = "stored (conn_channel s) ?c s"
  have "mid_event sys s" using assms(2-4) by (simp add: mid_event_def)
  then have mid: "mid_event sys ?s" by (rule stored_mid_event(1) [OF _ assms(5)]) simp
  have "chan ?s (conn_channel ?s) = Some ?c" by simp
  then obtain s1 where s1: "conn_handleClose sys True ?s = Inr s1" "mid_event sys s1" "\<not> writing s1" "ch_index ?c = kAdded \<longrightarrow> quiet sys s1"
    "calls s1 = calls ?s @ [CloseCallback]" "wire s1 = wire ?s" "conn_state s1 = conn_state ?s"
    by (rule handleClose_quiet [OF assms(1) mid])
  have q: "quiet sys s1" using s1(4) assms(7) by simp
  have rest: "rfold ?call hs s1 = Inr s1" if "\<forall>(t, h) \<in> set hs. h = OnError \<or> h = OnWrite" for hs
    by (rule rest_quiet [OF _ _ that]) (use s1(2) q in \<open>simp_all add: mid_event_def quiet_def\<close>)
  have now: "?call (t, h) ?s = Inr s1" if "ends_stream h r" "h = OnRead \<longrightarrow> t \<noteq> None" for t h
    using close_callback [OF mid that s1(1,5)] by simp
  have err: "?call (None, OnError) ?s = Inr ?s" by (simp add: conn_handleError_def)
  have "rfold ?call (calls_of t c) ?s = Inr s1"
  proof (cases "hung_up ?m")
    case True
    then have "calls_of t c = (None, OnClose) # (if failed ?m then [(None, OnError)] else []) @ (if can_write ?m then [(None, OnWrite)] else [])"
      using assms(9) by (simp add: bound_calls [OF assms(6)])
    then show ?thesis using now [of OnClose None] by (simp add: rest)
  next
    case False
    then have l: "calls_of t c = (if failed ?m then [(None, OnError)] else []) @ (Some t, OnRead) # (if can_write ?m then [(None, OnWrite)] else [])"
      using assms(9) by (simp add: bound_calls [OF assms(6)])
    have "rfold ?call ((Some t, OnRead) # (if can_write ?m then [(None, OnWrite)] else [])) ?s = Inr s1"
      using now [of OnRead "Some t"] assms(9) False rest [of "if can_write ?m then [(None, OnWrite)] else []"]
      by (simp del: conn_callback.simps)
    then show ?thesis unfolding l rfold_append using err by (simp del: conn_callback.simps)
  qed
  note s1' = this
  have "same_conn ?s s1" using handleClose_same [OF s1(1)] by simp
  then obtain c2 s2 where "connection_event sys r w reply t s = Inr s2" "mid_event sys s2" "writing s2 = writing s1"
    "s2 = stored (conn_channel s) c2 s1" "conn_channel s1 = conn_channel s"
    by (rule event_returns [OF assms(8,5,6) s1' s1(2)])
  with q s1 show ?thesis by (auto simp: mid_event_def quiet_def)
qed

section \<open>Properties\<close>


lemma event_sample:
  obtains s :: "(handler, fd \<rightharpoonup> epoll_event) tcp_connection" and c where "conn_inv sample_sys s" "up s" "hasCloseCallback s"
    "chan s (conn_channel s) = Some c" "bound c" "ch_index c = kAdded" "ch_revents c = m"
proof -
  let ?pl = "EPoller_new 0 Map.empty :: (handler, fd \<rightharpoonup> epoll_event) poller"
  let ?ch = "TcpConnection_channel (ownerLoop ?pl) 5 OnRead OnWrite OnClose OnError"
  have ep: "ep_inv sample_sys ?pl" by (rule ep_inv_new) (simp add: sample_sys_def)
  have fresh: "chan ?pl 8 = None" "channels_ep ?pl 5 = None" by (simp_all add: EPoller_new_def)
  obtain c0 s where c0: "TcpConnection_new ?pl 8 ?ch = Inr c0" "connectEstablished sample_sys True (conn_setup c0) = Inr s"
    "ready sample_sys s"
    by (rule connection_opens [OF sample_ctl_ok ep fresh])
  let ?s = "(conn_setup c0)\<lparr>conn_state := kConnected\<rparr>"
  have inv0: "conn_inv sample_sys (conn_setup c0)" by (rule conn_inv_setup [OF c0(1) ep fresh])
  then have ok: "chan_ok sample_sys ?s" by (simp add: conn_inv_def)
  have ch: "chan ?s (conn_channel ?s) = Some ?ch" "hasCloseCallback ?s"
    using c0(1) by (auto simp: TcpConnection_new_def conn_setup_def setConnectionCallback_def setMessageCallback_def
        setWriteCompleteCallback_def conn_setCloseCallback_def)
  obtain s1 where s1: "Channel_request sample_sys True EnableReading (conn_channel ?s) ?s = Inr s1"
    "chan s1 (conn_channel ?s) = Some (after_request EnableReading ?ch)"
    "\<exists>ch ce k. s1 = ?s\<lparr>chan := ch, channels_ep := ce, kernel := k\<rparr>"
    by (rule conn_request [OF sample_ctl_ok ok ch(1)])
  have "connectionCallback s1 = Inr s" using c0(2) s1(1) by (auto simp: connectEstablished_def)
  then have s: "chan s (conn_channel s) = Some (after_request EnableReading ?ch)" "hasCloseCallback s" "up s"
    using s1(2,3) ch(2) by (auto simp: connectionCallback_def up_def)
  let ?c = "set_revents m (after_request EnableReading ?ch)"
  have "bound ?ch" by (rule bound_new)
  then have c: "bound ?c" "ch_index ?c = kAdded" "ch_revents ?c = m"
    by (simp_all add: bound_def after_request_def set_index_def set_revents_def Let_def TcpConnection_channel_def setErrorCallback_def
      setCloseCallback_def setWriteCallback_def setReadCallback_def Channel_new_def kNew_def kAdded_def)
  have "mid_event sample_sys s" using c0(3) s by (simp add: mid_event_def ready_defs)
  then have "mid_event sample_sys (stored (conn_channel s) ?c s)" by (rule stored_mid_event(1) [OF _ s(1)]) simp
  then show ?thesis using c by (intro that [of "stored (conn_channel s) ?c s" ?c]) (simp_all add: mid_event_def)
qed




text \<open>
  A hang-up that can be read although \<^verbatim>\<open>POLLIN\<close> was not reported (urgent data, or \<^verbatim>\<open>POLLRDHUP\<close>)
  closes a connection at the end of its stream twice in one event: \<^verbatim>\<open>handleClose\<close> leaves the state
  as it is, so the read handler runs it again.
\<close>

theorem readable_hang_up_closes_twice:
  assumes "epoll_ctl_ok sys" "conn_inv sys s" "up s" "hasCloseCallback s"
    and "chan s (conn_channel s) = Some c" "bound c" "\<forall>op\<in>set reply. reply_ok op"
    and "hung_up (ch_revents c)" "can_read (ch_revents c)" "r = ReadData []"
  shows "\<exists>s'. connection_event sys r w reply t s = Inr s' \<and> calls s' = calls s @ [CloseCallback, CloseCallback]"
proof -
  let ?c = "c\<lparr>eventHandling := True\<rparr>" and ?m = "ch_revents c" and ?call = "\<lambda>(t, h). conn_callback sys r w reply t h"
  let ?s = "stored (conn_channel s) ?c s"
  have "mid_event sys s" using assms(2-4) by (simp add: mid_event_def)
  then have mid: "mid_event sys ?s" by (rule stored_mid_event(1) [OF _ assms(5)]) simp
  have "chan ?s (conn_channel ?s) = Some ?c" by simp
  then obtain s1 where s1: "conn_handleClose sys True ?s = Inr s1" "mid_event sys s1" "calls s1 = calls ?s @ [CloseCallback]"
    by (rule handleClose_quiet [OF assms(1) mid])
  obtain c1 where "chan s1 (conn_channel s1) = Some c1"
    using s1(2) chan_ok_channel [of sys s1] by (auto simp: mid_event_def conn_inv_def)
  then obtain s2 where s2: "conn_handleClose sys True s1 = Inr s2" "mid_event sys s2" "\<not> writing s2" "calls s2 = calls s1 @ [CloseCallback]"
    by (rule handleClose_quiet [OF assms(1) s1(2)])
  have first: "?call (None, OnClose) ?s = Inr s1" using s1(1) by simp
  have again: "?call (Some t, OnRead) s1 = Inr s2"
    using close_callback [OF s1(2) _ _ s2(1,4), of OnRead r "Some t"] assms(10) by (simp del: conn_callback.simps)
  have rest: "rfold ?call hs s2 = Inr s2" if "\<forall>(t, h) \<in> set hs. h = OnError \<or> h = OnWrite" for hs
    by (rule rest_quiet [OF _ s2(3) that]) (use s2(2) in \<open>simp add: mid_event_def\<close>)
  have "calls_of t c = (None, OnClose) # (if failed ?m then [(None, OnError)] else []) @
      (Some t, OnRead) # (if can_write ?m then [(None, OnWrite)] else [])"
    using assms(8,9) by (simp add: bound_calls [OF assms(6)])
  moreover have "?call (None, OnError) s1 = Inr s1" by (simp add: conn_handleError_def)
  ultimately have run: "rfold ?call (calls_of t c) ?s = Inr s2"
    using first again rest [of "if can_write ?m then [(None, OnWrite)] else []"] by (simp del: conn_callback.simps add: rfold_append)
  have "same_conn ?s s2" using handleClose_same [OF s1(1)] handleClose_same [OF s2(1)] same_conn_trans by blast
  then obtain c2 s3 where "connection_event sys r w reply t s = Inr s3" "s3 = stored (conn_channel s) c2 s2"
    by (rule event_returns [OF assms(7,5,6) run s2(2)])
  with s1(3) s2(4) show ?thesis by simp
qed

end
