(* ===== verification/Cross_Thread.thy ===== *)
theory Cross_Thread
  imports EventLoop Connection_End
begin

text \<open>
  \<^verbatim>\<open>send\<close> and \<^verbatim>\<open>shutdown\<close> called by threads other than that of the loop: the composition of the hand-over of functors in \<open>EventLoop\<close>
  with a connection of \<open>TcpConnection\<close>. Such a call tests the state of the connection, \<^verbatim>\<open>shutdown\<close> also changes it, then the call queues
  a functor and wakes the loop; each of these is a step of its own, so that calls interleave with each other and with the
  loop in every way. The composed system is followed while the connection exists.
\<close>

section \<open>State\<close>

text \<open>
  The functors of the loop: \<^verbatim>\<open>sendInLoop\<close>, with the thread that asked for it, \<^verbatim>\<open>shutdownInLoop\<close>, and those that do not concern the connection.
  A calling thread is between calls, has found the connection open, has set its state, or has yet to wake the loop.
\<close>

datatype conn_functor = SendInLoop int "byte list" | ShutdownInLoop | OtherFunctor

datatype caller_pc = Idle | SendTested "byte list" | ShutTested | ShutSet | Waking

text \<open>
  \<open>called\<close> records for every thread the messages of its calls of \<^verbatim>\<open>send\<close> that found the connection open, and \<open>sent_log\<close> the messages in the
  order in which \<^verbatim>\<open>sendInLoop\<close> took them, with the thread that sent them or \<^term>\<open>None\<close> for the thread of the loop.
\<close>

record ('cb, 'k) shared =
  sh_loop :: "conn_functor system"
  sh_conn :: "('cb, 'k) tcp_connection"
  caller :: "int \<Rightarrow> caller_pc"
  called :: "int \<Rightarrow> byte list list"
  sent_log :: "(int option \<times> byte list) list"

definition sh_start :: "'k epoll_sys \<Rightarrow> ('cb, 'k) shared \<Rightarrow> bool" where
  "sh_start sys s \<longleftrightarrow> reachable (sh_loop s) \<and> (\<forall>f \<in> set (queued (sh_loop s)). f = OtherFunctor) \<and> opened sys (sh_conn s) \<and>
     caller s = (\<lambda>t. Idle) \<and> called s = (\<lambda>t. []) \<and> sent_log s = []"

section \<open>Steps\<close>

text \<open>\<^verbatim>\<open>queueInLoop\<close> of another thread, up to the end of the part under the mutex.\<close>

definition other_pushes :: "'f \<Rightarrow> 'f system \<Rightarrow> 'f system" where
  "other_pushes f q = q\<lparr>fq := queue_push f (fq q), owing := Suc (owing q), queued := queued q @ [f]\<rparr>"

text \<open>What the thread of the loop does with the connection among handlers and functors, and what it sends itself.\<close>

fun loop_op :: "conn_op \<Rightarrow> bool" where
  "loop_op Established = False"
| "loop_op Destroyed = False"
| "loop_op (SendQueued w m) = False"
| "loop_op _ = True"

fun own_sends :: "conn_op \<Rightarrow> ('cb, 'k) tcp_connection \<Rightarrow> (int option \<times> byte list) list" where
  "own_sends (Send w m) c = (if conn_state c = kConnected then [(None, m)] else [])"
| "own_sends _ c = []"

text \<open>
  The rules named \<open>moves\<close> and \<open>run\<close> are steps of the loop and of other threads as in \<open>EventLoop\<close>; a functor is run together with
  what it does to the connection.
\<close>

inductive sh_step :: "'k epoll_sys \<Rightarrow> ('cb, 'k) shared \<Rightarrow> ('cb, 'k) shared \<Rightarrow> bool" for sys where
  send_tests: "caller s t = Idle \<Longrightarrow> conn_state (sh_conn s) = kConnected \<Longrightarrow> length m \<le> max_size \<Longrightarrow>
    sh_step sys s (s\<lparr>caller := (caller s)(t := SendTested m), called := (called s)(t := called s t @ [m])\<rparr>)"
| send_queues: "caller s t = SendTested m \<Longrightarrow>
    sh_step sys s (s\<lparr>sh_loop := other_pushes (SendInLoop t m) (sh_loop s), caller := (caller s)(t := Waking)\<rparr>)"
| shutdown_tests: "caller s t = Idle \<Longrightarrow> conn_state (sh_conn s) = kConnected \<Longrightarrow>
    sh_step sys s (s\<lparr>caller := (caller s)(t := ShutTested)\<rparr>)"
| shutdown_sets: "caller s t = ShutTested \<Longrightarrow>
    sh_step sys s (s\<lparr>sh_conn := (sh_conn s)\<lparr>conn_state := kDisconnecting\<rparr>, caller := (caller s)(t := ShutSet)\<rparr>)"
| shutdown_queues: "caller s t = ShutSet \<Longrightarrow>
    sh_step sys s (s\<lparr>sh_loop := other_pushes ShutdownInLoop (sh_loop s), caller := (caller s)(t := Waking)\<rparr>)"
| call_wakes: "caller s t = Waking \<Longrightarrow> owing (sh_loop s) = Suc n \<Longrightarrow>
    sh_step sys s (s\<lparr>sh_loop := (sh_loop s)\<lparr>fq := queue_wake False (fq (sh_loop s)), owing := n\<rparr>, caller := (caller s)(t := Idle)\<rparr>)"
| moves: "step (sh_loop s) q \<Longrightarrow> executed q = executed (sh_loop s) \<Longrightarrow>
    queued q = queued (sh_loop s) \<or> queued q = queued (sh_loop s) @ [OtherFunctor] \<Longrightarrow> sh_step sys s (s\<lparr>sh_loop := q\<rparr>)"
| run_other: "step (sh_loop s) q \<Longrightarrow> executed q = executed (sh_loop s) @ [OtherFunctor] \<Longrightarrow> sh_step sys s (s\<lparr>sh_loop := q\<rparr>)"
| run_send: "step (sh_loop s) q \<Longrightarrow> executed q = executed (sh_loop s) @ [SendInLoop t m] \<Longrightarrow> write_ok (length m) w \<Longrightarrow>
    sendInLoop sys True w m (sh_conn s) = Inr c \<Longrightarrow>
    sh_step sys s (s\<lparr>sh_loop := q, sh_conn := c, sent_log := sent_log s @ [(Some t, m)]\<rparr>)"
| run_shutdown: "step (sh_loop s) q \<Longrightarrow> executed q = executed (sh_loop s) @ [ShutdownInLoop] \<Longrightarrow>
    shutdownInLoop True (sh_conn s) = Inr c \<Longrightarrow> sh_step sys s (s\<lparr>sh_loop := q, sh_conn := c\<rparr>)"
| own: "can_call (pc (sh_loop s)) \<Longrightarrow> pc (sh_loop s) \<noteq> Outside \<Longrightarrow> loop_op op \<Longrightarrow> op_ok op (sh_conn s) \<Longrightarrow>
    conn_step sys op (sh_conn s) = Inr c \<Longrightarrow>
    sh_step sys s (s\<lparr>sh_conn := c, sent_log := sent_log s @ own_sends op (sh_conn s)\<rparr>)"

inductive sh_reach :: "'k epoll_sys \<Rightarrow> ('cb, 'k) shared \<Rightarrow> ('cb, 'k) shared \<Rightarrow> bool" for sys s0 where
  sh_init: "sh_reach sys s0 s0"
| sh_next: "sh_reach sys s0 s \<Longrightarrow> sh_step sys s s' \<Longrightarrow> sh_reach sys s0 s'"

inductive_cases sh_stepE: "sh_step sys s s'"

section \<open>The connection, whatever other threads do to its state\<close>

text \<open>The operations that the loop runs do not depend on whether a shutdown was asked for, except for the end of \<^verbatim>\<open>handleWrite\<close>.\<close>

definition with_state :: "conn_state \<Rightarrow> ('cb, 'k) tcp_connection \<Rightarrow> ('cb, 'k) tcp_connection" where
  "with_state x c = c\<lparr>conn_state := x\<rparr>"

lemma request_with_state:
  "Channel_request sys b rq p (with_state x s) = rbind (Channel_request sys b rq p s) (\<lambda>s. Inr (with_state x s))"
  by (auto simp: with_state_def Channel_request_def change_def load_def EventLoop_updateChannel_def ep_updateChannel_def ep_update_def
      check_def Let_def split: option.split)

lemma with_state_simps [simp]:
  "conn_state (with_state x c) = x" "chan (with_state x c) = chan c" "conn_channel (with_state x c) = conn_channel c"
  "inputBuffer (with_state x c) = inputBuffer c" "outputBuffer (with_state x c) = outputBuffer c" "accepted (with_state x c) = accepted c"
  "wire (with_state x c) = wire c" "fins (with_state x c) = fins c" "closed (with_state x c) = closed c" "calls (with_state x c) = calls c"
  "received (with_state x c) = received c" "hasMessageCallback (with_state x c) = hasMessageCallback c"
  "hasCloseCallback (with_state x c) = hasCloseCallback c" "hasWriteCompleteCallback (with_state x c) = hasWriteCompleteCallback c"
  "with_state y (with_state x c) = with_state y c" "with_state (conn_state c) c = c"
  by (simp_all add: with_state_def)

lemma with_state_load [simp]: "load p (with_state x c) = load p c"
  by (simp add: load_def with_state_def)

lemma with_state_updates:
  "(with_state x c)\<lparr>outputBuffer := b\<rparr> = with_state x (c\<lparr>outputBuffer := b\<rparr>)"
  "(with_state x c)\<lparr>inputBuffer := b\<rparr> = with_state x (c\<lparr>inputBuffer := b\<rparr>)"
  "(with_state x c)\<lparr>received := d\<rparr> = with_state x (c\<lparr>received := d\<rparr>)"
  "(with_state x c)\<lparr>wire := d\<rparr> = with_state x (c\<lparr>wire := d\<rparr>)"
  "(with_state x c)\<lparr>accepted := d\<rparr> = with_state x (c\<lparr>accepted := d\<rparr>)"
  "(with_state x c)\<lparr>fins := f\<rparr> = with_state x (c\<lparr>fins := f\<rparr>)"
  "(with_state x c)\<lparr>calls := cs\<rparr> = with_state x (c\<lparr>calls := cs\<rparr>)"
  "(with_state x c)\<lparr>closed := cl\<rparr> = with_state x (c\<lparr>closed := cl\<rparr>)"
  "(with_state x c)\<lparr>consumed := d\<rparr> = with_state x (c\<lparr>consumed := d\<rparr>)"
  "queue_writeComplete (with_state x c) = with_state x (queue_writeComplete c)"
  by (simp_all add: with_state_def queue_writeComplete_def)

lemma sendInLoop_with_state:
  "sendInLoop sys b w m (with_state x c) = rbind (sendInLoop sys b w m c) (\<lambda>c. Inr (with_state x c))"
proof (cases "load (conn_channel c) c")
  case (Inr ch)
  then show ?thesis
    by (cases w; cases b; cases "isWriting ch"; cases "readableBytes (outputBuffer c) = 0")
      (simp_all add: sendInLoop_def Let_def rbind_assoc with_state_updates request_with_state)
qed (simp add: sendInLoop_def Let_def rbind_assoc)

lemma shutdownInLoop_with_state:
  "shutdownInLoop b (with_state x c) = rbind (shutdownInLoop b c) (\<lambda>c. Inr (with_state x c))"
  by (simp add: shutdownInLoop_def rbind_assoc with_state_updates if_distrib [of "with_state x"] cong: if_cong)

definition alive :: "conn_state \<Rightarrow> bool" where
  "alive x \<longleftrightarrow> x = kConnected \<or> x = kDisconnecting"

lemma handleClose_with_state:
  assumes "alive x" "alive (conn_state c)"
  shows "conn_handleClose sys b (with_state x c) = rbind (conn_handleClose sys b c) (\<lambda>c. Inr (with_state x c))"
  using assms by (simp add: conn_handleClose_def rbind_assoc with_state_updates request_with_state alive_def)

lemma handleRead_with_state:
  assumes "alive x" "alive (conn_state c)"
  shows "conn_handleRead sys b t r (with_state x c) = rbind (conn_handleRead sys b t r c) (\<lambda>c. Inr (with_state x c))"
proof -
  have close: "conn_handleClose sys b (with_state x (c\<lparr>inputBuffer := bf, received := d\<rparr>)) =
      rbind (conn_handleClose sys b (c\<lparr>inputBuffer := bf, received := d\<rparr>)) (\<lambda>c. Inr (with_state x c))" for bf d
    by (rule handleClose_with_state) (use assms in simp_all)
  show ?thesis
    by (cases "readFd r (inputBuffer c)")
      (auto simp: conn_handleRead_def Let_def with_state_updates close conn_handleError_def split_beta)
qed

lemma handleWrite_with_state:
  assumes "conn_handleWrite sys b w (with_state kDisconnecting c) = Inr c'"
  shows "\<exists>c1. conn_handleWrite sys b w (with_state kConnected c) = Inr c1 \<and>
    (c' = with_state kDisconnecting c1 \<or> shutdownInLoop b (with_state kDisconnecting c1) = Inr c')"
  using assms unfolding conn_handleWrite_def Let_def
  by (cases w) (auto simp: with_state_updates request_with_state simp del: rbind_Inr_iff elim!: rbind_InrE split: if_splits)

section \<open>Invariant\<close>

text \<open>The connection is sound but for a shutdown that has been asked for and not yet been carried out.\<close>

definition conn_sound :: "'k epoll_sys \<Rightarrow> ('cb, 'k) tcp_connection \<Rightarrow> bool" where
  "conn_sound sys c \<longleftrightarrow> conn_inv sys (with_state kConnected c) \<and> alive (conn_state c)"

lemma sound_alive [simp]: "conn_sound sys c \<Longrightarrow> alive (conn_state c)"
  by (simp add: conn_sound_def)

lemma sound_streams: "conn_sound sys c \<Longrightarrow> wire c @ readable (outputBuffer c) = accepted c"
  by (simp add: conn_sound_def conn_inv_def streams_ok_def)

lemma sound_with_state: "conn_sound sys c \<Longrightarrow> alive x \<Longrightarrow> conn_sound sys (with_state x c)"
  by (simp add: conn_sound_def)

lemma sendInLoop_sound:
  assumes sys: "epoll_ctl_ok sys" and c: "conn_sound sys c" and m: "write_ok (length m) w" "length m \<le> max_size"
    and run: "sendInLoop sys True w m c = Inr c'"
  shows "conn_sound sys c' \<and> accepted c' = accepted c @ m \<and> conn_state c' = conn_state c"
proof -
  let ?c = "with_state kConnected c"
  have inv: "conn_inv sys ?c" using c by (simp add: conn_sound_def)
  have up: "sendInLoop sys True w m ?c = Inr (with_state kConnected c')" unfolding sendInLoop_with_state run by simp
  have "sendInLoop sys True w m c = Inr (with_state (conn_state c) c')"
    using sendInLoop_with_state [of sys True w m "conn_state c" c] run by simp
  then have st: "conn_state c' = conn_state c" unfolding run by (metis Inr_inject with_state_simps(1))
  show ?thesis
    using sendInLoop_inv [OF sys inv m up] sendInLoop_accepts [OF sys inv m up] c st by (simp add: conn_sound_def)
qed

lemma shutdownInLoop_sound:
  assumes c: "conn_sound sys c" and run: "shutdownInLoop True c = Inr c'"
  shows "conn_sound sys c' \<and> accepted c' = accepted c"
proof -
  obtain ch where ch: "chan c (conn_channel c) = Some ch" using run by (auto simp: shutdownInLoop_def load_def split: option.splits)
  then have c': "c' = (if isWriting ch then c else c\<lparr>fins := fins c @ [(length (wire c), length (accepted c))]\<rparr>)"
    using run by (auto simp: shutdownInLoop_def load_def)
  have inv: "conn_inv sys (with_state kConnected c)" using c by (simp add: conn_sound_def)
  have "wire c = accepted c" if "\<not> isWriting ch" "\<not> closed c"
    using inv that ch sound_streams [OF c] by (auto simp: conn_inv_def open_ok_def writing_def)
  then have "conn_inv sys ((with_state kConnected c)\<lparr>fins := fins c @ [(length (wire c), length (accepted c))]\<rparr>)" if "\<not> isWriting ch"
    using inv that by (auto simp: conn_inv_def open_ok_def streams_ok_def)
  then show ?thesis using c c' by (auto simp: conn_sound_def with_state_updates)
qed

lemma handleWrite_sound:
  assumes sys: "epoll_ctl_ok sys" and c: "conn_sound sys c" and w: "write_ok (length (readable (outputBuffer c))) w"
    and run: "conn_handleWrite sys True w c = Inr c'"
  shows "conn_sound sys c' \<and> accepted c' = accepted c"
proof -
  let ?c = "with_state kConnected c"
  have inv: "conn_inv sys ?c" using c by (simp add: conn_sound_def)
  have up: "conn_sound sys c1 \<and> accepted c1 = accepted c" if r: "conn_handleWrite sys True w ?c = Inr c1" for c1
  proof -
    have "conn_inv sys c1" using conn_handleWrite_ok [OF sys inv, of w 0] w r by auto
    moreover have "accepted c1 = accepted c" "conn_state c1 = kConnected" using conn_handleWrite_fields [OF sys inv r] by simp_all
    ultimately show ?thesis using with_state_simps(16) [of c1] by (simp add: conn_sound_def alive_def)
  qed
  show ?thesis
  proof (cases "conn_state c = kConnected")
    case True
    then have "?c = c" by (metis with_state_simps(16))
    then show ?thesis using up [of c'] run by simp
  next
    case False
    then have "conn_state c = kDisconnecting" using c by (auto simp: conn_sound_def alive_def)
    then have "with_state kDisconnecting c = c" by (metis with_state_simps(16))
    then obtain c1 where c1: "conn_handleWrite sys True w ?c = Inr c1"
      "c' = with_state kDisconnecting c1 \<or> shutdownInLoop True (with_state kDisconnecting c1) = Inr c'"
      using handleWrite_with_state [of sys True w c c'] run by auto
    have "conn_sound sys (with_state kDisconnecting c1)" "accepted (with_state kDisconnecting c1) = accepted c"
      using up [OF c1(1)] by (simp_all add: sound_with_state alive_def)
    with c1(2) shutdownInLoop_sound [of sys "with_state kDisconnecting c1" c'] show ?thesis by auto
  qed
qed

text \<open>Reading and closing, through the connection whose shutdown was not asked for.\<close>

lemma handleClose_sound:
  assumes sys: "epoll_ctl_ok sys" and c: "conn_sound sys c" and run: "conn_handleClose sys True c = Inr c'"
  shows "conn_sound sys c' \<and> accepted c' = accepted c"
proof -
  have inv: "conn_inv sys (with_state kConnected c)" and al: "alive kConnected" "alive (conn_state c)"
    using c by (simp_all add: conn_sound_def alive_def)
  have up: "conn_handleClose sys True (with_state kConnected c) = Inr (with_state kConnected c')"
    unfolding handleClose_with_state [OF al] run by simp
  have "conn_state c' = conn_state c"
    using handleClose_with_state [OF al(2) al(2), of sys True] run by (simp, metis Inr_inject with_state_simps(1))
  moreover have "accepted c' = accepted c" using run by (auto simp: conn_handleClose_def dest!: request_signals)
  ultimately show ?thesis using conn_handleClose_inv [OF sys inv up] c by (simp add: conn_sound_def)
qed

lemma handleRead_sound:
  assumes sys: "epoll_ctl_ok sys" and c: "conn_sound sys c" and small: "length (received_bytes r) \<le> max_size"
    and run: "conn_handleRead sys True t r c = Inr c'"
  shows "conn_sound sys c' \<and> accepted c' = accepted c"
proof -
  have inv: "conn_inv sys (with_state kConnected c)" and al: "alive kConnected" "alive (conn_state c)"
    using c by (simp_all add: conn_sound_def alive_def)
  have up: "conn_handleRead sys True t r (with_state kConnected c) = Inr (with_state kConnected c')"
    unfolding handleRead_with_state [OF al] run by simp
  have "conn_state c' = conn_state c"
    using handleRead_with_state [OF al(2) al(2), of sys True t r] run by (simp, metis Inr_inject with_state_simps(1))
  then show ?thesis
    using conn_handleRead_inv [OF sys inv small up] conn_handleRead_fields [OF sys inv small up] c by (simp add: conn_sound_def)
qed

lemma own_sound:
  assumes sys: "epoll_ctl_ok sys" and c: "conn_sound sys c" and op: "loop_op op" "op_ok op c" and run: "conn_step sys op c = Inr c'"
  shows "conn_sound sys c' \<and> accepted c' = accepted c @ concat (map snd (own_sends op c))"
proof (cases op)
  case (Send w m)
  then show ?thesis using run c op sendInLoop_sound [OF sys c, of m w c'] by (auto simp: conn_send_def split: if_splits)
next
  case Shutdown
  then show ?thesis
    using run c shutdownInLoop_sound [of sys "with_state kDisconnecting c" c'] sound_with_state [OF c, of kDisconnecting]
    by (auto simp: conn_shutdown_def with_state_def alive_def split: if_splits)
next
  case (ReadEvent t r)
  then show ?thesis using run op handleRead_sound [OF sys c] by simp
next
  case (WriteEvent w)
  then show ?thesis using run op handleWrite_sound [OF sys c] by simp
next
  case CloseEvent
  then show ?thesis using run handleClose_sound [OF sys c] by simp
next
  case ErrorEvent
  then show ?thesis using run c by (simp add: conn_handleError_def)
next
  case (Consume n)
  then obtain b where b: "retrieve n (inputBuffer c) = Inr b"
    "c' = c\<lparr>inputBuffer := b, consumed := consumed c @ take (unat n) (readable (inputBuffer c))\<rparr>"
    using run by auto
  have "conn_step sys op (with_state kConnected c) = Inr (with_state kConnected c')"
    using Consume b by (simp add: with_state_def)
  from conn_step_inv [OF sys _ _ this] have "conn_inv sys (with_state kConnected c')"
    using Consume c by (simp add: conn_sound_def)
  then show ?thesis using Consume b c by (simp add: conn_sound_def)
qed (use op in auto)

section \<open>Messages of the threads\<close>

definition messages :: "int \<Rightarrow> conn_functor list \<Rightarrow> byte list list" where
  "messages t fs = concat (map (\<lambda>f. case f of SendInLoop u m \<Rightarrow> if u = t then [m] else [] | _ \<Rightarrow> []) fs)"

definition of_thread :: "int \<Rightarrow> (int option \<times> byte list) list \<Rightarrow> byte list list" where
  "of_thread t log = map snd (filter (\<lambda>(u, m). u = Some t) log)"

fun in_hand :: "caller_pc \<Rightarrow> byte list list" where
  "in_hand (SendTested m) = [m]"
| "in_hand _ = []"

text \<open>What a thread has sent and \<^verbatim>\<open>sendInLoop\<close> has not taken yet.\<close>

definition waiting :: "int \<Rightarrow> ('cb, 'k) shared \<Rightarrow> byte list list" where
  "waiting t s = messages t (running (pc (sh_loop s)) @ pendingFunctors (fq (sh_loop s))) @ in_hand (caller s t)"

fun functor_small :: "conn_functor \<Rightarrow> bool" where
  "functor_small (SendInLoop t m) = (length m \<le> max_size)"
| "functor_small _ = True"

definition sh_inv :: "'k epoll_sys \<Rightarrow> ('cb, 'k) shared \<Rightarrow> bool" where
  "sh_inv sys s \<longleftrightarrow> reachable (sh_loop s) \<and> conn_sound sys (sh_conn s) \<and>
     accepted (sh_conn s) = concat (map snd (sent_log s)) \<and>
     (\<forall>t. messages t (executed (sh_loop s)) = of_thread t (sent_log s)) \<and>
     (\<forall>t. called s t = messages t (queued (sh_loop s)) @ in_hand (caller s t)) \<and>
     (\<forall>f \<in> set (queued (sh_loop s)). functor_small f) \<and> (\<forall>t. \<forall>m \<in> set (in_hand (caller s t)). length m \<le> max_size)"

lemma messages_simps [simp]:
  "messages t [] = []" "messages t (fs @ gs) = messages t fs @ messages t gs" "messages t [OtherFunctor] = []"
  "messages t [ShutdownInLoop] = []" "messages t [SendInLoop u m] = (if u = t then [m] else [])"
  by (simp_all add: messages_def)

lemma of_thread_simps [simp]:
  "of_thread t [] = []" "of_thread t (l @ l') = of_thread t l @ of_thread t l'"
  "of_thread t [(u, m)] = (if u = Some t then [m] else [])" "of_thread t (own_sends op c) = []"
  by (simp_all add: of_thread_def) (cases op; simp)

lemma messages_none: "\<forall>f \<in> set fs. f = OtherFunctor \<Longrightarrow> messages t fs = []"
  by (auto simp: messages_def)

lemma functor_run:
  assumes "step q q'" "executed q' = executed q @ [f]" "reachable q"
  shows "queued q' = queued q" "f \<in> set (queued q)" "reachable q'"
proof -
  show q: "queued q' = queued q" using assms(1,2) by (auto elim!: stepE)
  show r: "reachable q'" by (rule next_step [OF assms(3,1)])
  have "fifo q'" using reachable_inv [OF r] by blast
  then show "f \<in> set (queued q)" using q assms(2) by (auto simp: fifo_def)
qed

lemma other_pushes_step: "step q (other_pushes f q)"
  unfolding other_pushes_def by (rule other_push)

lemma other_pushes_simps [simp]:
  "queued (other_pushes f q) = queued q @ [f]" "executed (other_pushes f q) = executed q" "reachable q \<Longrightarrow> reachable (other_pushes f q)"
  using next_step [OF _ other_pushes_step] by (simp_all add: other_pushes_def)

lemma sh_step_inv:
  assumes sys: "epoll_ctl_ok sys" and inv: "sh_inv sys s" and step: "sh_step sys s s'"
  shows "sh_inv sys s'"
  using step
proof cases
  case (send_queues t m)
  have "length m \<le> max_size" using inv send_queues(2) by (simp add: sh_inv_def) (metis in_hand.simps(1) list.set_intros(1))
  then show ?thesis using inv send_queues by (auto simp: sh_inv_def)
next
  case (shutdown_sets t)
  then show ?thesis
    using inv sound_with_state [of sys "sh_conn s" kDisconnecting] by (auto simp: sh_inv_def with_state_def alive_def)
next
  case (call_wakes t n)
  have "step (sh_loop s) ((sh_loop s)\<lparr>fq := queue_wake False (fq (sh_loop s)), owing := n\<rparr>)"
    by (rule other_wake) (rule call_wakes(3))
  then show ?thesis using inv call_wakes next_step by (auto simp: sh_inv_def)
next
  case (moves q)
  then show ?thesis using inv next_step [of "sh_loop s" q] by (auto simp: sh_inv_def)
next
  case (run_other q)
  then show ?thesis using inv functor_run [OF run_other(2,3)] by (auto simp: sh_inv_def)
next
  case (run_send q t m w c)
  have r: "reachable (sh_loop s)" and c: "conn_sound sys (sh_conn s)" using inv by (simp_all add: sh_inv_def)
  note f = functor_run [OF run_send(2,3) r]
  have "length m \<le> max_size" using inv f(2) by (auto simp: sh_inv_def)
  from sendInLoop_sound [OF sys c run_send(4) this run_send(5)] show ?thesis
    using inv run_send f by (auto simp: sh_inv_def)
next
  case (run_shutdown q c)
  have r: "reachable (sh_loop s)" and c: "conn_sound sys (sh_conn s)" using inv by (simp_all add: sh_inv_def)
  from shutdownInLoop_sound [OF c run_shutdown(4)] functor_run [OF run_shutdown(2,3) r] show ?thesis
    using inv run_shutdown by (auto simp: sh_inv_def)
next
  case (own op c)
  have "conn_sound sys (sh_conn s)" using inv by (simp add: sh_inv_def)
  from own_sound [OF sys this own(4-6)] show ?thesis using inv own by (auto simp: sh_inv_def)
qed (use inv in \<open>auto simp: sh_inv_def\<close>)

lemma sh_reach_inv:
  assumes "epoll_ctl_ok sys" "sh_start sys s0" "sh_reach sys s0 s"
  shows "sh_inv sys s"
  using assms(3)
proof (induction rule: sh_reach.induct)
  case sh_init
  have c: "opened sys (sh_conn s0)" and others: "\<forall>f \<in> set (queued (sh_loop s0)). f = OtherFunctor" "reachable (sh_loop s0)"
    using assms(2) by (simp_all add: sh_start_def)
  have "with_state kConnected (sh_conn s0) = sh_conn s0" using c by (metis opened_def with_state_simps(16))
  then have "conn_sound sys (sh_conn s0)" using c by (simp add: conn_sound_def opened_def alive_def)
  moreover have "\<forall>f \<in> set (executed (sh_loop s0)). f = OtherFunctor" using others reachable_inv by (fastforce simp: fifo_def)
  moreover have "\<forall>f \<in> set (queued (sh_loop s0)). functor_small f" using others(1) by auto
  ultimately show ?case using assms(2) others messages_none by (simp add: sh_inv_def sh_start_def opened_def)
next
  case (sh_next s s')
  then show ?case using sh_step_inv [OF assms(1)] by blast
qed

section \<open>Properties\<close>

text \<open>
  C7. Messages of other threads arrive whole, once and in order: however the calls of \<^verbatim>\<open>send\<close> and \<^verbatim>\<open>shutdown\<close> of any number of threads
  interleave with each other, with the loop and with what the loop itself does on the connection, the bytes on the wire and in
  the output buffer are the messages that \<^verbatim>\<open>sendInLoop\<close> took, one after the other; those of each thread are exactly the messages of
  its calls that found the connection open, in the order of these calls, but for the last of them that are still waiting. When the loop
  waits in the poll, no thread is inside a call and none owes it a wake-up that it has not seen, none is waiting.
\<close>

theorem cross_thread_sends:
  assumes "epoll_ctl_ok sys" "sh_start sys s0" "sh_reach sys s0 s"
  shows "wire (sh_conn s) @ readable (outputBuffer (sh_conn s)) = concat (map snd (sent_log s)) \<and>
    called s t = of_thread t (sent_log s) @ waiting t s \<and>
    (pc (sh_loop s) = Poll \<and> \<not> early (sh_loop s) \<and> wakeupCount (fq (sh_loop s)) = 0 \<and> owing (sh_loop s) = 0 \<and> caller s t = Idle \<longrightarrow>
      waiting t s = [])"
proof -
  have inv: "sh_inv sys s" by (rule sh_reach_inv [OF assms])
  then have q: "fifo (sh_loop s)" "awake (pc (sh_loop s)) (sh_loop s)" using reachable_inv by (auto simp: sh_inv_def)
  have "wire (sh_conn s) @ readable (outputBuffer (sh_conn s)) = concat (map snd (sent_log s))"
    using inv sound_streams [of sys "sh_conn s"] by (simp add: sh_inv_def)
  moreover have "called s t = of_thread t (sent_log s) @ waiting t s"
    using inv q(1) by (simp add: sh_inv_def waiting_def fifo_def)
  ultimately show ?thesis using q(2) by (auto simp: waiting_def signalled_def)
qed

text \<open>A loop among its handlers, with nothing queued.\<close>

definition handling_loop :: "conn_functor system" where
  "handling_loop = system_new\<lparr>fq := functor_queue_new\<lparr>looping := True\<rparr>, pc := Handle\<rparr>"

definition sh_new :: "('cb, 'k) tcp_connection \<Rightarrow> ('cb, 'k) shared" where
  "sh_new c = \<lparr>sh_loop = handling_loop, sh_conn = c, caller = (\<lambda>t. Idle), called = (\<lambda>t. []), sent_log = []\<rparr>"

lemma handling_loop_reachable: "reachable handling_loop"
proof -
  let ?q = "system_new\<lparr>fq := functor_queue_new\<lparr>looping := True, quit_flag := False\<rparr>, pc := Test\<rparr> :: conn_functor system"
  have "step system_new ?q" using enter [of system_new] by (simp add: system_new_def functor_queue_new_def)
  then have "reachable ?q" by (rule next_step [OF reachable.start])
  moreover have "step ?q (?q\<lparr>pc := Poll\<rparr>)" by (rule again) simp_all
  ultimately have "reachable (?q\<lparr>pc := Poll\<rparr>)" by (rule next_step)
  moreover have "step (?q\<lparr>pc := Poll\<rparr>) (?q\<lparr>pc := Poll\<rparr>\<lparr>pc := Handle\<rparr>)" by (rule poll_returns) simp
  ultimately have "reachable (?q\<lparr>pc := Poll\<rparr>\<lparr>pc := Handle\<rparr>)" by (rule next_step)
  then show ?thesis by (simp add: handling_loop_def functor_queue_new_def)
qed

lemma sh_new_start: "opened sys c \<Longrightarrow> sh_start sys (sh_new c)"
  using handling_loop_reachable by (simp add: sh_start_def sh_new_def) (simp add: handling_loop_def system_new_def)

theorem cross_thread_sends_witness:
  "\<exists>(c :: (nat, fd \<rightharpoonup> epoll_event) tcp_connection) s. sh_reach sample_sys (sh_new c) s \<and> called s 1 = [[65, 66]] \<and>
     called s 1 = of_thread 1 (sent_log s) @ waiting 1 s \<and> sent_log s = []"
proof -
  obtain c :: "(nat, fd \<rightharpoonup> epoll_event) tcp_connection" where c: "opened sample_sys c" using sample_ready by (auto simp: ready_def)
  let ?s = "(sh_new c)\<lparr>caller := (caller (sh_new c))(1 := SendTested [65, 66]), called := (called (sh_new c))(1 := called (sh_new c) 1 @ [[65, 66]])\<rparr>"
  have "sh_step sample_sys (sh_new c) ?s"
    by (rule send_tests) (use c in \<open>simp_all add: sh_new_def opened_def max_size_def\<close>)
  then have reach: "sh_reach sample_sys (sh_new c) ?s" by (rule sh_next [OF sh_init])
  have "called ?s 1 = [[65, 66]]" "sent_log ?s = []" by (simp_all add: sh_new_def)
  with cross_thread_sends [OF sample_ctl_ok sh_new_start [OF c] reach, of 1] reach show ?thesis by blast
qed

text \<open>A call that is not interrupted is \<^verbatim>\<open>queueInLoop\<close>.\<close>

definition queues :: "conn_functor \<Rightarrow> conn_functor system \<Rightarrow> conn_functor system" where
  "queues f q = q\<lparr>fq := queueInLoop False f (fq q), queued := queued q @ [f]\<rparr>"

lemma queues_eq: "(other_pushes f q)\<lparr>fq := queue_wake False (fq (other_pushes f q)), owing := owing q\<rparr> = queues f q"
  by (simp add: queues_def other_pushes_def queueInLoop_def)

lemma send_called:
  assumes "caller s t = Idle" "conn_state (sh_conn s) = kConnected" "length m \<le> max_size" "sh_reach sys s0 s"
  shows "sh_reach sys s0 (s\<lparr>sh_loop := queues (SendInLoop t m) (sh_loop s), called := (called s)(t := called s t @ [m])\<rparr>)"
proof -
  let ?q = "other_pushes (SendInLoop t m) (sh_loop s)"
  let ?s1 = "s\<lparr>caller := (caller s)(t := SendTested m), called := (called s)(t := called s t @ [m])\<rparr>"
  let ?s2 = "?s1\<lparr>sh_loop := other_pushes (SendInLoop t m) (sh_loop ?s1), caller := (caller ?s1)(t := Waking)\<rparr>"
  let ?s3 = "?s2\<lparr>sh_loop := (sh_loop ?s2)\<lparr>fq := queue_wake False (fq (sh_loop ?s2)), owing := owing (sh_loop s)\<rparr>, caller := (caller ?s2)(t := Idle)\<rparr>"
  have "sh_reach sys s0 ?s1" by (rule sh_next [OF assms(4) send_tests [OF assms(1-3)]])
  then have "sh_reach sys s0 ?s2" by (rule sh_next [OF _ send_queues]) simp
  then have "sh_reach sys s0 ?s3" by (rule sh_next [OF _ call_wakes]) (simp_all add: other_pushes_def)
  moreover have "?s3 = s\<lparr>sh_loop := queues (SendInLoop t m) (sh_loop s), called := (called s)(t := called s t @ [m])\<rparr>"
    using queues_eq [where f = "SendInLoop t m" and q = "sh_loop s"] assms(1) by (simp add: fun_upd_idem)
  ultimately show ?thesis by (simp only:)
qed

lemma shutdown_called:
  assumes "caller s t = Idle" "conn_state (sh_conn s) = kConnected" "sh_reach sys s0 s"
  shows "sh_reach sys s0 (s\<lparr>sh_loop := queues ShutdownInLoop (sh_loop s), sh_conn := with_state kDisconnecting (sh_conn s)\<rparr>)"
proof -
  let ?s1 = "s\<lparr>caller := (caller s)(t := ShutTested)\<rparr>"
  let ?s2 = "?s1\<lparr>sh_conn := (sh_conn ?s1)\<lparr>conn_state := kDisconnecting\<rparr>, caller := (caller ?s1)(t := ShutSet)\<rparr>"
  let ?s3 = "?s2\<lparr>sh_loop := other_pushes ShutdownInLoop (sh_loop ?s2), caller := (caller ?s2)(t := Waking)\<rparr>"
  let ?s4 = "?s3\<lparr>sh_loop := (sh_loop ?s3)\<lparr>fq := queue_wake False (fq (sh_loop ?s3)), owing := owing (sh_loop s)\<rparr>, caller := (caller ?s3)(t := Idle)\<rparr>"
  have "sh_reach sys s0 ?s1" by (rule sh_next [OF assms(3) shutdown_tests [OF assms(1,2)]])
  then have "sh_reach sys s0 ?s2" by (rule sh_next [OF _ shutdown_sets]) simp
  then have "sh_reach sys s0 ?s3" by (rule sh_next [OF _ shutdown_queues]) simp
  then have "sh_reach sys s0 ?s4" by (rule sh_next [OF _ call_wakes]) (simp_all add: other_pushes_def)
  moreover have "?s4 = s\<lparr>sh_loop := queues ShutdownInLoop (sh_loop s), sh_conn := with_state kDisconnecting (sh_conn s)\<rparr>"
    using queues_eq [where f = ShutdownInLoop and q = "sh_loop s"] assms(1) by (simp add: fun_upd_idem with_state_def)
  ultimately show ?thesis by (simp only:)
qed

text \<open>A loop that has handled all events runs the functors that are queued.\<close>

lemma loop_swaps:
  assumes "pc (sh_loop s) = Handle" "\<not> loopOwes (sh_loop s)" "sh_reach sys s0 s"
  shows "sh_reach sys s0 (s\<lparr>sh_loop := (sh_loop s)\<lparr>fq := (set_calling (fq (sh_loop s)))\<lparr>pendingFunctors := []\<rparr>,
    pc := Run (pendingFunctors (fq (sh_loop s))), early := False\<rparr>\<rparr>)"
proof -
  let ?q1 = "(sh_loop s)\<lparr>fq := set_calling (fq (sh_loop s)), pc := Swap\<rparr>"
  let ?q2 = "?q1\<lparr>fq := (set_calling (fq (sh_loop s)))\<lparr>pendingFunctors := []\<rparr>, pc := Run (pendingFunctors (fq (sh_loop s))), early := False\<rparr>"
  have "step (sh_loop s) ?q1" by (rule handled_all [OF assms(1,2)])
  then have r: "sh_reach sys s0 (s\<lparr>sh_loop := ?q1\<rparr>)" by (intro sh_next [OF assms(3) moves]) simp_all
  have st: "step ?q1 ?q2" by (rule swap) (simp_all add: pending_swap_def set_calling_def)
  have "sh_reach sys s0 (s\<lparr>sh_loop := ?q1\<rparr>\<lparr>sh_loop := ?q2\<rparr>)" by (intro sh_next [OF r moves]) (use st in simp_all)
  then show ?thesis by simp
qed

text \<open>The connection during such a run: a block is waiting, the shutdown is asked for, and the kernel takes the block.\<close>

lemma overtaken_connection:
  assumes sys: "epoll_ctl_ok sys" and c: "opened sys c" and m: "m0 \<noteq> []" "length m0 + length m \<le> 1024"
  obtains c1 c2 c3 where "sendInLoop sys True (WriteErr 11) m0 c = Inr c1" "conn_state c1 = kConnected"
    "length m0 \<le> length (readable (outputBuffer c1))"
    "conn_handleWrite sys True (Wrote (length m0)) (with_state kDisconnecting c1) = Inr c2"
    "conn_state c2 = kDisconnecting" "fins c2 = [(length m0, length m0)]"
    "sendInLoop sys True (WriteErr 32) m c2 = Inr c3" "fins c3 = [(length m0, length m0)]" "accepted c3 = m0 @ m"
proof -
  have R: "conn_inv sys c" "conn_state c = kConnected" "\<not> closed c" "accepted c = []" "fins c = []" "readable (outputBuffer c) = []"
    "room_for 1024 (outputBuffer c)" "wire c = []" "\<not> writing c" using c by (simp_all add: opened_def)
  have w: "write_ok n (WriteErr e)" for n e by (simp add: write_ok_def)
  have small: "length m0 \<le> max_size" "length m \<le> max_size" using m(2) by (simp_all add: max_size_def)
  have fit: "length (readable (outputBuffer c)) + length m0 \<le> 1024" using R(6) m(2) by auto
  obtain c1 where c1: "sendInLoop sys True (WriteErr 11) m0 c = Inr c1" "room_for 1024 (outputBuffer c1)"
    by (rule sendInLoop_room [OF sys R(1,7) w fit])
  have I1: "conn_inv sys c1" "accepted c1 = m0" "conn_state c1 = kConnected" "fins c1 = []" "\<not> closed c1"
    using sendInLoop_inv [OF sys R(1) w small(1) c1(1)] sendInLoop_accepts [OF sys R(1) w small(1) c1(1)] sendInLoop_signals [OF c1(1) R(1)]
      sendInLoop_wire [OF c1(1)] R by auto
  have wire1: "wire c1 = []"
    using c1(1) R(8) unfolding sendInLoop_def Let_def
    by (auto simp del: rbind_Inr_iff elim!: rbind_InrE split: if_splits dest!: request_signals)
  have out1: "readable (outputBuffer c1) = m0" using I1(1,2) wire1 by (simp add: conn_inv_def streams_ok_def)
  let ?c1 = "with_state kDisconnecting c1"
  have J: "conn_inv sys ?c1" using I1 out1 m(1) by (auto simp: conn_inv_def open_ok_def with_state_def chan_ok_def registrable_def
        streams_ok_def writing_def registered_def ep_inv_def interest_of_def fun_eq_iff cong: option.case_cong)
  have wr: "writing ?c1" using conn_inv_output [OF J] I1(5) out1 m(1) by simp
  obtain c2 where c2: "conn_handleWrite sys True (Wrote (length m0)) ?c1 = Inr c2" "conn_inv sys c2" "wire c2 = m0"
    using conn_handleWrite_ok [OF sys J, of "Wrote (length m0)" "length m0"] wr out1 wire1 by (auto simp: write_ok_def)
  have I2: "accepted c2 = m0" "conn_state c2 = kDisconnecting" "\<not> closed c2" "room_for 1024 (outputBuffer c2)"
    using conn_handleWrite_fields [OF sys J c2(1)] handleWrite_wire [OF c2(1)] handleWrite_keeps_room [OF c2(1)] I1 c1(2) by auto
  have out2: "readable (outputBuffer c2) = []" using c2(2,3) I2(1) by (simp add: conn_inv_def streams_ok_def)
  then have "fins c2 \<noteq> []" using c2(2) I2(2,3) by (simp add: conn_inv_def open_ok_def)
  then have f2: "fins c2 = [(length m0, length m0)]"
    using handleWrite_signals [OF c2(1)] I1(4) I2(1) c2(3) by (auto split: if_splits)
  obtain c3 where c3: "sendInLoop sys True (WriteErr 32) m c2 = Inr c3"
    by (rule sendInLoop_room [OF sys c2(2) I2(4) w, of m]) (use out2 m(2) in auto)
  show ?thesis
    by (rule that [OF c1(1) I1(3) _ c2(1) I2(2) f2 c3])
      (use out1 sendInLoop_accepts [OF sys c2(2) w small(2) c3] sendInLoop_signals [OF c3 c2(2)] f2 I2(1) in simp_all)
qed



text \<open>
  A functor can outlive its connection: a thread has found the connection open, then the loop destroys the connection, and the thread queues
  \<^verbatim>\<open>sendInLoop\<close> all the same. When the loop runs it the object is gone.
\<close>

theorem functor_outlives_connection:
  assumes "opened sys c" "length m \<le> max_size" "connectDestroyed sys True c = Inr c'" "TcpConnection_delete k c' = Inr pl"
  shows "\<exists>s s'. sh_reach sys (sh_new c) s \<and> sh_conn s = c \<and> caller s t = SendTested m \<and> sh_step sys s s' \<and>
    SendInLoop t m \<in> set (pendingFunctors (fq (sh_loop s'))) \<and> sendInLoop sys True w m (c'\<lparr>chan := chan pl\<rparr>) = Inl DanglingPointer"
proof -
  let ?s = "(sh_new c)\<lparr>caller := (caller (sh_new c))(t := SendTested m), called := (called (sh_new c))(t := called (sh_new c) t @ [m])\<rparr>"
  have "sh_step sys (sh_new c) ?s" by (rule send_tests) (use assms(1,2) in \<open>simp_all add: sh_new_def opened_def\<close>)
  then have reach: "sh_reach sys (sh_new c) ?s" by (rule sh_next [OF sh_init])
  have step: "sh_step sys ?s (?s\<lparr>sh_loop := other_pushes (SendInLoop t m) (sh_loop ?s), caller := (caller ?s)(t := Waking)\<rparr>)"
    by (rule send_queues) simp
  have "chan pl (conn_channel c') = None" using delete_poller(1) [OF assms(4)] by simp
  then have "sendInLoop sys True w m (c'\<lparr>chan := chan pl\<rparr>) = Inl DanglingPointer" by (simp add: sendInLoop_def load_def)
  moreover have "sh_conn ?s = c" "caller ?s t = SendTested m" by (simp_all add: sh_new_def)
  moreover have "SendInLoop t m \<in> set (pendingFunctors (fq (other_pushes (SendInLoop t m) (sh_loop ?s))))"
    by (simp add: other_pushes_def queue_push_def)
  ultimately show ?thesis using reach step by fastforce
qed

section \<open>Timers of other threads\<close>

text \<open>
  \<^verbatim>\<open>addTimer\<close> called by another thread: the timer is made, the loop adds it, and the call ends by reading the sequence number of the
  timer from the object, whatever has become of it.
\<close>

definition addTimer_returns :: "addr \<Rightarrow> 'cb timer_queue \<Rightarrow> timer_id result" where
  "addTimer_returns p q = rbind (deref p q) (\<lambda>t. Inr \<lparr>id_timer = p, id_sequence = sequence t\<rparr>)"

lemma addTimer_parts:
  "addTimer env cb when ivl q =
     rbind (create_timer env cb when ivl q) (\<lambda>(p, q1).
     rbind (addTimerInLoop env p q1) (\<lambda>q2. rbind (addTimer_returns p q2) (\<lambda>i. Inr (i, q2))))"
  by (simp add: addTimer_def addTimer_returns_def rbind_assoc split_beta)

text \<open>
  If the loop runs a timer that does not repeat before the call returns, the call reads a freed object; before that it
  returns the id of the timer.
\<close>

theorem late_addTimer_dangles:
  assumes "tq_inv {} q" "alloc_ok env" "inLoopThread env" "create_timer env cb when (double_of_int 0) q = Inr (p, q1)"
    and "addTimerInLoop env p q1 = Inr q2" "when \<le> clock env (clockReads q2)" "handleRead env q2 = Inr q3"
  shows "(\<exists>i. addTimer_returns p q2 = Inr i \<and> id_timer i = p) \<and> addTimer_returns p q3 = Inl DanglingPointer"
proof -
  obtain t where t: "heap q1 p = Some t" "expiration t = when" "\<not> repeats t" and inv1: "tq_inv {p} q1"
    using yieldsD [OF create_timer_ok [OF assms(1,2)] assms(4)] by (auto simp: double_pos_def double_of_int_def)
  have q2: "q2 = after_add env p t q1" using addTimerInLoop_ok [OF inv1 _ t(1) assms(3)] assms(5) by simp
  have inv2: "tq_inv {} q2" using tq_inv_after_add [OF inv1 _ t(1)] q2 by simp
  have h: "handled (clock env (clockReads q2)) q2 q3" using yieldsD [OF handleRead_ok [OF inv2 assms(2,3)] assms(7)] by simp
  have "(when, p) \<in> set (timers q2)" using t(2) by (simp add: q2 set_insort_key)
  then have "p \<in> snd ` set (due (clock env (clockReads q2)) q2)" using assms(6) by (force simp: due_def)
  then have "heap q3 p = Option.bind (heap q2 p) (reset_result (clock env (clockReads q2)) (cancelingTimers q3) p)"
    using h by (auto simp: handled_def)
  then have "heap q3 p = None" using t by (simp add: q2 reset_result_def)
  then show ?thesis using t(1) by (simp add: addTimer_returns_def deref_def q2)
qed

end
