(* ===== verification/Logging.thy ===== *)
theory Logging
  imports Timestamp Threads
begin

text \<open>
  \<^verbatim>\<open>Logging.h\<close> and \<^verbatim>\<open>Logging.cc\<close>: the level that is read from the environment when the program starts, and
  the macros. What is printed is a list of lines; the message, the function, file and line number
  are arguments, as are the time, already formatted, and the id of the thread.
\<close>

section \<open>The level\<close>

text \<open>\<open>env\<close> is what \<^verbatim>\<open>getenv\<close> answers for \<^verbatim>\<open>NETFISH_LOG_LEVEL\<close>.\<close>

definition initLogLevel :: "string option \<Rightarrow> int" where
  "initLogLevel env =
     (let level = 2 in case env of None \<Rightarrow> level | Some levelStr \<Rightarrow> (let newLevel = atoi levelStr; level = newLevel in level))"

section \<open>The macros\<close>

datatype severity = TRACE | DEBUG | INFO | WARN | ERROR | FATAL

fun enabled :: "int \<Rightarrow> severity \<Rightarrow> bool" where
  "enabled g_logLevel TRACE = (g_logLevel < 1)"
| "enabled g_logLevel DEBUG = (g_logLevel < 2)"
| "enabled g_logLevel INFO = (g_logLevel < 3)"
| "enabled g_logLevel _ = True"

record log_call =
  lc_time :: string
  lc_tid :: int
  lc_func :: string
  lc_msg :: string
  lc_file :: string
  lc_line :: int

text \<open>The formats as they are written; that of \<^verbatim>\<open>LOG_DEBUG\<close> has no space after the name of the function.\<close>

fun log_prefix :: "severity \<Rightarrow> log_call \<Rightarrow> string" where
  "log_prefix TRACE c = '' TRACE '' @ lc_func c @ '' ''"
| "log_prefix DEBUG c = '' DEBUG '' @ lc_func c"
| "log_prefix INFO c = '' INFO ''"
| "log_prefix WARN c = '' WARN ''"
| "log_prefix ERROR c = '' ERROR ''"
| "log_prefix FATAL c = '' FATAL ''"

definition log_line :: "severity \<Rightarrow> log_call \<Rightarrow> string" where
  "log_line sev c = lc_time c @ '' '' @ show_int (lc_tid c) @ log_prefix sev c @ lc_msg c @
     '' - ['' @ lc_file c @ '':'' @ show_int (lc_line c) @ '']'' @ [CHR 0x0A]"

text \<open>\<^verbatim>\<open>LOG_FATAL\<close> aborts after it has printed.\<close>

definition log_macro :: "int \<Rightarrow> severity \<Rightarrow> log_call \<Rightarrow> string list \<Rightarrow> string list \<times> unit result" where
  "log_macro g_logLevel sev c out =
     (let out = (if enabled g_logLevel sev then out @ [log_line sev c] else out) in
      (out, if sev = FATAL then Inl FatalLog else Inr ()))"

section \<open>Properties\<close>

text \<open>
  The level is a threshold on the three lowest severities: the environment variable \<open>n\<close> shows
  exactly the messages whose number is at least \<open>n\<close>, as the comment of \<^verbatim>\<open>initLogLevel\<close> says
  (\<^verbatim>\<open>TRACE:0 DEBUG:1 INFO:2\<close>), and warnings and above always; only \<^verbatim>\<open>LOG_FATAL\<close> ends the process.
\<close>

fun severity_number :: "severity \<Rightarrow> int" where
  "severity_number TRACE = 0"
| "severity_number DEBUG = 1"
| "severity_number INFO = 2"
| "severity_number _ = 3"

theorem log_threshold:
  assumes "- (2 ^ 31) \<le> n" "n < 2 ^ 31"
  shows "enabled (initLogLevel (Some (show_int n))) sev \<longleftrightarrow> min n 3 \<le> severity_number sev"
    "(fst (log_macro (initLogLevel (Some (show_int n))) sev c out) = out @ [log_line sev c]) \<longleftrightarrow> min n 3 \<le> severity_number sev"
    "snd (log_macro g sev c out) = Inr () \<longleftrightarrow> sev \<noteq> FATAL"
proof -
  show e: "enabled (initLogLevel (Some (show_int n))) sev \<longleftrightarrow> min n 3 \<le> severity_number sev"
    using assms by (cases sev) (auto simp: initLogLevel_def atoi_show_int)
  show "(fst (log_macro (initLogLevel (Some (show_int n))) sev c out) = out @ [log_line sev c]) \<longleftrightarrow> min n 3 \<le> severity_number sev"
    by (simp add: log_macro_def e)
  show "snd (log_macro g sev c out) = Inr () \<longleftrightarrow> sev \<noteq> FATAL" by (simp add: log_macro_def Let_def)
qed

lemma log_default: "enabled (initLogLevel None) sev \<longleftrightarrow> 2 \<le> severity_number sev"
  by (cases sev) (simp_all add: initLogLevel_def)

end
