(* ===== verification/Test_Timers.thy ===== *)
theory Test_Timers
  imports TimerQueue Logging
begin

text \<open>
  Two more test programs: \<^verbatim>\<open>testTimerQueue.cc\<close>, whose repeating timer cancels itself (as does the one of
  \<^verbatim>\<open>testEventLoop.cc\<close>), and \<^verbatim>\<open>testThread.cc\<close>, whose threads count together.
\<close>

section \<open>A timer that cancels itself\<close>

text \<open>
  The callback: from its fifth call on it cancels the timer \<open>tId\<close>. The static variable \<^verbatim>\<open>cnt\<close> is the number of calls
  so far, and no other timer runs.
\<close>

definition timeout_actions :: "timer_id \<Rightarrow> 'cb \<Rightarrow> 'cb timer_queue \<Rightarrow> 'cb timer_action list" where
  "timeout_actions tId cb q = (let cnt = length (fired q) in if cnt > 3 then [CancelTimer tId] else [])"

text \<open>\<^verbatim>\<open>main\<close>: the first call is due in three seconds, the others every second.\<close>

definition timer_test_main :: "'cb env \<Rightarrow> 'cb \<Rightarrow> 'cb timer_queue \<Rightarrow> (timer_id \<times> 'cb timer_queue) result" where
  "timer_test_main env timeout q =
     (let (now, q) = read_clock env q; when = addTime now (double_of_int 3) in
      addTimer env timeout when (double_of_int 1) q)"

text \<open>The loop calls \<^verbatim>\<open>handleRead\<close> when the kernel timer has fired: nothing in the queue is due later than now.\<close>

definition timer_due :: "'cb env \<Rightarrow> unit \<Rightarrow> 'cb timer_queue \<Rightarrow> bool" where
  "timer_due env x q \<longleftrightarrow> (\<forall>(when, p) \<in> set (timers q). when \<le> clock env (clockReads q))"

definition timer_turn :: "'cb env \<Rightarrow> unit \<Rightarrow> 'cb timer_queue \<Rightarrow> 'cb timer_queue result" where
  "timer_turn env x q = handleRead env q"

text \<open>The queue with the timer at \<open>p\<close> only, after \<open>n\<close> calls, and the empty queue.\<close>

definition only_timer :: "addr \<Rightarrow> int \<Rightarrow> nat \<Rightarrow> 'cb timer_queue \<Rightarrow> bool" where
  "only_timer p sq n q \<longleftrightarrow> (\<exists>t. heap q = [p \<mapsto> t] \<and> timers q = [(expiration t, p)] \<and> activeTimers q = [(p, sq)] \<and>
     sequence t = sq \<and> repeats t \<and> \<not> callingExpiredTimers q \<and> fired q = replicate n p)"

definition no_timer :: "addr \<Rightarrow> nat \<Rightarrow> 'cb timer_queue \<Rightarrow> bool" where
  "no_timer p n q \<longleftrightarrow> heap q = Map.empty \<and> timers q = [] \<and> activeTimers q = [] \<and> \<not> callingExpiredTimers q \<and> fired q = replicate n p"

lemma invalid_not_valid [simp]: "\<not> valid invalid"
  by (simp add: valid_def invalid_def)

lemma timer_turn_none:
  assumes "inLoopThread env" "no_timer p n q"
  shows "\<exists>q'. timer_turn env x q = Inr q' \<and> no_timer p n q'"
  using assms by (simp add: timer_turn_def handleRead_def no_timer_def assertInLoop_def getExpired_def assert_sizes_def
      set_lower_bound_def reset_def read_clock_def readTimerfd_def)

lemma expired_one:
  fixes p :: addr
  assumes "when \<le> now" "p \<noteq> - 1"
  shows "set_lower_bound (now, - 1) [(when, p)] = ([(when, p)], [])"
proof -
  have "p < - 1" using assms(2) word_n1_ge [of p] by (simp add: order.strict_iff_order)
  then show ?thesis using assms(1) by (auto simp: set_lower_bound_def less_prod_def)
qed

lemma timer_turn_one:
  assumes env: "inLoopThread env" "program env = timeout_actions \<lparr>id_timer = p, id_sequence = sq\<rparr>"
    and q: "only_timer p sq n q" "p \<noteq> - 1" "timer_due env x q"
  shows "\<exists>q'. timer_turn env x q = Inr q' \<and> (if n \<le> 3 then only_timer p sq (Suc n) q' else no_timer p (Suc n) q')"
proof -
  obtain t where t: "heap q = [p \<mapsto> t]" "timers q = [(expiration t, p)]" "activeTimers q = [(p, sq)]" "sequence t = sq" "repeats t"
    "\<not> callingExpiredTimers q" "fired q = replicate n p" using q(1) by (auto simp: only_timer_def)
  let ?now = "clock env (clockReads q)"
  have due: "expiration t \<le> ?now" using q(3) t(2) by (simp add: timer_due_def)
  have fire: "replicate n p @ [p] = replicate (Suc n) p" by (simp add: replicate_append_same)
  note eval = timer_turn_def handleRead_def assertInLoop_def env read_clock_def readTimerfd_def getExpired_def assert_sizes_def
    expired_one [OF due q(2)] erase_active_def deref_def set_erase_def run_timer_def timeout_actions_def reset_def reset_one_def
    Let_def t
  show ?thesis
  proof (cases "n \<le> 3")
    case True
    let ?t = "t\<lparr>expiration := addTime ?now (interval t)\<rparr>"
    from True show ?thesis
      by (simp add: eval insert_timer_def set_insert_def restart_def resetTimerfd_def only_timer_def fire del: replicate.simps)
        (intro exI [of _ ?t], simp add: t)
  next
    case False
    then show ?thesis
      by (simp add: eval cancelInLoop_def set_insert_def delete_timer_def no_timer_def fire del: replicate.simps)
  qed
qed

lemma timer_turns_none:
  assumes "inLoopThread env" "no_timer p n q"
  shows "\<exists>q'. rfold (timer_turn env) (replicate k ()) q = Inr q' \<and> no_timer p n q'"
  using assms(2)
proof (induction k arbitrary: q)
  case (Suc k)
  obtain q1 where "timer_turn env () q = Inr q1" "no_timer p n q1" using timer_turn_none [OF assms(1) Suc.prems] by blast
  with Suc.IH show ?case by simp
qed simp

lemma timer_turns_one:
  assumes env: "inLoopThread env" "program env = timeout_actions \<lparr>id_timer = p, id_sequence = sq\<rparr>" and p: "p \<noteq> - 1"
    and "only_timer p sq n q" "n \<le> 4" "run_ok (timer_due env) (timer_turn env) (replicate k ()) q"
  shows "\<exists>q'. rfold (timer_turn env) (replicate k ()) q = Inr q' \<and>
    (if n + k \<le> 4 then only_timer p sq (n + k) q' else no_timer p 5 q')"
  using assms(4-)
proof (induction k arbitrary: n q)
  case (Suc k)
  have due: "timer_due env () q" using Suc.prems(3) by simp
  obtain q1 where q1: "timer_turn env () q = Inr q1" "if n \<le> 3 then only_timer p sq (Suc n) q1 else no_timer p (Suc n) q1"
    using timer_turn_one [OF env Suc.prems(1) p due] by blast
  show ?case
  proof (cases "n \<le> 3")
    case True
    then show ?thesis using Suc.IH [of "Suc n" q1] q1 Suc.prems(3) by (auto split: if_splits)
  next
    case False
    then have "n = 4" using Suc.prems(2) by simp
    then show ?thesis using timer_turns_none [OF env(1), of p 5 q1 k] q1 by simp
  qed
qed simp

text \<open>A repeating timer added to a new queue is its only timer.\<close>

lemma addTimer_only:
  assumes "inLoopThread env" "alloc env Map.empty = Some p" "double_pos ivl"
    and "addTimer env timeout when ivl (TimerQueue_new Map.empty c\<lparr>clockReads := j\<rparr>) = Inr (tId, q)"
  shows "\<exists>sq. tId = \<lparr>id_timer = p, id_sequence = sq\<rparr> \<and> only_timer p sq 0 q"
  using assms
  by (auto simp: TimerQueue_new_def addTimer_def create_timer_def Timer_new_def addTimerInLoop_def assertInLoop_def
      insert_timer_def assert_sizes_def deref_def set_insert_def resetTimerfd_def read_clock_def only_timer_def Let_def
      split: prod.splits) (rule exI, rule conjI, rule refl, simp)

lemma timer_test_start:
  assumes "inLoopThread env" "alloc env Map.empty = Some p"
    and "timer_test_main env timeout (TimerQueue_new Map.empty c) = Inr (tId, q)"
  shows "\<exists>sq. tId = \<lparr>id_timer = p, id_sequence = sq\<rparr> \<and> only_timer p sq 0 q"
proof -
  have "double_pos (double_of_int 1)" by (simp add: double_pos_def double_of_int_def)
  from addTimer_only [OF assms(1,2) this] assms(3) show ?thesis by (simp add: timer_test_main_def read_clock_def Let_def)
qed

text \<open>
  C32. The repeating timer of the test fires exactly five times: however often the kernel timer fires afterwards, the callback has
  been called once per firing up to the fifth, when it cancels its own timer; then the queue is empty, the
  timer is freed, and later firings call nothing and abort nothing.
\<close>

theorem timer_test_fires_five_times:
  assumes "inLoopThread env" "alloc env Map.empty = Some p" "p \<noteq> - 1"
    and "timer_test_main env timeout (TimerQueue_new Map.empty c) = Inr (tId, q)" "program env = timeout_actions tId"
    and "run_ok (timer_due env) (timer_turn env) (replicate k ()) q"
  shows "\<exists>q'. rfold (timer_turn env) (replicate k ()) q = Inr q' \<and> fired q' = replicate (min k 5) p \<and>
    (if k < 5 then timers q' \<noteq> [] else timers q' = [] \<and> heap q' = Map.empty)"
proof -
  obtain sq where sq: "tId = \<lparr>id_timer = p, id_sequence = sq\<rparr>" "only_timer p sq 0 q" using timer_test_start [OF assms(1,2,4)] by blast
  have prog: "program env = timeout_actions \<lparr>id_timer = p, id_sequence = sq\<rparr>" using assms(5) sq(1) by simp
  obtain q' where "rfold (timer_turn env) (replicate k ()) q = Inr q'" "if k \<le> 4 then only_timer p sq k q' else no_timer p 5 q'"
    using timer_turns_one [OF assms(1) prog assms(3) sq(2) _ assms(6)] unfolding add_0 by blast
  then show ?thesis by (auto simp: only_timer_def no_timer_def min_def split: if_splits)
qed

definition timer_test_env :: "nat env" where
  "timer_test_env = \<lparr>alloc = (\<lambda>h. Some 16), clock = (\<lambda>n. Timestamp (int n * 10000000)), inLoopThread = True,
     program = timeout_actions \<lparr>id_timer = 16, id_sequence = 1\<rparr>\<rparr>"

theorem timer_test_fires_five_times_witness:
  "\<exists>tId q q'. timer_test_main timer_test_env 0 (TimerQueue_new Map.empty 0) = Inr (tId, q) \<and>
     rfold (timer_turn timer_test_env) (replicate 1 ()) q = Inr q' \<and> fired q' = [16]"
proof -
  have three: "addTime (Timestamp 0) (double_of_int 3) = Timestamp 3000000" using micros_of_int [of 3] by (simp add: addTime_def i64_def)
  have "yields {} (\<lambda>(tId, q). tId = \<lparr>id_timer = 16, id_sequence = 1\<rparr> \<and> timers q = [(Timestamp 3000000, 16)] \<and> clockReads q = 2)
      (timer_test_main timer_test_env 0 (TimerQueue_new Map.empty 0))"
    by (simp add: timer_test_main_def timer_test_env_def TimerQueue_new_def read_clock_def three addTimer_def create_timer_def Timer_new_def
        incrementAndGet_def addAndGet_def addTimerInLoop_def assertInLoop_def insert_timer_def assert_sizes_def deref_def set_insert_def
        resetTimerfd_def Let_def)
  then obtain tId q where q: "timer_test_main timer_test_env 0 (TimerQueue_new Map.empty 0) = Inr (tId, q)"
    "tId = \<lparr>id_timer = 16, id_sequence = 1\<rparr>" "timers q = [(Timestamp 3000000, 16)]" "clockReads q = 2"
    unfolding yields_returns by auto
  have env: "inLoopThread timer_test_env" "alloc timer_test_env Map.empty = Some 16" "(16 :: addr) \<noteq> - 1" "program timer_test_env = timeout_actions tId"
    using q(2) by (simp_all add: timer_test_env_def)
  have "timer_due timer_test_env () q" using q(3,4) by (simp add: timer_due_def timer_test_env_def less_eq_timestamp_def)
  then have "run_ok (timer_due timer_test_env) (timer_turn timer_test_env) (replicate 1 ()) q" by (simp split: sum.split)
  from timer_test_fires_five_times [OF env(1-3) q(1) env(4) this] q(1) show ?thesis by auto
qed

section \<open>Threads that count\<close>

text \<open>
  What the threads of \<^verbatim>\<open>testThread.cc\<close> take from the counter, one value at a time; \<open>ids\<close> says which thread is next. The
  counter is advanced in an argument of \<^verbatim>\<open>LOG_INFO\<close>, which is evaluated only if that level is printed.
\<close>

fun count_in_turn :: "int \<Rightarrow> nat list \<Rightarrow> 32 word \<Rightarrow> (nat \<times> 32 word) list \<times> 32 word" where
  "count_in_turn logLevel [] cnt = ([], cnt)"
| "count_in_turn logLevel (i # ids) cnt =
     (if enabled logLevel INFO then
        let (v, cnt) = getAndIncrement cnt; (vs, cnt) = count_in_turn logLevel ids cnt in ((i, v) # vs, cnt)
      else count_in_turn logLevel ids cnt)"

text \<open>The number of threads; the loops of \<^verbatim>\<open>main\<close> that start all of them, then join and delete each. \<open>create i\<close> is what \<^verbatim>\<open>pthread_create\<close> gives.\<close>

definition thread_test_count :: "string list \<Rightarrow> int" where
  "thread_test_count argv = (if length argv > 1 then atoi (argv ! 1) else 1000)"

fun start_all :: "(nat \<Rightarrow> int \<times> int) \<Rightarrow> nat list \<Rightarrow> thread_obj list result" where
  "start_all create [] = Inr []"
| "start_all create (i # is) = rbind (Thread_start (fst (create i)) (snd (create i)) Thread_new) (\<lambda>th.
     rbind (start_all create is) (\<lambda>ths. Inr (th # ths)))"

fun join_all :: "thread_obj list \<Rightarrow> thread_obj list result" where
  "join_all [] = Inr []"
| "join_all (th # ths) = rbind (Thread_join th) (\<lambda>th. rbind (join_all ths) (\<lambda>ths. Inr (Thread_delete th # ths)))"

definition thread_test_main :: "(nat \<Rightarrow> int \<times> int) \<Rightarrow> string list \<Rightarrow> thread_obj list result" where
  "thread_test_main create argv =
     rbind (start_all create [0..<nat (thread_test_count argv)]) join_all"

lemma count_in_turn_values:
  assumes "enabled lv INFO"
  shows "map snd (fst (count_in_turn lv ids cnt)) = map (\<lambda>j. cnt + word_of_nat j) [0..<length ids] \<and>
    map fst (fst (count_in_turn lv ids cnt)) = ids \<and> snd (count_in_turn lv ids cnt) = cnt + word_of_nat (length ids)"
proof (induction ids arbitrary: cnt)
  case (Cons i ids)
  have "[0..<Suc (length ids)] = 0 # map Suc [0..<length ids]" by (simp add: map_Suc_upt upt_conv_Cons del: upt_Suc)
  then show ?case
    using Cons [of "cnt + 1"] assms by (simp add: getAndIncrement_def getAndAdd_def Let_def split_beta add.assoc comp_def del: upt_Suc enabled.simps)
qed simp

lemma count_in_turn_silent: "\<not> enabled lv INFO \<Longrightarrow> count_in_turn lv ids cnt = ([], cnt)"
  by (induction ids) simp_all

lemma started_and_joined:
  assumes "\<forall>i \<in> set is. fst (create i) = 0 \<and> snd (create i) \<noteq> 0"
  shows "\<exists>ths ths'. start_all create is = Inr ths \<and> join_all ths = Inr ths' \<and> length ths' = length is \<and>
    (\<forall>th \<in> set ths'. th_started th \<and> th_joined th \<and> \<not> th_detached th)"
  using assms by (induction "is") (auto simp: Thread_start_def Thread_join_def Thread_delete_def Thread_new_def)

text \<open>
  The test of threads: all threads are started, joined and deleted without a failed assertion, none of them
  detached, and however they interleave, each taking two values from the common counter, every value below \<open>2 n\<close> is taken exactly
  once, in ascending order, and the counter ends at \<open>2 n\<close>. That holds at the default level of logging; from level 3 on
  the counter stays at zero, because it is advanced in an argument of \<^verbatim>\<open>LOG_INFO\<close>.
\<close>

theorem thread_test_counts:
  assumes "thread_test_count argv = int n" "n < 2 ^ 31" "\<forall>i < n. fst (create i) = 0 \<and> snd (create i) \<noteq> 0"
    and "mset ids = mset ([0..<n] @ [0..<n])"
  shows "(\<exists>ths. thread_test_main create argv = Inr ths \<and> length ths = n \<and> (\<forall>th \<in> set ths. th_started th \<and> th_joined th \<and> \<not> th_detached th)) \<and>
    (let (vs, cnt) = count_in_turn (initLogLevel None) ids atomic_init in map (unat \<circ> snd) vs = [0..<2 * n] \<and> unat cnt = 2 * n) \<and>
    (\<forall>lv \<ge> 3. count_in_turn lv ids atomic_init = ([], 0))"
proof -
  obtain ths ths' where ths: "start_all create [0..<n] = Inr ths" "join_all ths = Inr ths'" "length ths' = n"
    "\<forall>th \<in> set ths'. th_started th \<and> th_joined th \<and> \<not> th_detached th"
    using started_and_joined [of "[0..<n]" create] assms(3) by auto
  have main: "thread_test_main create argv = Inr ths'" using ths(1,2) assms(1) by (simp add: thread_test_main_def)
  have len: "length ids = 2 * n" using arg_cong [OF assms(4), of size] by simp
  have small: "unat (word_of_nat j :: 32 word) = j" if "j \<le> 2 * n" for j using that assms(2) by (simp add: unat_of_nat take_bit_eq_mod)
  have "enabled (initLogLevel None) INFO" by (simp add: initLogLevel_def)
  note vals = count_in_turn_values [OF this, of ids atomic_init]
  let ?r = "count_in_turn (initLogLevel None) ids atomic_init"
  have "map (unat \<circ> snd) (fst ?r) = map unat (map snd (fst ?r))" by simp
  also have "\<dots> = map (\<lambda>j. unat (word_of_nat j :: 32 word)) [0..<2 * n]" using vals len by (simp add: atomic_init_def comp_def)
  also have "\<dots> = [0..<2 * n]" using small by (intro map_idI) simp
  finally have "map (unat \<circ> snd) (fst ?r) = [0..<2 * n] \<and> unat (snd ?r) = 2 * n" using vals len small [of "2 * n"] by (simp add: atomic_init_def)
  then show ?thesis using main ths(3,4) by (auto simp: split_beta count_in_turn_silent atomic_init_def)
qed

theorem thread_test_counts_witness:
  "\<exists>ths. thread_test_main (\<lambda>i. (0, int i + 1)) [''testThread'', show_int 2] = Inr ths \<and> length ths = 2 \<and>
     (let (vs, cnt) = count_in_turn (initLogLevel None) [1, 0, 0, 1] atomic_init in map (unat \<circ> snd) vs = [0..<2 * 2] \<and> unat cnt = 2 * 2)"
proof -
  let ?create = "\<lambda>i. (0, int i + 1) :: int \<times> int"
  have "thread_test_count [''testThread'', show_int 2] = int 2" "(2 :: nat) < 2 ^ 31" "\<forall>i < 2. fst (?create i) = 0 \<and> snd (?create i) \<noteq> 0"
    "mset [1, 0, 0, 1] = mset ([0..<2] @ [0..<2 :: nat])"
    using atoi_show_int [of 2] by (simp_all add: thread_test_count_def upt_rec)
  from thread_test_counts [OF this] show ?thesis by blast
qed

end
