(* ===== verification/Test_Programs.thy ===== *)
theory Test_Programs
  imports EventLoopThread EventLoopThreadPool Acceptor TcpClient Connection_Capacity Test_Timers
begin

text \<open>
  The test programs around single objects: \<^verbatim>\<open>testEventLoopThreadPool.cc\<close>, \<^verbatim>\<open>testEventLoop.cc\<close>, \<^verbatim>\<open>testChannel.cc\<close>, \<^verbatim>\<open>testAcceptor.cc\<close>,
  \<^verbatim>\<open>testConnector.cc\<close> and \<^verbatim>\<open>testTcpClient.cc\<close>. Each has the objects its \<^verbatim>\<open>main\<close> makes and what its callbacks do, with the lines
  they print.
\<close>

section \<open>Printing\<close>

definition newline :: string where
  "newline = [CHR 0x0A]"

text \<open>A block of bytes as \<^verbatim>\<open>%s\<close> prints it: up to the first zero byte.\<close>

definition c_str :: "byte list \<Rightarrow> string" where
  "c_str bs = map (\<lambda>b. char_of (unat b)) (takeWhile (\<lambda>b. b \<noteq> 0) bs)"

section \<open>A pool of threads\<close>

text \<open>\<^verbatim>\<open>main\<close> of \<^verbatim>\<open>testEventLoopThreadPool.cc\<close>, up to \<^verbatim>\<open>loop\<close>; \<open>threadIdOf\<close> reads the thread of a loop.\<close>

definition pool_test_main :: "addr \<Rightarrow> (int \<Rightarrow> addr) \<Rightarrow> (addr \<Rightarrow> int) \<Rightarrow> string list result" where
  "pool_test_main base newLoop threadIdOf =
     (let n = 10 in
      rbind (tp_start True newLoop (tp_setThreadNum n (EventLoopThreadPool_new base))) (\<lambda>tp.
      rbind (next_loops (nat n) tp) (\<lambda>(ls, tp).
        Inr (map (\<lambda>(i, l). ''thread '' @ show_int i @ '': pid: '' @ show_int (threadIdOf l) @ newline) (zip [0..n - 1] ls)))))"

text \<open>\<^verbatim>\<open>cancelLoop\<close>.\<close>

definition cancelLoop :: "'f functor_queue \<Rightarrow> 'f functor_queue" where
  "cancelLoop q = quit True q"

text \<open>The test prints the ten threads in the order they were started, each once.\<close>

theorem pool_test_prints:
  "pool_test_main base newLoop threadIdOf =
     Inr (map (\<lambda>i. ''thread '' @ show_int i @ '': pid: '' @ show_int (threadIdOf (newLoop i)) @ newline) [0..9])"
proof -
  obtain tp where tp: "tp_start True newLoop (tp_setThreadNum 10 (EventLoopThreadPool_new base)) = Inr tp"
    by (simp add: tp_start_def tp_setThreadNum_def EventLoopThreadPool_new_def)
  have at: "tp_at 0 tp" "loops tp = map (\<lambda>j. newLoop (int j)) [0..<nat 10]" by (rule tp_start_at [OF tp], simp)+
  obtain tp' where "next_loops (nat 10) tp = Inr (map (\<lambda>j. loop_for tp (0 + j)) [0..<nat 10], tp')"
    using next_loops_at [OF at(1)] by blast
  moreover have "map (\<lambda>j. loop_for tp (0 + j)) [0..<nat 10] = map newLoop [0..9]"
    by (rule nth_equalityI) (simp_all add: loop_for_def at(2))
  ultimately have main: "pool_test_main base newLoop threadIdOf =
      Inr (map (\<lambda>(i, l). ''thread '' @ show_int i @ '': pid: '' @ show_int (threadIdOf l) @ newline) (zip [0..9] (map newLoop [0..9])))"
    using tp by (simp add: pool_test_main_def Let_def)
  show ?thesis unfolding main zip_map2 zip_same_conv_map by simp
qed

section \<open>A loop with a timer and another thread\<close>

text \<open>\<^verbatim>\<open>testEventLoop.cc\<close>: what the second thread does after its sleep, the timer and its callback.\<close>

definition loop_test_threadFunc :: "('cb, 'k) call \<Rightarrow> int \<Rightarrow> 'cb \<Rightarrow> ('cb, 'k) eventloop \<Rightarrow> ('cb, 'k) eventloop result" where
  "loop_test_threadFunc call t callBack g_loop = runInLoop call t callBack g_loop"

definition timerCallback_actions :: "timer_id \<Rightarrow> 'cb \<Rightarrow> 'cb timer_queue \<Rightarrow> 'cb timer_action list" where
  "timerCallback_actions g_timerId cb q = (let cnt = length (fired q) in if cnt > 3 then [CancelTimer g_timerId] else [])"

text \<open>\<^verbatim>\<open>main\<close> before and after \<^verbatim>\<open>loop\<close>; \<open>create\<close> is what \<^verbatim>\<open>pthread_create\<close> returns and stores.\<close>

definition loop_test_main :: "int \<times> int \<Rightarrow> 'cb env \<Rightarrow> 'cb \<Rightarrow> 'cb timer_queue \<Rightarrow> (thread_obj \<times> timer_id \<times> 'cb timer_queue) result" where
  "loop_test_main create env timerCallback q =
     rbind (Thread_start (fst create) (snd create) Thread_new) (\<lambda>thread.
     rbind (runEvery env (double_of_int 2) timerCallback q) (\<lambda>(g_timerId, q). Inr (thread, g_timerId, q)))"

definition loop_test_end :: "thread_obj \<Rightarrow> thread_obj result" where
  "loop_test_end thread = rbind (Thread_join thread) (\<lambda>thread. Inr (Thread_delete thread))"

text \<open>
  The second thread does not run its callback: the loop does, once and after what was queued before, when it next runs
  its functors; and the thread wakes it for that.
\<close>

theorem loop_test_callback_in_loop:
  assumes "t \<noteq> threadId l"
  shows "\<exists>q. loop_test_threadFunc call t callBack l = Inr (l\<lparr>queue := q\<rparr>) \<and> wakeupCount q \<noteq> 0 \<and>
    doPendingFunctors call (l\<lparr>queue := q\<rparr>) =
      rbind (rfold (call None) (pendingFunctors (queue l) @ [callBack]) (l\<lparr>queue := (set_calling q)\<lparr>pendingFunctors := []\<rparr>\<rparr>))
        (\<lambda>l. Inr (l\<lparr>queue := set_calling (queue l)\<rparr>))"
  using assms
  by (intro exI [of _ "queueInLoop False callBack (queue l)"])
    (simp add: loop_test_threadFunc_def runInLoop_def isInLoopThread_def queueInLoop_def queue_wake_def queue_push_def
      doPendingFunctors_def pending_swap_def set_calling_def)

theorem loop_test_callback_in_loop_witness:
  "\<exists>q. loop_test_threadFunc sample_call 77 (0 :: nat) sample_loop = Inr (sample_loop\<lparr>queue := q\<rparr>) \<and> wakeupCount q \<noteq> 0"
  using loop_test_callback_in_loop [of 77 sample_loop sample_call 0] by (auto simp: sample_loop_def)

lemma timerCallback_timeout: "timerCallback_actions = timeout_actions"
  by (intro ext) (simp add: timerCallback_actions_def timeout_actions_def)

text \<open>Its timer, too, fires five times and is gone; after the loop the second thread is joined.\<close>

theorem loop_test_timer_fires_five_times:
  assumes "inLoopThread env" "alloc env Map.empty = Some p" "p \<noteq> - 1"
    and "loop_test_main create env cb (TimerQueue_new Map.empty c) = Inr (thread, tId, q)" "program env = timerCallback_actions tId"
    and "run_ok (timer_due env) (timer_turn env) (replicate k ()) q" "snd create \<noteq> 0"
  shows "\<exists>q' thread'. loop_test_end thread = Inr thread' \<and> th_joined thread' \<and> \<not> th_detached thread' \<and>
     rfold (timer_turn env) (replicate k ()) q = Inr q' \<and> fired q' = replicate (min k 5) p \<and>
    (if k < 5 then timers q' \<noteq> [] else timers q' = [] \<and> heap q' = Map.empty)"
proof -
  have "double_pos (double_of_int 2)" by (simp add: double_pos_def double_of_int_def)
  moreover obtain w j where "addTimer env cb w (double_of_int 2) (TimerQueue_new Map.empty c\<lparr>clockReads := j\<rparr>) = Inr (tId, q)"
    using assms(4) by (auto simp: loop_test_main_def runEvery_def read_clock_def)
  ultimately obtain sq where sq: "tId = \<lparr>id_timer = p, id_sequence = sq\<rparr>" "only_timer p sq 0 q"
    using addTimer_only [OF assms(1,2)] by blast
  have prog: "program env = timeout_actions \<lparr>id_timer = p, id_sequence = sq\<rparr>" using assms(5) sq(1) by (simp add: timerCallback_timeout)
  obtain q' where "rfold (timer_turn env) (replicate k ()) q = Inr q'" "if k \<le> 4 then only_timer p sq k q' else no_timer p 5 q'"
    using timer_turns_one [OF assms(1) prog assms(3) sq(2) _ assms(6)] unfolding add_0 by blast
  moreover have "\<exists>thread'. loop_test_end thread = Inr thread' \<and> th_joined thread' \<and> \<not> th_detached thread'"
    using assms(4,7) by (auto simp: loop_test_main_def loop_test_end_def Thread_start_def Thread_join_def Thread_delete_def Thread_new_def
        split: if_splits)
  ultimately show ?thesis by (auto simp: only_timer_def no_timer_def min_def split: if_splits)
qed

section \<open>Watching standard input\<close>

text \<open>
  \<^verbatim>\<open>testChannel.cc\<close>. \<^verbatim>\<open>setnonblocking\<close> takes the flags to set from \<^verbatim>\<open>F_GETFD\<close>; \<open>r\<close> is what setting them returns.
\<close>

definition setnonblocking :: "32 word \<Rightarrow> int \<Rightarrow> fcntl_call \<times> int" where
  "setnonblocking fdFlags r = (F_SETFL (fdFlags OR O_NONBLOCK), if r = - 1 then - 1 else 0)"

text \<open>The callback: it reads at most ten bytes; \<open>r\<close> is the answer of \<^verbatim>\<open>read\<close>.\<close>

definition readFunc_size :: nat where
  "readFunc_size = 10"

definition readFunc :: "(int \<Rightarrow> tm) \<Rightarrow> timestamp \<Rightarrow> sysread \<Rightarrow> string" where
  "readFunc gmtime time r = (case r of
       ReadErr e \<Rightarrow> ''read error!'' @ newline
     | ReadData buf \<Rightarrow> if buf \<noteq> [] then
           ''read '' @ show_int (int (length buf)) @ '' bytes from stdin at '' @ toFormattedString gmtime time @ '', ['' @ c_str buf @ ''] '' @ newline
         else ''read empty!'' @ newline)"

text \<open>
  \<^verbatim>\<open>main\<close>: a loop, and a channel for descriptor 0 in it, at the address \<open>p\<close>, that is watched for reading.
\<close>

definition channel_test_main :: "'k epoll_sys \<Rightarrow> 'k \<Rightarrow> int \<Rightarrow> addr \<Rightarrow> int \<Rightarrow> addr \<Rightarrow> 'cb \<Rightarrow> fd \<Rightarrow> addr \<Rightarrow> 'cb \<Rightarrow> addr \<Rightarrow> 'cb \<Rightarrow>
    (('cb, 'k) eventloop \<times> loop_of_thread) result" where
  "channel_test_main sys k t lp evtfd wc onWake timerfd tc onTimer p readFn =
     rbind (EventLoop_new sys k t lp evtfd wc onWake timerfd tc onTimer Map.empty) (\<lambda>(l, lm).
     let l = l\<lparr>chan := (chan l)(p \<mapsto> setReadCallback readFn (Channel_new lp 0))\<rparr> in
     rbind (Channel_request sys True EnableReading p l) (\<lambda>l. Inr (l, lm)))"

text \<open>
  What \<^verbatim>\<open>read\<close> gives of the bytes that are there, at most ten and at least one if there are any, as documented;
  \<open>n\<close> is its choice. Then the calls of the callback, with the lines printed and what is left.
\<close>

definition stdin_read :: "nat \<Rightarrow> byte list \<Rightarrow> byte list" where
  "stdin_read n input = take (max 1 (min n readFunc_size)) input"

fun stdin_calls :: "(int \<Rightarrow> tm) \<Rightarrow> (timestamp \<times> nat) list \<Rightarrow> byte list \<Rightarrow> (byte list \<times> string) list \<times> byte list" where
  "stdin_calls gmtime [] input = ([], input)"
| "stdin_calls gmtime ((t, n) # xs) input =
     (let d = stdin_read n input; (outs, rest) = stdin_calls gmtime xs (drop (length d) input)
      in ((d, readFunc gmtime t (ReadData d)) # outs, rest))"

text \<open>The status flags are overwritten by those of the descriptor: whatever they were, appending (\<^verbatim>\<open>O_APPEND\<close>, \<open>0x400\<close>) is off afterwards.\<close>

lemma setnonblocking_drops_append:
  assumes "fdFlags = 0 \<or> fdFlags = FD_CLOEXEC"
  shows "\<exists>fl. fst (setnonblocking fdFlags r) = F_SETFL fl \<and> fl AND O_NONBLOCK = O_NONBLOCK \<and> fl AND 0x400 = 0"
  using assms by (auto simp: setnonblocking_def O_NONBLOCK_def FD_CLOEXEC_def)

text \<open>\<^verbatim>\<open>main\<close> leaves a loop of its thread that watches standard input with the channel of the test, in sync with its poller.\<close>

theorem channel_test_watches:
  assumes "epoll_ctl_ok sys" "interest sys k = Map.empty" "wc \<noteq> tc" "evtfd \<noteq> timerfd" "0 < evtfd" "0 < timerfd" "p \<noteq> wc" "p \<noteq> tc"
  shows "\<exists>l. channel_test_main sys k t lp evtfd wc onWake timerfd tc onTimer p readFn = Inr (l, [t \<mapsto> lp]) \<and> isInLoopThread t l \<and> ep_inv sys l \<and>
    interest sys (kernel l) 0 = Some (kReadEvent, p) \<and> map_option readCallback (chan l p) = Some (Some readFn)"
proof -
  obtain l where l: "EventLoop_new sys k t lp evtfd wc onWake timerfd tc onTimer Map.empty = Inr (l, [t \<mapsto> lp])" "isInLoopThread t l" "ep_inv sys l"
    "ownerLoop l = lp" "dom (chan l) = {wc, tc}" "dom (channels_ep l) = {timerfd, evtfd}"
    using EventLoop_new_ready [OF assms(1-4), of Map.empty t lp onWake onTimer] assms(5) by auto
  let ?c = "setReadCallback readFn (Channel_new lp 0)"
  have c: "ch_fd ?c = 0" "ch_index ?c = kNew" "ch_loop ?c = lp" "ch_events ?c = 0" "readCallback ?c = Some readFn"
    by (simp_all add: setReadCallback_def Channel_new_def kNew_def)
  let ?l = "l\<lparr>chan := (chan l)(p \<mapsto> ?c)\<rparr>"
  have "chan l p = None" "channels_ep l 0 = None" using l(5,6) assms(5-8) by auto
  then have inv: "ep_inv sys ?l" using c(2) by (intro ep_inv_store [OF l(3)]) auto
  obtain k' where k': "Channel_request sys True EnableReading p ?l = Inr (?l\<lparr>chan := (chan ?l)(p \<mapsto> after_request EnableReading ?c),
      channels_ep := (channels_ep ?l)(ch_fd ?c \<mapsto> p), kernel := k'\<rparr>)"
    "ep_inv sys (?l\<lparr>chan := (chan ?l)(p \<mapsto> after_request EnableReading ?c), channels_ep := (channels_ep ?l)(ch_fd ?c \<mapsto> p), kernel := k'\<rparr>)"
    by (rule Channel_request_ok [OF assms(1) inv, of p ?c EnableReading]) (use c l(4) \<open>channels_ep l 0 = None\<close> in simp_all)
  let ?r = "?l\<lparr>chan := (chan ?l)(p \<mapsto> after_request EnableReading ?c), channels_ep := (channels_ep ?l)(ch_fd ?c \<mapsto> p), kernel := k'\<rparr>"
  have "interest sys (kernel ?r) 0 = Some (kReadEvent, p)"
    unfolding ep_invD(4) [OF k'(2)] using c by (simp add: interest_of_def after_request_def set_index_def Let_def requested.simps)
  moreover have "readCallback (after_request EnableReading ?c) = Some readFn"
    using c(5) by (simp add: after_request_def set_index_def Let_def)
  ultimately show ?thesis
    using k' l(1,2) by (intro exI [of _ ?r]) (simp add: channel_test_main_def isInLoopThread_def Let_def)
qed

text \<open>
  Nothing of the input is lost: the blocks the callback prints are the input in order, each of at most ten bytes; as many calls as there are
  bytes are enough to print all of it, and once the input is used up every call prints that it read nothing.
\<close>

theorem stdin_is_printed:
  assumes "stdin_calls gmtime xs input = (outs, rest)"
  shows "concat (map fst outs) @ rest = input \<and> (\<forall>(d, line) \<in> set outs. length d \<le> readFunc_size \<and>
      (d = [] \<longrightarrow> line = ''read empty!'' @ newline)) \<and> (length input \<le> length xs \<longrightarrow> rest = []) \<and> length outs = length xs"
  using assms
proof (induction xs arbitrary: input outs rest)
  case (Cons x xs)
  obtain t n where x: "x = (t, n)" by (cases x)
  let ?d = "stdin_read n input"
  obtain outs' where outs': "stdin_calls gmtime xs (drop (length ?d) input) = (outs', rest)"
    "outs = (?d, readFunc gmtime t (ReadData ?d)) # outs'"
    using Cons.prems x by (auto simp: Let_def split: prod.splits)
  have "?d @ drop (length ?d) input = input" by (simp add: stdin_read_def min_def)
  moreover have "length ?d \<le> readFunc_size" by (auto simp: stdin_read_def readFunc_size_def)
  moreover have "length (drop (length ?d) input) \<le> length xs" if "length input \<le> Suc (length xs)"
  proof (cases "input = []")
    case False
    then have "0 < length ?d" by (simp add: stdin_read_def)
    then show ?thesis using that unfolding length_drop by linarith
  qed simp
  ultimately show ?case using Cons.IH [OF outs'(1)] outs'(2) by (auto simp: readFunc_def)
qed auto

theorem stdin_is_printed_witness:
  "concat (map fst (fst (stdin_calls (\<lambda>s. undefined) [(invalid, 4), (invalid, 99)] [72, 101, 108, 108, 111]))) @
    snd (stdin_calls (\<lambda>s. undefined) [(invalid, 4), (invalid, 99)] [72, 101, 108, 108, 111]) = [72, 101, 108, 108, 111]"
  using stdin_is_printed [OF prod.collapse [symmetric], of "\<lambda>s. undefined" "[(invalid, 4), (invalid, 99)]" "[72, 101, 108, 108, 111]"] by blast


section \<open>Accepting\<close>

text \<open>
  \<^verbatim>\<open>testAcceptor.cc\<close>: \<open>sockfd\<close>, \<open>br\<close> and \<open>lr\<close> are the answers of \<^verbatim>\<open>socket\<close>, \<^verbatim>\<open>bind\<close> and \<^verbatim>\<open>listen\<close>. The callback prints a line
  and leaves the descriptor open.
\<close>

definition newConnection_line :: "fd \<times> sockaddr_in \<Rightarrow> string" where
  "newConnection_line x = (case x of (sockfd, addr) \<Rightarrow>
     ''new connection (fd:'' @ show_int sockfd @ '') from  '' @ InetAddress_toHostPort addr @ newline)"

definition acceptor_test_main :: "'k epoll_sys \<Rightarrow> ('cb, 'k) poller \<Rightarrow> addr \<Rightarrow> 'cb \<Rightarrow> int \<Rightarrow> int \<Rightarrow> int \<Rightarrow>
    (sockaddr_in \<times> ('cb, 'k) acceptor) result" where
  "acceptor_test_main sys pl p onRead sockfd br lr =
     (let listenAddr = InetAddress_port 9981 in
      rbind (Acceptor_new pl p onRead sockfd br) (\<lambda>acc.
      rbind (acc_listen sys True lr (acc_setNewConnectionCallback acc)) (\<lambda>acc. Inr (listenAddr, acc))))"

lemma acc_answers:
  assumes "\<forall>ans \<in> set anss. \<not> fatal_answer ans" "acc_hasCallback s"
  shows "rfold (acc_handleRead True) anss s = Inr (s\<lparr>given := given s @ new_sockets anss\<rparr>)"
  using assms
proof (induction anss arbitrary: s)
  case (Cons ans anss)
  obtain r e a where "ans = (r, e, a)" by (cases ans)
  with Cons show ?case by (auto simp: acc_handleRead_cases fatal_answer_def new_sockets_def)
qed (simp add: new_sockets_def)

text \<open>
  The test listens: its socket is watched, and for any answers of the kernel without a fatal error it prints one line for
  every accepted connection, in order, and closes none of them.
\<close>

theorem acceptor_test_prints:
  fixes pl :: "('cb, 'k) poller"
  assumes sys: "epoll_ctl_ok sys" and pl: "ep_inv sys pl" "chan pl p = None" "channels_ep pl sockfd = None"
    and r: "0 \<le> sockfd" "0 \<le> br" "0 \<le> lr" and anss: "\<forall>ans \<in> set anss. \<not> fatal_answer ans"
  shows "\<exists>acc s. acceptor_test_main sys pl p onRead sockfd br lr = Inr (InetAddress_port 9981, acc) \<and>
    interest sys (kernel acc) sockfd = Some (kReadEvent, p) \<and> rfold (acc_handleRead True) anss acc = Inr s \<and>
    map newConnection_line (given s) = map newConnection_line (new_sockets anss) \<and> dropped s = []"
proof -
  let ?c = "setReadCallback onRead (Channel_new (ownerLoop pl) sockfd)"
  have c: "ch_fd ?c = sockfd" "ch_index ?c = kNew" "ch_loop ?c = ownerLoop pl" "ch_events ?c = 0"
    by (simp_all add: setReadCallback_def Channel_new_def kNew_def)
  obtain a where a: "Acceptor_new pl p onRead sockfd br = Inr a" "chan a = (chan pl)(p \<mapsto> ?c)" "channels_ep a = channels_ep pl"
    "kernel a = kernel pl" "ownerLoop a = ownerLoop pl" "acceptChannel a = p" "given a = []" "dropped a = []"
    using r by (simp add: Acceptor_new_def createNonBlockingOrDie_def bindOrDie_def)
  let ?a = "(acc_setNewConnectionCallback a)\<lparr>listening := True\<rparr>"
  have "ep_inv sys (pl\<lparr>chan := (chan pl)(p \<mapsto> ?c)\<rparr>)" using pl(2) c(2) by (intro ep_inv_store [OF pl(1)]) auto
  then have inv: "ep_inv sys ?a"
    using ep_inv_fields [of ?a "pl\<lparr>chan := (chan pl)(p \<mapsto> ?c)\<rparr>" sys] a by (simp add: acc_setNewConnectionCallback_def)
  have at: "chan ?a p = Some ?c" "ownerLoop ?a = ownerLoop pl" "channels_ep ?a sockfd = None"
    using a pl(3) by (simp_all add: acc_setNewConnectionCallback_def)
  obtain k where k: "Channel_request sys True EnableReading p ?a = Inr (?a\<lparr>chan := (chan ?a)(p \<mapsto> after_request EnableReading ?c),
      channels_ep := (channels_ep ?a)(ch_fd ?c \<mapsto> p), kernel := k\<rparr>)"
    "ep_inv sys (?a\<lparr>chan := (chan ?a)(p \<mapsto> after_request EnableReading ?c), channels_ep := (channels_ep ?a)(ch_fd ?c \<mapsto> p), kernel := k\<rparr>)"
    by (rule Channel_request_ok [OF sys inv at(1), of EnableReading]) (use c at in simp_all)
  let ?r = "?a\<lparr>chan := (chan ?a)(p \<mapsto> after_request EnableReading ?c), channels_ep := (channels_ep ?a)(ch_fd ?c \<mapsto> p), kernel := k\<rparr>"
  have "interest sys (kernel ?r) sockfd = Some (kReadEvent, p)"
    unfolding ep_invD(4) [OF k(2)] using c by (simp add: interest_of_def after_request_def set_index_def Let_def requested.simps)
  moreover have "acceptChannel (acc_setNewConnectionCallback a) = p" by (simp add: acc_setNewConnectionCallback_def a(6))
  then have "acceptor_test_main sys pl p onRead sockfd br lr = Inr (InetAddress_port 9981, ?r)"
    using a(1) k(1) r(3) by (simp add: acceptor_test_main_def acc_listen_def listenOrDie_def)
  moreover have "rfold (acc_handleRead True) anss ?r = Inr (?r\<lparr>given := given ?r @ new_sockets anss\<rparr>)"
    by (rule acc_answers [OF anss]) (simp add: acc_setNewConnectionCallback_def)
  ultimately show ?thesis using a(7,8)
    by (intro exI [of _ ?r] exI [of _ "?r\<lparr>given := given ?r @ new_sockets anss\<rparr>"]) (simp add: acc_setNewConnectionCallback_def)
qed

section \<open>Connecting\<close>

text \<open>
  \<^verbatim>\<open>testConnector.cc\<close>. The callback prints a line and quits the loop; \<^verbatim>\<open>handleWrite\<close> calls it when it hands a socket over.
\<close>

definition connector_test_onConnection :: "string list \<times> 'f functor_queue \<Rightarrow> string list \<times> 'f functor_queue" where
  "connector_test_onConnection x = (case x of (lines, q) \<Rightarrow> (lines @ [''connected'' @ newline], quit True q))"

definition connector_test_main :: "'k epoll_sys \<Rightarrow> ('cb, 'k) poller \<Rightarrow> 'cb \<Rightarrow> 'cb \<Rightarrow> new_socket \<Rightarrow> (sockaddr_in \<times> ('cb, 'k) connector) result" where
  "connector_test_main sys pl w e ns =
     (let serverAddr = InetAddress_port 9876; connector = Connector_new pl w e in
      rbind (start sys ns (setNewConnectionCallback connector)) (\<lambda>connector. Inr (serverAddr, connector)))"

definition connector_test_writable :: "'k epoll_sys \<Rightarrow> int \<Rightarrow> sockaddr_in option \<Rightarrow> sockaddr_in option \<Rightarrow>
    ('cb, 'k) connector \<times> string list \<times> 'f functor_queue \<Rightarrow> (('cb, 'k) connector \<times> string list \<times> 'f functor_queue) result" where
  "connector_test_writable sys err la pa x = (case x of (c, io) \<Rightarrow>
     rbind (cn_handleWrite sys err la pa c) (\<lambda>c'.
       Inr (c', if length (handed c) < length (handed c') then connector_test_onConnection io else io)))"

text \<open>
  The test ends as soon as it is connected: whatever attempts came before, when an attempt succeeds the test prints its line and quits
  its loop, which still runs the functor that frees the channel. Only therefore the destructor of the connector does not
  abort; the socket is never closed.
\<close>

theorem connector_test_ends:
  fixes c :: "('cb, 'k) connector"
  assumes "epoll_ctl_ok sys" "cn_inv sys c" "cn_state c = Connecting" "connect_flag c" "\<not> isSelfConnect la pa"
  shows "\<exists>d c1 c2 c3. connector_test_writable sys 0 la pa (c, lines, q) = Inr (c1, lines @ [''connected'' @ newline], quit True q) \<and>
    attempt c = [d] \<and> handed c1 = handed c @ [d] \<and> closedSocks c1 = closedSocks c \<and> quit_flag (quit True q) \<and>
    Connector_delete c1 = Inl AssertFailure \<and> resetChannel c1 = Inr c2 \<and> Connector_delete c2 = Inr c3 \<and> closedSocks c3 = closedSocks c"
proof -
  have inv: "reg_ok sys c" "watching c" "hasNewConnectionCallback c" using assms(2,3) by (simp_all add: cn_inv_def cn_owns_def)
  obtain d s where d: "removeAndResetChannel sys c = Inr (d, s)" "attempt c = [d]" "reg_ok sys s" "\<not> watching s"
    "\<exists>ch ce k. s = c\<lparr>chan := ch, channels_ep := ce, kernel := k, resets := Suc (resets c)\<rparr>"
    by (rule removeAndResetChannel_ok [OF assms(1) inv(1,2)])
  obtain p where p: "cn_channel c = Some p" using inv(2) by (auto simp: watching_def split: option.splits)
  have s: "hasNewConnectionCallback s" "connect_flag s" "handed s = handed c" "cn_channel s = Some p" "closedSocks s = closedSocks c"
    using d(5) inv(3) assms(4) p by auto
  let ?c1 = "s\<lparr>cn_state := Connected, handed := handed s @ [d]\<rparr>"
  have "cn_handleWrite sys 0 la pa c = Inr ?c1" using d(1) s assms(3,5) by (simp add: cn_handleWrite_def)
  then have "connector_test_writable sys 0 la pa (c, lines, q) = Inr (?c1, lines @ [''connected'' @ newline], quit True q)"
    using s by (simp add: connector_test_writable_def connector_test_onConnection_def)
  moreover have "reg_ok sys ?c1" "cn_channel ?c1 = Some p" "\<not> watching ?c1" using d(3,4) s(4) by simp_all
  note r = resetChannel_ok(1) [OF this]
  moreover have "Connector_delete x = (if cn_channel x = None then Inr (cancel_timer x) else Inl AssertFailure)"
    "closedSocks (cancel_timer x) = closedSocks x" for x :: "('cb, 'k) connector"
    by (auto simp: Connector_delete_def cancel_timer_def Let_def split: option.split)
  moreover have "quit_flag (quit True q)" by (simp add: quit_def Let_def)
  ultimately show ?thesis using d(2) s
    by (rule_tac x = d in exI, rule_tac x = ?c1 in exI,
        rule_tac x = "?c1\<lparr>resets := resets ?c1 - 1, chan := (chan ?c1)(p := None), cn_channel := None\<rparr>" in exI, simp)
qed

text \<open>
  What \<^verbatim>\<open>main\<close> leaves for each outcome of the first attempt: under way, to be retried, or given up, when the loop runs without anything to do.
\<close>

lemma connector_starts:
  fixes pl :: "('cb, 'k) poller"
  assumes sys: "epoll_ctl_ok sys" and pl: "ep_inv sys pl" "chan pl p = None" "channels_ep pl d = None" and d: "0 \<le> d"
  obtains c where "start sys (p, d, e) (setNewConnectionCallback (Connector_new pl w err)) = Inr c" "cn_inv sys c" "connect_flag c"
    "if e \<in> set in_progress_errnos then cn_state c = Connecting \<and> attempt c = [d]
     else cn_state c = Disconnected \<and> closedSocks c = [d] \<and> liveTimers c = (if e \<in> set retry_errnos then [0] else [])"
proof -
  let ?new = "setNewConnectionCallback (Connector_new pl w err)"
  let ?c = "?new\<lparr>connect_flag := True, created := [d]\<rparr>"
  have inv: "cn_inv sys ?new" by (rule cn_inv_new [OF pl(1)])
  have ok: "cn_ok (Start (p, d, e)) ?new" using pl by (simp add: setNewConnectionCallback_def Connector_new_def)
  have fields: "cn_state ?new = Disconnected" "created ?new = []" "cn_channel ?c = None" "chan ?c p = None" "channels_ep ?c d = None"
    "closedSocks ?c = []" "liveTimers ?c = []" "nextTimer ?c = 0" "cn_state ?c = Disconnected"
    using pl by (simp_all add: setNewConnectionCallback_def Connector_new_def)
  have run: "start sys (p, d, e) ?new = (if e \<in> set in_progress_errnos then connecting sys p d ?c
      else if e \<in> set retry_errnos then Inr (retry d ?c) else Inr (close_sock d ?c))"
    using d fields(1,2) by (simp add: start_def startInLoop_def cn_connect_def createNonBlockingOrDie_def)
  have reg: "reg_ok sys ?c" using inv by (simp add: cn_inv_def)
  show ?thesis
  proof (cases "e \<in> set in_progress_errnos")
    case True
    obtain c where c: "connecting sys p d ?c = Inr c" "attempt c = [d]"
      "\<exists>ch ce k. c = ?c\<lparr>cn_state := Connecting, cn_channel := Some p, chan := ch, channels_ep := ce, kernel := k\<rparr>"
      by (rule connecting_ok [OF sys reg fields(3-5)])
    then have "start sys (p, d, e) ?new = Inr c" using run True by simp
    moreover from this have "cn_inv sys c" using cn_step_inv [OF sys inv ok, of c] by simp
    ultimately show ?thesis by (rule that) (use c True in auto)
  next
    case False
    let ?r = "if e \<in> set retry_errnos then retry d ?c else close_sock d ?c"
    have r: "start sys (p, d, e) ?new = Inr ?r" using run False by simp
    then have "cn_inv sys ?r" using cn_step_inv [OF sys inv ok, of ?r] by simp
    with r show ?thesis by (rule that) (use False fields in \<open>simp_all add: retry_def close_sock_def Let_def\<close>)
  qed
qed

theorem connector_test_starts:
  fixes pl :: "('cb, 'k) poller"
  assumes "epoll_ctl_ok sys" "ep_inv sys pl" "chan pl p = None" "channels_ep pl d = None" "0 \<le> d"
  shows "\<exists>c. connector_test_main sys pl w err (p, d, e) = Inr (InetAddress_port 9876, c) \<and> cn_inv sys c \<and> connect_flag c \<and>
    (if e \<in> set in_progress_errnos then cn_state c = Connecting \<and> attempt c = [d]
     else cn_state c = Disconnected \<and> closedSocks c = [d] \<and> liveTimers c = (if e \<in> set retry_errnos then [0] else []))"
proof -
  obtain c where "start sys (p, d, e) (setNewConnectionCallback (Connector_new pl w err)) = Inr c" "cn_inv sys c" "connect_flag c"
    "if e \<in> set in_progress_errnos then cn_state c = Connecting \<and> attempt c = [d]
     else cn_state c = Disconnected \<and> closedSocks c = [d] \<and> liveTimers c = (if e \<in> set retry_errnos then [0] else [])"
    by (rule connector_starts [OF assms])
  then show ?thesis by (simp add: connector_test_main_def)
qed

theorem connector_test_ends_witness:
  "\<exists>(c :: (nat, fd \<rightharpoonup> epoll_event) connector) c1 c2. connector_test_main sample_sys (EPoller_new 0 Map.empty) 2 3 (8, 5, 115) = Inr (InetAddress_port 9876, c) \<and>
     connector_test_writable sample_sys 0 None other_addr (c, [], functor_queue_new :: nat functor_queue) = Inr (c1, [''connected'' @ newline], quit True functor_queue_new) \<and>
     resetChannel c1 = Inr c2 \<and> \<not> isSelfConnect None other_addr"
proof -
  have pl: "chan (EPoller_new 0 Map.empty :: (nat, fd \<rightharpoonup> epoll_event) poller) 8 = None"
    "channels_ep (EPoller_new 0 Map.empty :: (nat, fd \<rightharpoonup> epoll_event) poller) 5 = None" by (simp_all add: EPoller_new_def)
  obtain c :: "(nat, fd \<rightharpoonup> epoll_event) connector" where c: "start sample_sys (8, 5, 115) (setNewConnectionCallback (Connector_new (EPoller_new 0 Map.empty) 2 3)) = Inr c"
    "cn_inv sample_sys c" "connect_flag c" "cn_state c = Connecting"
    by (rule connector_starts [OF sample_ctl_ok sample_poller pl, of 115 2 3]) (simp_all add: in_progress_errnos_def)
  have far: "\<not> isSelfConnect None other_addr" by (simp add: isSelfConnect_def getLocalAddr_def getPeerAddr_def sockaddr_zero_def)
  have main: "connector_test_main sample_sys (EPoller_new 0 Map.empty) 2 3 (8, 5, 115) = Inr (InetAddress_port 9876, c)"
    using c(1) by (simp add: connector_test_main_def)
  from connector_test_ends [OF sample_ctl_ok c(2,4,3) far, of "[]" "functor_queue_new :: nat functor_queue"] main far show ?thesis
    unfolding append_Nil by blast
qed

section \<open>A client\<close>

text \<open>\<^verbatim>\<open>testTcpClient.cc\<close>: \<^verbatim>\<open>main\<close> up to the loop, and the callbacks with the lines they print; the name of a connection is an argument.\<close>

definition tclient_main :: "'k epoll_sys \<Rightarrow> ('cb, 'k) poller \<Rightarrow> 'cb \<Rightarrow> 'cb \<Rightarrow> new_socket \<Rightarrow> (sockaddr_in \<times> ('cb, 'k) tcp_client) result" where
  "tclient_main sys pl w e ns =
     (let serverAddr = InetAddress_port 9876; client = TcpClient_new pl w e in
      rbind (client_connect sys ns client) (\<lambda>client. Inr (serverAddr, client)))"

definition tclient_onConnection :: "string \<Rightarrow> sockaddr_in \<Rightarrow> sockaddr_in \<Rightarrow> ('cb, 'k) tcp_connection \<Rightarrow> string" where
  "tclient_onConnection name localAddr peerAddr conn =
     (if conn_state conn = kConnected then
        ''onConnection connection['' @ name @ ''] - from '' @ InetAddress_toHostPort localAddr @ '' to '' @ InetAddress_toHostPort peerAddr
      else ''onConnection connection['' @ name @ ''] is down'')"

definition tclient_onMessage :: "(int \<Rightarrow> tm) \<Rightarrow> string \<Rightarrow> timestamp \<Rightarrow> ('cb, 'k) tcp_connection \<Rightarrow> (string list \<times> ('cb, 'k) tcp_connection) result" where
  "tclient_onMessage gmtime name time conn =
     (let line = ''onMessage(): receive '' @ show_nat (unat (readableBytes (inputBuffer conn))) @ '' bytes from connection['' @ name @ ''] at '' @
        toFormattedString gmtime time in
      rbind (retrieveAsString (inputBuffer conn)) (\<lambda>(str, buf).
        Inr ([line, ''onMessage(): ['' @ c_str str @ '']''], conn\<lparr>inputBuffer := buf, consumed := consumed conn @ str\<rparr>)))"

text \<open>After \<^verbatim>\<open>main\<close> the client satisfies the invariant of \<open>TcpClient\<close>, so that it never has more than one open connection.\<close>

theorem tclient_starts:
  fixes pl :: "('cb, 'k) poller"
  assumes "epoll_ctl_ok sys" "ep_inv sys pl" "chan pl p = None" "channels_ep pl d = None" "0 \<le> d"
  shows "\<exists>c. tclient_main sys pl w err (p, d, e) = Inr (InetAddress_port 9876, c) \<and> cl_inv sys c \<and> cl_connect c \<and> \<not> cl_retry c"
proof -
  obtain c where c: "start sys (p, d, e) (setNewConnectionCallback (Connector_new pl w err)) = Inr c" "cn_inv sys c"
    by (rule connector_starts [OF assms])
  let ?c = "(TcpClient_new pl w err)\<lparr>cl_connect := True, cl_connector := c\<rparr>"
  have "handed c = []" using c(1) startInLoop_idle [of sys True "(p, d, e)" _ c]
    by (auto simp: start_def setNewConnectionCallback_def Connector_new_def)
  then have "cl_inv sys ?c" using c(2) by (simp add: cl_inv_def TcpClient_new_def)
  moreover have "tclient_main sys pl w err (p, d, e) = Inr (InetAddress_port 9876, ?c)"
    using c(1) by (simp add: tclient_main_def client_connect_def with_connector_def TcpClient_new_def)
  ultimately show ?thesis by (simp add: TcpClient_new_def)
qed

text \<open>The callback, called by \<^verbatim>\<open>TcpConnection::handleRead\<close> for a block of data, with all lines so far.\<close>

definition tclient_reads :: "'k epoll_sys \<Rightarrow> (int \<Rightarrow> tm) \<Rightarrow> string \<Rightarrow> timestamp \<times> byte list \<Rightarrow>
    string list \<times> ('cb, 'k) tcp_connection \<Rightarrow> (string list \<times> ('cb, 'k) tcp_connection) result" where
  "tclient_reads sys gmtime name block x = (case (block, x) of ((t, d), (lines, conn)) \<Rightarrow>
     rbind (conn_handleRead sys True t (ReadData d) conn) (\<lambda>conn.
     if d \<noteq> [] \<and> hasMessageCallback conn then
       rbind (tclient_onMessage gmtime name t conn) (\<lambda>(new, conn). Inr (lines @ new, conn))
     else Inr (lines, conn)))"

definition block_lines :: "(int \<Rightarrow> tm) \<Rightarrow> string \<Rightarrow> timestamp \<times> byte list \<Rightarrow> string list" where
  "block_lines gmtime name block = (case block of (t, d) \<Rightarrow>
     [''onMessage(): receive '' @ show_nat (length d) @ '' bytes from connection['' @ name @ ''] at '' @ toFormattedString gmtime t,
      ''onMessage(): ['' @ c_str d @ '']''])"

lemma tclient_block:
  assumes room: "room_for 1024 (inputBuffer c)" "readable (inputBuffer c) = []" "hasMessageCallback c" and d: "d \<noteq> []" "length d \<le> 1024"
  obtains b cs where "tclient_reads sys gmtime name (t, d) (lines, c) = Inr (lines @ block_lines gmtime name (t, d),
      c\<lparr>inputBuffer := b, received := received c @ d, calls := cs, consumed := consumed c @ d\<rparr>)"
    "room_for 1024 b" "readable b = []"
proof -
  obtain b cs where b: "conn_handleRead sys True t (ReadData d) c = Inr (c\<lparr>inputBuffer := b, received := received c @ d, calls := cs\<rparr>)"
    "room_for 1024 b" "readable b = readable (inputBuffer c) @ d"
    by (rule conn_handleRead_room [OF room(1) _ d(1)]) (use room(2) d(2) in auto)
  obtain b' where b': "retrieveAsString b = Inr (readable b, b')" "room_for 1024 b'" "readable b' = []" by (rule retrieveAsString_room [OF b(2)])
  have len: "unat (readableBytes b) = length d" using length_readable [OF room_forD(1) [OF b(2)]] b(3) room(2) by simp
  show ?thesis
    by (rule that [OF _ b'(2,3), of cs]) (use b b' len room d in \<open>simp add: tclient_reads_def tclient_onMessage_def block_lines_def Let_def\<close>)
qed

text \<open>
  The client prints what it receives: for blocks of up to 1024 bytes, in any number, it prints the length and the text of each, in order and
  without a fault; everything received was taken out of the buffer, and nothing is sent.
\<close>

theorem client_test_prints:
  assumes "ready sys c" "\<forall>(t, d) \<in> set blocks. d \<noteq> [] \<and> length d \<le> 1024"
  shows "\<exists>c'. rfold (tclient_reads sys gmtime name) blocks ([], c) = Inr (concat (map (block_lines gmtime name) blocks), c') \<and>
    consumed c' = concat (map snd blocks) \<and> received c' = concat (map snd blocks) \<and> readable (inputBuffer c') = [] \<and> wire c' = []"
proof -
  let ?I = "\<lambda>c. room_for 1024 (inputBuffer c) \<and> readable (inputBuffer c) = [] \<and> hasMessageCallback c \<and> wire c = []"
  have "\<exists>c'. rfold (tclient_reads sys gmtime name) blocks (lines, c) = Inr (lines @ concat (map (block_lines gmtime name) blocks), c') \<and> ?I c' \<and>
      consumed c' = consumed c @ concat (map snd blocks) \<and> received c' = received c @ concat (map snd blocks)" if "?I c" for c lines
    using that assms(2)
  proof (induction blocks arbitrary: c lines)
    case (Cons x xs)
    obtain t d where x: "x = (t, d)" by (cases x)
    let ?lines = "lines @ block_lines gmtime name (t, d)"
    obtain b cs where "tclient_reads sys gmtime name (t, d) (lines, c) = Inr (?lines,
        c\<lparr>inputBuffer := b, received := received c @ d, calls := cs, consumed := consumed c @ d\<rparr>)" "room_for 1024 b" "readable b = []"
      by (rule tclient_block [of c d sys gmtime name t lines]) (use Cons.prems x in auto)
    with Cons.IH [of "c\<lparr>inputBuffer := b, received := received c @ d, calls := cs, consumed := consumed c @ d\<rparr>" ?lines] Cons.prems x
    show ?case by auto
  qed simp
  from this [of c "[]"] assms(1) show ?thesis by (auto simp: ready_defs conn_inv_def streams_ok_def)
qed

theorem client_test_prints_witness:
  "\<exists>(c :: (nat, fd \<rightharpoonup> epoll_event) tcp_connection) c'. ready sample_sys c \<and>
     rfold (tclient_reads sample_sys g n) [(invalid, [72, 105]), (invalid, [33])] ([], c) =
       Inr (concat (map (block_lines g n) [(invalid, [72, 105]), (invalid, [33])]), c') \<and> consumed c' = [72, 105, 33]"
proof -
  obtain c :: "(nat, fd \<rightharpoonup> epoll_event) tcp_connection" where c: "ready sample_sys c" using sample_ready by blast
  have "\<forall>(t, d) \<in> set [(invalid, [72, 105]), (invalid, [33 :: byte])]. d \<noteq> [] \<and> length d \<le> 1024" by simp
  from client_test_prints [OF c this, where gmtime = g and name = n] c show ?thesis by auto
qed

end
