(* ===== verification/PingPong.thy ===== *)
theory PingPong
  imports Connection_Capacity Atomic
begin

text \<open>
  The ping-pong programs: \<^verbatim>\<open>pingPongServer.cc\<close> sends back what it receives, and the sessions of
  \<^verbatim>\<open>pingPongClient.cc\<close> do the same after a first message, counting what they read. Their callbacks
  are run where the connection calls them: reading from the socket, then the message callback.
\<close>

section \<open>Server\<close>

text \<open>\<^verbatim>\<open>onConnection\<close> only sets a socket option.\<close>

definition pp_onConnection :: "('cb, 'k) tcp_connection \<Rightarrow> ('cb, 'k) tcp_connection result" where
  "pp_onConnection s = Inr s"

definition pp_onMessage :: "'k epoll_sys \<Rightarrow> syswrite \<Rightarrow> ('cb, 'k) tcp_connection \<Rightarrow> ('cb, 'k) tcp_connection result" where
  "pp_onMessage sys w s =
     rbind (retrieveAsString (inputBuffer s)) (\<lambda>(str, b).
       conn_send sys True w str (s\<lparr>inputBuffer := b, consumed := consumed s @ str\<rparr>))"

text \<open>
  The events of a connection of the server: data, end of file or an error from the peer, with what
  \<^verbatim>\<open>write\<close> answers when the reply is sent, and room to write.
\<close>

datatype pp_event = PeerSends timestamp sysread syswrite | RoomToWrite syswrite

fun pp_step :: "'k epoll_sys \<Rightarrow> pp_event \<Rightarrow> ('cb, 'k) tcp_connection \<Rightarrow> ('cb, 'k) tcp_connection result" where
  "pp_step sys (PeerSends t r w) s = rbind (conn_handleRead sys True t r s) (\<lambda>s1.
     if received_bytes r \<noteq> [] \<and> hasMessageCallback s1 then pp_onMessage sys w s1 else Inr s1)"
| "pp_step sys (RoomToWrite w) s = conn_handleWrite sys True w s"

text \<open>What \<^verbatim>\<open>read\<close> and \<^verbatim>\<open>write\<close> promise for these events.\<close>

fun pp_event_ok :: "pp_event \<Rightarrow> ('cb, 'k) tcp_connection \<Rightarrow> bool" where
  "pp_event_ok (PeerSends t r w) s = (length (received_bytes r) \<le> max_size \<and> write_ok (length (received_bytes r)) w)"
| "pp_event_ok (RoomToWrite w) s = write_ok (length (readable (outputBuffer s))) w"

abbreviation pp_events_ok :: "'k epoll_sys \<Rightarrow> pp_event list \<Rightarrow> ('cb, 'k) tcp_connection \<Rightarrow> bool" where
  "pp_events_ok sys \<equiv> run_ok pp_event_ok (pp_step sys)"

section \<open>Client\<close>

record ('cb, 'k) session =
  se_conn :: "('cb, 'k) tcp_connection"
  bytesRead :: int
  bytesWritten :: int
  messagesRead :: int

definition Session_new :: "('cb, 'k) tcp_connection \<Rightarrow> ('cb, 'k) session" where
  "Session_new c = \<lparr>se_conn = c, bytesRead = 0, bytesWritten = 0, messagesRead = 0\<rparr>"

definition session_onMessage :: "'k epoll_sys \<Rightarrow> syswrite \<Rightarrow> ('cb, 'k) session \<Rightarrow> ('cb, 'k) session result" where
  "session_onMessage sys w se =
     (let n = int (unat (readableBytes (inputBuffer (se_conn se))));
          se = se\<lparr>messagesRead := i64 (messagesRead se + 1), bytesRead := i64 (bytesRead se + n),
                  bytesWritten := i64 (bytesWritten se + n)\<rparr>
      in rbind (pp_onMessage sys w (se_conn se)) (\<lambda>c. Inr (se\<lparr>se_conn := c\<rparr>)))"

text \<open>The message of a client, from its block size.\<close>

definition client_message :: "nat \<Rightarrow> byte list" where
  "client_message blockSize = map (\<lambda>i. word_of_nat (i mod 128)) [0..<blockSize]"

record pp_client =
  sessionCount :: "32 word"
  numConnected :: "32 word"
  cl_message :: "byte list"
  allConnected :: bool
  totals :: "(int \<times> int) option"
  quitQueued :: nat

definition onConnect :: "pp_client \<Rightarrow> pp_client" where
  "onConnect cl = (let (n, v) = incrementAndGet (numConnected cl) in
     let cl = cl\<lparr>numConnected := v\<rparr> in
     if n = sessionCount cl then cl\<lparr>allConnected := True\<rparr> else cl)"

text \<open>The sums over the sessions, and the functor that quits the loop.\<close>

fun sum_sessions :: "('cb, 'k) session list \<Rightarrow> int \<times> int \<Rightarrow> int \<times> int" where
  "sum_sessions [] acc = acc"
| "sum_sessions (se # ses) (b, m) = sum_sessions ses (i64 (b + bytesRead se), i64 (m + messagesRead se))"

definition onDisconnect :: "('cb, 'k) session list \<Rightarrow> pp_client \<Rightarrow> pp_client" where
  "onDisconnect sessions cl = (let (n, v) = decrementAndGet (numConnected cl) in
     let cl = cl\<lparr>numConnected := v\<rparr> in
     if n = 0 then cl\<lparr>totals := Some (sum_sessions sessions (0, 0)), quitQueued := Suc (quitQueued cl)\<rparr> else cl)"

definition session_onConnection :: "'k epoll_sys \<Rightarrow> syswrite \<Rightarrow> ('cb, 'k) session list \<Rightarrow>
    ('cb, 'k) session \<times> pp_client \<Rightarrow> (('cb, 'k) session \<times> pp_client) result" where
  "session_onConnection sys w sessions x = (case x of (se, cl) \<Rightarrow>
     if conn_state (se_conn se) = kConnected then
       rbind (conn_send sys True w (cl_message cl) (se_conn se)) (\<lambda>c. Inr (se\<lparr>se_conn := c\<rparr>, onConnect cl))
     else Inr (se, onDisconnect sessions cl))"

section \<open>Echo\<close>

definition echo_inv :: "'k epoll_sys \<Rightarrow> byte list \<Rightarrow> ('cb, 'k) tcp_connection \<Rightarrow> bool" where
  "echo_inv sys m s \<longleftrightarrow> conn_inv sys s \<and> conn_state s = kConnected \<and> hasMessageCallback s \<and>
     readable (inputBuffer s) = [] \<and> accepted s = m @ received s"

lemma pp_onMessage_echo:
  assumes sys: "epoll_ctl_ok sys" and inv: "conn_inv sys s" and st: "conn_state s = kConnected"
    and small: "length (readable (inputBuffer s)) \<le> max_size" and w: "write_ok (length (readable (inputBuffer s))) w"
    and run: "pp_onMessage sys w s = Inr s'"
  shows "conn_inv sys s' \<and> conn_state s' = kConnected \<and> accepted s' = accepted s @ readable (inputBuffer s)"
proof -
  have buf: "buf_inv (inputBuffer s)" using inv by (simp add: conn_inv_def streams_ok_def)
  obtain b where b: "retrieveAsString (inputBuffer s) = Inr (readable (inputBuffer s), b)" "buf_inv b" "readable b = []"
    using retrieveAsString_correct [OF buf] by blast
  let ?s = "s\<lparr>inputBuffer := b, consumed := consumed s @ readable (inputBuffer s)\<rparr>"
  have inv': "conn_inv sys ?s" using inv b(2,3) by (auto simp: conn_inv_def streams_ok_def open_ok_def)
  have send: "sendInLoop sys True w (readable (inputBuffer s)) ?s = Inr s'"
    using run b(1) st by (simp add: pp_onMessage_def conn_send_def)
  show ?thesis
    using sendInLoop_inv [OF sys inv' _ _ send] sendInLoop_accepts [OF sys inv' w small send] w small st by simp
qed

lemma pp_onMessage_input:
  assumes "pp_onMessage sys w s = Inr s'" "conn_inv sys s" "conn_state s = kConnected"
  shows "received s' = received s \<and> readable (inputBuffer s') = [] \<and> hasMessageCallback s' = hasMessageCallback s"
proof -
  have buf: "buf_inv (inputBuffer s)" using assms(2) by (simp add: conn_inv_def streams_ok_def)
  obtain b where b: "retrieveAsString (inputBuffer s) = Inr (readable (inputBuffer s), b)" "readable b = []"
    using retrieveAsString_correct [OF buf] by blast
  with assms show ?thesis
    by (auto simp: pp_onMessage_def conn_send_def input_side_def dest!: sendInLoop_input_side)
qed

lemma pp_step_inv:
  assumes sys: "epoll_ctl_ok sys" and inv: "echo_inv sys m s" and ok: "pp_event_ok ev s" and run: "pp_step sys ev s = Inr s'"
  shows "echo_inv sys m s'"
proof -
  have conn: "conn_inv sys s" "conn_state s = kConnected" and cb: "hasMessageCallback s"
    and empty: "readable (inputBuffer s) = []" and acc: "accepted s = m @ received s"
    using inv by (simp_all add: echo_inv_def)
  show ?thesis
  proof (cases ev)
    case (PeerSends t r w)
    then obtain s1 where s1: "conn_handleRead sys True t r s = Inr s1" using run by auto
    have small: "length (received_bytes r) \<le> max_size" "write_ok (length (received_bytes r)) w"
      using ok PeerSends by auto
    note R = conn_handleRead_fields [OF sys conn(1) small(1) s1]
    have inv1: "conn_inv sys s1" by (rule conn_handleRead_inv [OF sys conn(1) small(1) s1])
    show ?thesis
    proof (cases "received_bytes r = []")
      case True
      then have "s' = s1" using run PeerSends s1 by simp
      with R True inv1 conn cb empty acc show ?thesis by (simp add: echo_inv_def)
    next
      case False
      then have msg: "pp_onMessage sys w s1 = Inr s'" using run PeerSends s1 R cb by simp
      have st1: "conn_state s1 = kConnected" using R conn by simp
      have read: "readable (inputBuffer s1) = received_bytes r" using R empty by simp
      show ?thesis
        using pp_onMessage_echo [OF sys inv1 st1 _ _ msg] pp_onMessage_input [OF msg inv1 st1] R cb acc small
        unfolding read by (simp add: echo_inv_def)
    qed
  next
    case (RoomToWrite w)
    then have w: "conn_handleWrite sys True w s = Inr s'" "write_ok (length (readable (outputBuffer s))) w"
      using run ok by auto
    have "conn_inv sys s'" using conn_handleWrite_ok [OF sys conn(1) w(2)] w(1) by auto
    then show ?thesis
      using conn_handleWrite_fields [OF sys conn(1) w(1)] handleWrite_input_side [OF w(1)] conn cb empty acc
      by (simp add: echo_inv_def input_side_def)
  qed
qed

interpretation pp: machine "pp_step sys" pp_event_ok "\<lambda>s. epoll_ctl_ok sys \<and> echo_inv sys m s" for sys m
  by unfold_locales (use pp_step_inv in blast)

text \<open>The counter of a session is the number of bytes it has received, while that fits.\<close>

lemma session_counts:
  assumes "session_onMessage sys w se = Inr se'" "conn_inv sys (se_conn se)" "conn_state (se_conn se) = kConnected"
    and "bytesRead se = int (length (consumed (se_conn se)))" "in_i64 (int (length (received (se_conn se))))"
  shows "bytesRead se' = int (length (received (se_conn se)))"
proof -
  have buf: "buf_inv (inputBuffer (se_conn se))"
    and rec: "consumed (se_conn se) @ readable (inputBuffer (se_conn se)) = received (se_conn se)"
    using assms(2) by (simp_all add: conn_inv_def streams_ok_def)
  have "length (received (se_conn se)) = length (consumed (se_conn se)) + unat (readableBytes (inputBuffer (se_conn se)))"
    unfolding length_readable [OF buf, symmetric] using arg_cong [OF rec, of length] by simp
  then show ?thesis using assms(1,4,5) by (auto simp: session_onMessage_def Let_def i64_id)
qed

text \<open>
  C12. The ping-pong server echoes: however the peer cuts its data into pieces and however much the
  kernel takes of each write, as long as the process does not abort, the bytes handed to the kernel
  followed by those still waiting in the output buffer are exactly the bytes received, in order,
  and nothing stays behind in the input buffer.
\<close>

theorem echo_exact:
  assumes "epoll_ctl_ok sys" "conn_inv sys s" "conn_state s = kConnected" "hasMessageCallback s"
    and "received s = []" "accepted s = []" "readable (inputBuffer s) = []"
    and "pp_events_ok sys evs s" "rfold (pp_step sys) evs s = Inr s'"
  shows "wire s' @ readable (outputBuffer s') = received s' \<and> readable (inputBuffer s') = []"
proof -
  have "echo_inv sys [] s" using assms by (simp add: echo_inv_def)
  then have "echo_inv sys [] s'" using pp.run_inv [of sys "[]" s evs s'] assms by blast
  then show ?thesis by (simp add: echo_inv_def conn_inv_def streams_ok_def)
qed

lemma established_fields:
  "connectEstablished sys b s = Inr s' \<Longrightarrow> input_side s' = input_side s"
  by (auto simp: connectEstablished_def connectionCallback_def input_side_def
      dest!: request_input_side [unfolded input_side_def])

lemma sample_echo_start:
  obtains s where "connectEstablished sample_sys True sample_conn = Inr s" "echo_inv sample_sys [] s" "accepted s = []"
    "\<not> writing s" "outputBuffer s = sample_buffer" "inputBuffer s = sample_buffer"
proof -
  obtain s where s: "connectEstablished sample_sys True sample_conn = Inr s" "conn_inv sample_sys s" "conn_state s = kConnected"
    "outputBuffer s = sample_buffer" "inputBuffer s = sample_buffer" "\<not> writing s" "accepted s = []"
    using sample_established by blast
  have "received s = []" "hasMessageCallback s"
    using established_fields [OF s(1)] by (simp_all add: input_side_def sample_conn_defs)
  then show ?thesis using that [OF s(1)] s by (simp add: echo_inv_def sample_buffer_empty)
qed

theorem echo_exact_witness:
  "\<exists>s s'. connectEstablished sample_sys True sample_conn = Inr s \<and>
     rfold (pp_step sample_sys) [PeerSends (Timestamp 0) (ReadData [7, 8]) (Wrote 2)] s = Inr s' \<and>
     wire s' @ readable (outputBuffer s') = [7, 8]"
proof -
  obtain s where s: "connectEstablished sample_sys True sample_conn = Inr s" "echo_inv sample_sys [] s" "accepted s = []"
    "\<not> writing s" "outputBuffer s = sample_buffer" "inputBuffer s = sample_buffer"
    by (rule sample_echo_start)
  have inv: "conn_inv sample_sys s" "conn_state s = kConnected" "hasMessageCallback s" "received s = []"
    "readable (inputBuffer s) = []" using s(2,3) by (auto simp: echo_inv_def)
  let ?r = "ReadData [7, 8]"
  have buf: "buf_inv sample_buffer" using inv(1) s(6) by (simp add: conn_inv_def streams_ok_def)
  have "readFd_ok ?r sample_buffer" "length [7 :: byte, 8] \<le> max_size"
    by (simp_all add: readFd_ok_def sample_buffer_def writableBytes_def size_of_def max_size_def)
  then obtain b where b: "readFd ?r sample_buffer = Inr (2, 0, b)" "buf_inv b" "readable b = [7, 8]"
    using readFd_correct [OF buf, of "[7, 8]"] by (auto simp: sample_buffer_empty)
  obtain s1 where s1: "conn_handleRead sample_sys True (Timestamp 0) ?r s = Inr s1"
      "inputBuffer s1 = b" "outputBuffer s1 = sample_buffer" "\<not> writing s1"
    using b(1) s inv(3) by (simp add: conn_handleRead_def Let_def)
  have inv1: "conn_inv sample_sys s1" "conn_state s1 = kConnected" "hasMessageCallback s1" "received s1 = [7, 8]"
    using conn_handleRead_inv [OF sample_ctl_ok inv(1) _ s1(1)] conn_handleRead_fields [OF sample_ctl_ok inv(1) _ s1(1)] inv
    by (simp_all add: received_bytes_def max_size_def)
  obtain b' where b': "retrieveAsString b = Inr ([7, 8], b')" "buf_inv b'" "readable b' = []"
    using retrieveAsString_correct [OF b(2)] b(3) by auto
  let ?s1 = "s1\<lparr>inputBuffer := b', consumed := consumed s1 @ [7, 8]\<rparr>"
  have "conn_inv sample_sys ?s1"
    using inv1(1) s1(2) b(3) b' by (auto simp: conn_inv_def streams_ok_def open_ok_def)
  then obtain s' where s': "conn_send sample_sys True (Wrote 2) [7, 8] ?s1 = Inr s'"
    using send_all_at_once [of sample_sys ?s1 "[7, 8]"] inv1(2) s1(3,4) sample_buffer_empty by (auto simp: numeral_2_eq_2)
  have run: "rfold (pp_step sample_sys) [PeerSends (Timestamp 0) ?r (Wrote 2)] s = Inr s'"
    using s1(1,2) s' b'(1) inv1(3) by (simp add: pp_onMessage_def received_bytes_def)
  have ok: "pp_events_ok sample_sys [PeerSends (Timestamp 0) ?r (Wrote 2)] s"
    by (simp add: received_bytes_def max_size_def write_ok_def split: sum.split)
  have "received s' = [7, 8]"
    using sendInLoop_input_side s' inv1(2,4) by (fastforce simp: conn_send_def input_side_def)
  then show ?thesis
    using echo_exact [OF sample_ctl_ok inv(1-4) s(3) inv(5) ok run] s(1) run by metis
qed

end
