(* ===== verification/PingPong_System.thy ===== *)
theory PingPong_System
  imports PingPong
begin

text \<open>
  A session of the ping-pong client and its connection in the ping-pong server, joined by a network.
  Each side runs its own callbacks on its own connection. The network is TCP: what one side
  reads are the next bytes of what the kernel of the other side has taken, in any pieces and with
  any delay.
\<close>

section \<open>The two processes\<close>

record ('cb, 'k) pp_system =
  pp_session :: "('cb, 'k) session"
  pp_server :: "('cb, 'k) tcp_connection"

text \<open>Data arrives at a session: \<^verbatim>\<open>TcpConnection::handleRead\<close> and the message callback it calls.\<close>

definition session_reads :: "'k epoll_sys \<Rightarrow> timestamp \<Rightarrow> byte list \<Rightarrow> syswrite \<Rightarrow> ('cb, 'k) session \<Rightarrow> ('cb, 'k) session result" where
  "session_reads sys t d w se =
     rbind (conn_handleRead sys True t (ReadData d) (se_conn se)) (\<lambda>c.
       let se = se\<lparr>se_conn := c\<rparr> in
       if d \<noteq> [] \<and> hasMessageCallback c then session_onMessage sys w se else Inr se)"

definition session_writes :: "'k epoll_sys \<Rightarrow> syswrite \<Rightarrow> ('cb, 'k) session \<Rightarrow> ('cb, 'k) session result" where
  "session_writes sys w se = rbind (conn_handleWrite sys True w (se_conn se)) (\<lambda>c. Inr (se\<lparr>se_conn := c\<rparr>))"

datatype net_event =
    ClientReads timestamp "byte list" syswrite
  | ServerReads timestamp "byte list" syswrite
  | ClientRoom syswrite
  | ServerRoom syswrite

fun net_step :: "'k epoll_sys \<Rightarrow> net_event \<Rightarrow> ('cb, 'k) pp_system \<Rightarrow> ('cb, 'k) pp_system result" where
  "net_step sys (ClientReads t d w) s = rbind (session_reads sys t d w (pp_session s)) (\<lambda>se. Inr (s\<lparr>pp_session := se\<rparr>))"
| "net_step sys (ServerReads t d w) s = rbind (pp_step sys (PeerSends t (ReadData d) w) (pp_server s)) (\<lambda>c. Inr (s\<lparr>pp_server := c\<rparr>))"
| "net_step sys (ClientRoom w) s = rbind (session_writes sys w (pp_session s)) (\<lambda>se. Inr (s\<lparr>pp_session := se\<rparr>))"
| "net_step sys (ServerRoom w) s = rbind (pp_step sys (RoomToWrite w) (pp_server s)) (\<lambda>c. Inr (s\<lparr>pp_server := c\<rparr>))"

text \<open>
  What the network and the two kernels promise: bytes arrive in order, none is made up, and \<^verbatim>\<open>write\<close> takes at
  most what it is given.
\<close>

abbreviation client_conn :: "('cb, 'k) pp_system \<Rightarrow> ('cb, 'k) tcp_connection" where
  "client_conn s \<equiv> se_conn (pp_session s)"

fun net_ok :: "net_event \<Rightarrow> ('cb, 'k) pp_system \<Rightarrow> bool" where
  "net_ok (ClientReads t d w) s = (d \<noteq> [] \<and> prefix (received (client_conn s) @ d) (wire (pp_server s)) \<and> write_ok (length d) w)"
| "net_ok (ServerReads t d w) s = (d \<noteq> [] \<and> prefix (received (pp_server s) @ d) (wire (client_conn s)) \<and> write_ok (length d) w)"
| "net_ok (ClientRoom w) s = write_ok (length (readable (outputBuffer (client_conn s)))) w"
| "net_ok (ServerRoom w) s = write_ok (length (readable (outputBuffer (pp_server s)))) w"

section \<open>Bytes in the loop\<close>

text \<open>Where the bytes are: waiting in a process, or in the network.\<close>

definition to_server :: "('cb, 'k) pp_system \<Rightarrow> byte list" where
  "to_server s = drop (length (received (pp_server s))) (wire (client_conn s))"

definition to_client :: "('cb, 'k) pp_system \<Rightarrow> byte list" where
  "to_client s = drop (length (received (client_conn s))) (wire (pp_server s))"

definition in_loop :: "('cb, 'k) pp_system \<Rightarrow> nat" where
  "in_loop s = length (readable (outputBuffer (client_conn s))) + length (to_server s) +
     length (readable (outputBuffer (pp_server s))) + length (to_client s)"

definition net_inv :: "'k epoll_sys \<Rightarrow> byte list \<Rightarrow> ('cb, 'k) pp_system \<Rightarrow> bool" where
  "net_inv sys m s \<longleftrightarrow> echo_inv sys m (client_conn s) \<and> echo_inv sys [] (pp_server s) \<and>
     \<not> closed (client_conn s) \<and> \<not> closed (pp_server s) \<and>
     prefix (received (pp_server s)) (wire (client_conn s)) \<and> prefix (received (client_conn s)) (wire (pp_server s)) \<and>
     bytesRead (pp_session s) = i64 (int (length (received (client_conn s)))) \<and>
     room_for (length m) (inputBuffer (client_conn s)) \<and> room_for (length m) (outputBuffer (client_conn s)) \<and>
     room_for (length m) (inputBuffer (pp_server s)) \<and> room_for (length m) (outputBuffer (pp_server s))"

lemma echo_streams:
  assumes "echo_inv sys m s"
  shows "wire s @ readable (outputBuffer s) = m @ received s"
  using assms by (simp add: echo_inv_def conn_inv_def streams_ok_def)

lemma prefix_drop: "prefix xs ys \<Longrightarrow> length ys = length xs + length (drop (length xs) ys)"
  using prefix_length_le [of xs ys] by simp

lemma in_loop_message:
  assumes "net_inv sys m s"
  shows "in_loop s = length m"
proof -
  let ?c = "client_conn s" and ?v = "pp_server s"
  have "length (wire ?c) + length (readable (outputBuffer ?c)) = length m + length (received ?c)"
    "length (wire ?v) + length (readable (outputBuffer ?v)) = length (received ?v)"
    using arg_cong [OF echo_streams [of sys m ?c], of length] arg_cong [OF echo_streams [of sys "[]" ?v], of length] assms
    by (simp_all add: net_inv_def)
  moreover have "length (wire ?c) = length (received ?v) + length (to_server s)" "length (wire ?v) = length (received ?c) + length (to_client s)"
    unfolding to_server_def to_client_def using assms by (intro prefix_drop; simp add: net_inv_def)+
  ultimately show ?thesis by (simp add: in_loop_def)
qed

text \<open>A list that starts with a part of itself moved by \<open>m\<close> repeats \<open>m\<close>.\<close>

lemma prefix_powers: "prefix R (m @ R) \<Longrightarrow> prefix R (concat (replicate k m) @ R)"
proof (induction k)
  case (Suc k)
  have "prefix (m @ R) (m @ concat (replicate k m) @ R)" using Suc by simp
  with Suc.prems show ?case by (simp add: prefix_order.trans [OF Suc.prems])
qed simp

lemma prefix_periodic:
  assumes "prefix R (m @ R)" "length R \<le> k * length m"
  shows "prefix R (concat (replicate k m))"
proof -
  have "length (concat (replicate k m)) = k * length m" by (induction k) simp_all
  then have "prefix (concat (replicate k m)) (concat (replicate k m) @ R) \<and> length R \<le> length (concat (replicate k m))"
    using assms(2) by simp
  then show ?thesis using prefix_powers [OF assms(1), of k] prefix_length_prefix by blast
qed

lemma client_stream_periodic:
  assumes "net_inv sys m s"
  shows "prefix (received (client_conn s)) (m @ received (client_conn s))"
proof -
  let ?c = "client_conn s" and ?v = "pp_server s"
  have "prefix (received ?c) (wire ?v)" "prefix (received ?v) (wire ?c)" using assms by (simp_all add: net_inv_def)
  moreover have "prefix (wire ?v) (received ?v)" "prefix (wire ?c) (m @ received ?c)"
    using assms echo_streams [of sys m ?c] echo_streams [of sys "[]" ?v] by (metis append_Nil net_inv_def prefixI)+
  ultimately show ?thesis by (meson prefix_order.trans)
qed

section \<open>Steps\<close>

text \<open>One side reads a block and sends it back.\<close>

lemma echo_reads:
  assumes sys: "epoll_ctl_ok sys" and inv: "echo_inv sys m c" and open_conn: "\<not> closed c"
    and room: "room_for N (inputBuffer c)" "room_for N (outputBuffer c)"
    and d: "d \<noteq> []" "write_ok (length d) w" "length (readable (outputBuffer c)) + length d \<le> N"
  obtains c1 c' where "conn_handleRead sys True t (ReadData d) c = Inr c1" "hasMessageCallback c1"
    "unat (readableBytes (inputBuffer c1)) = length d" "pp_onMessage sys w c1 = Inr c'"
    "echo_inv sys m c'" "\<not> closed c'" "prefix (wire c) (wire c')" "received c' = received c @ d"
    "room_for N (inputBuffer c')" "room_for N (outputBuffer c')"
proof -
  have c: "conn_inv sys c" "conn_state c = kConnected" "hasMessageCallback c" "readable (inputBuffer c) = []"
    using inv by (simp_all add: echo_inv_def)
  obtain b cs where b: "conn_handleRead sys True t (ReadData d) c = Inr (c\<lparr>inputBuffer := b, received := received c @ d, calls := cs\<rparr>)"
    "room_for N b" "readable b = d"
    by (rule conn_handleRead_room [OF room(1) _ d(1)]) (use c(4) d(3) in auto)
  let ?c1 = "c\<lparr>inputBuffer := b, received := received c @ d, calls := cs\<rparr>"
  have small: "length d \<le> max_size" using d(3) room_forD(4) [OF room(1)] by simp
  have inv1: "conn_inv sys ?c1" by (rule conn_handleRead_inv [OF sys c(1) _ b(1)]) (simp add: received_bytes_def small)
  obtain b' where b': "retrieveAsString b = Inr (d, b')" "room_for N b'" "readable b' = []"
    using retrieveAsString_room [OF b(2)] b(3) by metis
  let ?c2 = "?c1\<lparr>inputBuffer := b', consumed := consumed ?c1 @ d\<rparr>"
  have inv2: "conn_inv sys ?c2"
    using inv1 b(3) b' room_forD(1) [OF b'(2)] by (auto simp: conn_inv_def streams_ok_def open_ok_def)
  obtain c' where c': "sendInLoop sys True w d ?c2 = Inr c'" "room_for N (outputBuffer c')"
    by (rule sendInLoop_room [OF sys inv2, of N d w]) (use room(2) d in auto)
  have msg: "pp_onMessage sys w ?c1 = Inr c'" using c'(1) b'(1) c(2) by (simp add: pp_onMessage_def conn_send_def)
  have step: "pp_step sys (PeerSends t (ReadData d) w) c = Inr c'" using b(1) msg c(3) d(1) by (simp add: received_bytes_def)
  have echo: "echo_inv sys m c'"
    by (rule pp_step_inv [OF sys inv _ step]) (simp add: received_bytes_def small d(2))
  have side: "received c' = received c @ d" "inputBuffer c' = b'"
    using sendInLoop_input_side [OF c'(1)] by (simp_all add: input_side_def)
  have "unat (readableBytes b) = length d" using length_readable [OF room_forD(1) [OF b(2)]] b(3) by simp
  then show ?thesis
    using that [OF b(1) _ _ msg echo _ _ side(1) _ c'(2)] sendInLoop_wire [OF c'(1)] open_conn c(3) b'(2) side(2) by simp
qed

lemma echo_writes:
  assumes sys: "epoll_ctl_ok sys" and inv: "echo_inv sys m c" and open_conn: "\<not> closed c"
    and room: "room_for N (inputBuffer c)" "room_for N (outputBuffer c)" and w: "write_ok (length (readable (outputBuffer c))) w"
  obtains c' where "conn_handleWrite sys True w c = Inr c'" "echo_inv sys m c'" "\<not> closed c'" "prefix (wire c) (wire c')"
    "received c' = received c" "room_for N (inputBuffer c')" "room_for N (outputBuffer c')"
proof -
  have c: "conn_inv sys c" using inv by (simp add: echo_inv_def)
  obtain c' where c': "conn_handleWrite sys True w c = Inr c'" using conn_handleWrite_ok [OF sys c w] by blast
  have "echo_inv sys m c'" using pp_step_inv [OF sys inv, of "RoomToWrite w" c'] w c' by simp
  then show ?thesis
    using that c' handleWrite_wire [OF c'] open_conn handleWrite_input_side [OF c'] room handleWrite_keeps_room [OF c' room(2)]
    by (auto simp: input_side_def)
qed

lemma i64_add: "i64 (i64 x + y) = i64 (x + y)"
  by (simp add: i64_def mod_simps algebra_simps)

text \<open>The facts of the invariant, as the steps use them.\<close>

lemma net_invD:
  assumes "net_inv sys m s"
  shows "echo_inv sys m (client_conn s)" "\<not> closed (client_conn s)" "room_for (length m) (inputBuffer (client_conn s))"
      "room_for (length m) (outputBuffer (client_conn s))"
    "echo_inv sys [] (pp_server s)" "\<not> closed (pp_server s)" "room_for (length m) (inputBuffer (pp_server s))"
      "room_for (length m) (outputBuffer (pp_server s))"
    "prefix (received (pp_server s)) (wire (client_conn s))" "prefix (received (client_conn s)) (wire (pp_server s))"
    "bytesRead (pp_session s) = i64 (int (length (received (client_conn s))))"
  using assms by (simp_all add: net_inv_def)

lemma client_step_total:
  assumes sys: "epoll_ctl_ok sys" and inv: "net_inv sys m s" and ok: "net_ok ev s" and ev: "(\<exists>t d w. ev = ClientReads t d w) \<or> (\<exists>w. ev = ClientRoom w)"
  shows "\<exists>s'. net_step sys ev s = Inr s' \<and> net_inv sys m s'"
proof -
  let ?c = "client_conn s" and ?v = "pp_server s" and ?N = "length m"
  note D = net_invD [OF inv]
  note C = D(1-4) and V = D(5-8) and net = D(9,10) and count = D(11)
  have total: "in_loop s = ?N" by (rule in_loop_message [OF inv])
  show ?thesis
  proof (cases ev)
    case (ClientReads t d w)
    then have d: "d \<noteq> []" "prefix (received ?c @ d) (wire ?v)" "write_ok (length d) w" using ok by simp_all
    have "length d \<le> length (to_client s)" using prefix_length_le [OF d(2)] by (simp add: to_client_def)
    then have fits: "length (readable (outputBuffer ?c)) + length d \<le> ?N" using total by (simp add: in_loop_def)
    obtain c1 c' where c': "conn_handleRead sys True t (ReadData d) ?c = Inr c1" "hasMessageCallback c1"
      "unat (readableBytes (inputBuffer c1)) = length d" "pp_onMessage sys w c1 = Inr c'"
      "echo_inv sys m c'" "\<not> closed c'" "prefix (wire ?c) (wire c')" "received c' = received ?c @ d"
      "room_for ?N (inputBuffer c')" "room_for ?N (outputBuffer c')"
      by (rule echo_reads [OF sys C d(1,3) fits])
    obtain se where se: "session_reads sys t d w (pp_session s) = Inr se" "se_conn se = c'"
      "bytesRead se = i64 (bytesRead (pp_session s) + int (length d))"
      using c'(1-4) d(1) by (simp add: session_reads_def session_onMessage_def Let_def)
    have "bytesRead se = i64 (int (length (received c')))" using se(3) count c'(8) by (simp add: i64_add)
    then show ?thesis
      using ClientReads se c' V net(1) d(2) by (auto simp: net_inv_def intro: prefix_order.trans)
  next
    case (ClientRoom w)
    then obtain c' where c': "conn_handleWrite sys True w ?c = Inr c'" "echo_inv sys m c'" "\<not> closed c'" "prefix (wire ?c) (wire c')"
      "received c' = received ?c" "room_for ?N (inputBuffer c')" "room_for ?N (outputBuffer c')"
      using echo_writes [OF sys C] ok by auto
    then show ?thesis
      using ClientRoom V net count by (auto simp: net_inv_def session_writes_def intro: prefix_order.trans)
  qed (use ev in simp_all)
qed

lemma server_step_total:
  assumes sys: "epoll_ctl_ok sys" and inv: "net_inv sys m s" and ok: "net_ok ev s" and ev: "(\<exists>t d w. ev = ServerReads t d w) \<or> (\<exists>w. ev = ServerRoom w)"
  shows "\<exists>s'. net_step sys ev s = Inr s' \<and> net_inv sys m s'"
proof -
  let ?c = "client_conn s" and ?v = "pp_server s" and ?N = "length m"
  note D = net_invD [OF inv]
  note C = D(1-4) and V = D(5-8) and net = D(9,10) and count = D(11)
  have total: "in_loop s = ?N" by (rule in_loop_message [OF inv])
  show ?thesis
  proof (cases ev)
    case (ServerReads t d w)
    then have d: "d \<noteq> []" "prefix (received ?v @ d) (wire ?c)" "write_ok (length d) w" using ok by simp_all
    have "length d \<le> length (to_server s)" using prefix_length_le [OF d(2)] by (simp add: to_server_def)
    then have fits: "length (readable (outputBuffer ?v)) + length d \<le> ?N" using total by (simp add: in_loop_def)
    obtain c1 c' where c': "conn_handleRead sys True t (ReadData d) ?v = Inr c1" "hasMessageCallback c1"
      "pp_onMessage sys w c1 = Inr c'" "echo_inv sys [] c'" "\<not> closed c'" "prefix (wire ?v) (wire c')" "received c' = received ?v @ d"
      "room_for ?N (inputBuffer c')" "room_for ?N (outputBuffer c')"
      by (rule echo_reads [OF sys V d(1,3) fits])
    have "pp_step sys (PeerSends t (ReadData d) w) ?v = Inr c'" using c'(1-3) d(1) by (simp add: received_bytes_def)
    then show ?thesis
      using ServerReads c' C net(2) d(2) count by (auto simp: net_inv_def simp del: pp_step.simps intro: prefix_order.trans)
  next
    case (ServerRoom w)
    then obtain c' where c': "conn_handleWrite sys True w ?v = Inr c'" "echo_inv sys [] c'" "\<not> closed c'" "prefix (wire ?v) (wire c')"
      "received c' = received ?v" "room_for ?N (inputBuffer c')" "room_for ?N (outputBuffer c')"
      using echo_writes [OF sys V] ok by auto
    then show ?thesis
      using ServerRoom C net count by (auto simp: net_inv_def intro: prefix_order.trans)
  qed (use ev in simp_all)
qed

lemma net_step_total:
  assumes "epoll_ctl_ok sys" "net_inv sys m s" "net_ok ev s"
  shows "\<exists>s'. net_step sys ev s = Inr s' \<and> net_inv sys m s'"
  using client_step_total [OF assms] server_step_total [OF assms] by (cases ev) auto

interpretation nt: total_machine "net_step sys" net_ok "\<lambda>s. epoll_ctl_ok sys \<and> net_inv sys m s" for sys m
proof unfold_locales
  show "epoll_ctl_ok sys \<and> net_inv sys m s'" if "epoll_ctl_ok sys \<and> net_inv sys m s" "net_ok ev s" "net_step sys ev s = Inr s'" for s ev s'
    using net_step_total that by fastforce
  show "\<exists>s'. net_step sys ev s = Inr s'" if "epoll_ctl_ok sys \<and> net_inv sys m s" "net_ok ev s" for s ev
    using net_step_total that by blast
qed

section \<open>The start\<close>

lemma net_start:
  assumes sys: "epoll_ctl_ok sys" and c: "ready sys c" and v: "ready sys v" and m: "length (cl_message cl) \<le> 1024"
    and w: "write_ok (length (cl_message cl)) w"
  obtains se cl' where "session_onConnection sys w sessions (Session_new c, cl) = Inr (se, cl')"
    "net_inv sys (cl_message cl) \<lparr>pp_session = se, pp_server = v\<rparr>"
proof -
  let ?m = "cl_message cl"
  have C: "conn_inv sys c" "conn_state c = kConnected" "\<not> closed c" "room_for 1024 (inputBuffer c)" "room_for 1024 (outputBuffer c)"
    "readable (inputBuffer c) = []" "readable (outputBuffer c) = []" "received c = []" "accepted c = []" "hasMessageCallback c"
    and V: "echo_inv sys [] v" "\<not> closed v" "wire v = []" "received v = []" "room_for 1024 (inputBuffer v)" "room_for 1024 (outputBuffer v)"
    using c v by (simp_all add: ready_defs echo_inv_def)
  obtain c' where c': "sendInLoop sys True w ?m c = Inr c'" "room_for 1024 (outputBuffer c')"
    by (rule sendInLoop_room [OF sys C(1,5) w]) (use C(7) m in simp)
  have small: "length ?m \<le> max_size" using m by (simp add: max_size_def)
  have side: "received c' = []" "inputBuffer c' = inputBuffer c" "hasMessageCallback c'"
    using sendInLoop_input_side [OF c'(1)] C(8,10) by (simp_all add: input_side_def)
  have "echo_inv sys ?m c'" "\<not> closed c'"
    using sendInLoop_inv [OF sys C(1) w small c'(1)] sendInLoop_accepts [OF sys C(1) w small c'(1)] sendInLoop_wire [OF c'(1)] side C
    by (simp_all add: echo_inv_def)
  moreover have "room_for (length ?m) b" if "room_for 1024 b" for b using room_for_mono [OF that m] .
  ultimately have "net_inv sys ?m \<lparr>pp_session = (Session_new c)\<lparr>se_conn := c'\<rparr>, pp_server = v\<rparr>"
    using V C c'(2) side by (simp add: net_inv_def Session_new_def i64_def)
  moreover have "session_onConnection sys w sessions (Session_new c, cl) = Inr ((Session_new c)\<lparr>se_conn := c'\<rparr>, onConnect cl)"
    using c'(1) C(2) by (simp add: session_onConnection_def conn_send_def Session_new_def)
  ultimately show ?thesis using that by blast
qed

section \<open>Progress\<close>

definition moved :: "('cb, 'k) pp_system \<Rightarrow> nat" where
  "moved s = length (wire (client_conn s)) + length (received (pp_server s)) + length (wire (pp_server s)) + length (received (client_conn s))"

lemma net_lengths:
  assumes "net_inv sys m s"
  shows "4 * length (received (client_conn s)) \<le> moved s" "moved s \<le> 4 * length (received (client_conn s)) + 3 * length m"
proof -
  let ?c = "client_conn s" and ?v = "pp_server s"
  have "length (wire ?c) + length (readable (outputBuffer ?c)) = length m + length (received ?c)"
    "length (wire ?v) + length (readable (outputBuffer ?v)) = length (received ?v)"
    using arg_cong [OF echo_streams [of sys m ?c], of length] arg_cong [OF echo_streams [of sys "[]" ?v], of length] assms
    by (simp_all add: net_inv_def)
  moreover have "length (received ?v) \<le> length (wire ?c)" "length (received ?c) \<le> length (wire ?v)"
    using assms by (simp_all add: net_inv_def prefix_length_le)
  ultimately show "4 * length (received ?c) \<le> moved s" "moved s \<le> 4 * length (received ?c) + 3 * length m"
    by (simp_all add: moved_def)
qed

lemma prefix_next: "prefix xs ys \<Longrightarrow> drop (length xs) ys \<noteq> [] \<Longrightarrow> prefix (xs @ [hd (drop (length xs) ys)]) ys"
  by (auto simp: prefix_def neq_Nil_conv)

lemma write_grows:
  assumes "epoll_ctl_ok sys" "echo_inv sys m c" "\<not> closed c" "readable (outputBuffer c) \<noteq> []"
    and "conn_handleWrite sys True (Wrote 1) c = Inr c'"
  shows "length (wire c') = Suc (length (wire c))" "received c' = received c"
proof -
  have c: "conn_inv sys c" "writing c" using assms(2-4) by (auto simp: echo_inv_def conn_inv_def open_ok_def)
  have "write_ok (length (readable (outputBuffer c))) (Wrote 1)" using assms(4) by (cases "readable (outputBuffer c)") (auto simp: write_ok_def)
  then have "wire c' = wire c @ take 1 (readable (outputBuffer c))"
    using conn_handleWrite_ok [OF assms(1) c(1), of "Wrote 1" 1] c(2) assms(5) by auto
  then show "length (wire c') = Suc (length (wire c))" using assms(4) by (cases "readable (outputBuffer c)") simp_all
  show "received c' = received c" using handleWrite_input_side [OF assms(5)] by (simp add: input_side_def)
qed

lemma read_grows:
  assumes "epoll_ctl_ok sys" "conn_inv sys c" "conn_handleRead sys True t (ReadData [x]) c = Inr c1"
    and "pp_onMessage sys w c1 = Inr c'" "conn_state c = kConnected"
  shows "length (received c') = Suc (length (received c))" "length (wire c) \<le> length (wire c')"
proof -
  have "received_bytes (ReadData [x]) = [x]" "length [x] \<le> max_size" by (simp_all add: received_bytes_def max_size_def)
  note small = this
  have r: "received c1 = received c @ [x]" "conn_state c1 = kConnected"
    using conn_handleRead_fields [OF assms(1,2) _ assms(3)] small assms(5) by simp_all
  have inv1: "conn_inv sys c1" using conn_handleRead_inv [OF assms(1,2) _ assms(3)] small by simp
  have w1: "wire c1 = wire c" using assms(3) by (auto simp: conn_handleRead_def received_bytes_def Let_def readFd_def split: if_splits)
  show "length (received c') = Suc (length (received c))" using pp_onMessage_input [OF assms(4) inv1 r(2)] r(1) by simp
  obtain b str where "sendInLoop sys True w str (c1\<lparr>inputBuffer := b, consumed := consumed c1 @ str\<rparr>) = Inr c'"
    using assms(4) r(2) by (auto simp: pp_onMessage_def conn_send_def)
  from sendInLoop_wire [OF this] show "length (wire c) \<le> length (wire c')" using w1 by (auto dest: prefix_length_le)
qed

lemma write_nothing: "write_ok 1 (WriteErr 11)"
  by (simp add: write_ok_def)

lemma write_one: "xs \<noteq> [] \<Longrightarrow> write_ok (length xs) (Wrote 1)"
  by (cases xs) (auto simp: write_ok_def)

lemma client_can_read:
  assumes sys: "epoll_ctl_ok sys" and inv: "net_inv sys m s" and ne: "to_client s \<noteq> []"
  shows "\<exists>ev s'. net_ok ev s \<and> net_step sys ev s = Inr s' \<and> net_inv sys m s' \<and> moved s < moved s'"
proof -
  let ?c = "client_conn s" and ?v = "pp_server s"
  note D = net_invD [OF inv]
  note C = D(1,2) and V = D(5,6) and net = D(9,10)
  have conn: "conn_inv sys ?c" "conn_state ?c = kConnected" "conn_inv sys ?v" "conn_state ?v = kConnected"
    using C(1) V(1) by (simp_all add: echo_inv_def)
  let ?ev = "ClientReads invalid [hd (to_client s)] (WriteErr 11)"
  have ok: "net_ok ?ev s" using prefix_next [OF net(2)] ne write_nothing by (simp add: to_client_def)
  obtain s' where s': "net_step sys ?ev s = Inr s'" "net_inv sys m s'" using net_step_total [OF sys inv ok] by blast
  obtain c1 where c1: "conn_handleRead sys True invalid (ReadData [hd (to_client s)]) ?c = Inr c1"
    using s'(1) by (auto simp: session_reads_def)
  have "hasMessageCallback c1"
    using conn_handleRead_fields [OF sys conn(1) _ c1] C(1) by (simp add: received_bytes_def max_size_def echo_inv_def)
  then have P: "pp_onMessage sys (WriteErr 11) c1 = Inr (client_conn s')" "pp_server s' = ?v"
    using s'(1) c1 by (auto simp: session_reads_def session_onMessage_def Let_def)
  have "moved s < moved s'"
    using read_grows [OF sys conn(1) c1 P(1) conn(2)] P(2) by (simp add: moved_def)
  with ok s' show ?thesis by blast
qed

lemma server_can_read:
  assumes sys: "epoll_ctl_ok sys" and inv: "net_inv sys m s" and ne: "to_server s \<noteq> []"
  shows "\<exists>ev s'. net_ok ev s \<and> net_step sys ev s = Inr s' \<and> net_inv sys m s' \<and> moved s < moved s'"
proof -
  let ?c = "client_conn s" and ?v = "pp_server s"
  note D = net_invD [OF inv]
  note C = D(1,2) and V = D(5,6) and net = D(9,10)
  have conn: "conn_inv sys ?c" "conn_state ?c = kConnected" "conn_inv sys ?v" "conn_state ?v = kConnected"
    using C(1) V(1) by (simp_all add: echo_inv_def)
  let ?ev = "ServerReads invalid [hd (to_server s)] (WriteErr 11)"
  have ok: "net_ok ?ev s" using prefix_next [OF net(1)] ne write_nothing by (simp add: to_server_def)
  obtain s' where s': "net_step sys ?ev s = Inr s'" "net_inv sys m s'" using net_step_total [OF sys inv ok] by blast
  obtain c1 where c1: "conn_handleRead sys True invalid (ReadData [hd (to_server s)]) ?v = Inr c1"
    using s'(1) by auto
  have "hasMessageCallback c1"
    using conn_handleRead_fields [OF sys conn(3) _ c1] V(1) by (simp add: received_bytes_def max_size_def echo_inv_def)
  then have P: "pp_onMessage sys (WriteErr 11) c1 = Inr (pp_server s')" "client_conn s' = ?c"
    using s'(1) c1 by (auto simp: received_bytes_def)
  have "moved s < moved s'"
    using read_grows [OF sys conn(3) c1 P(1) conn(4)] P(2) by (simp add: moved_def)
  with ok s' show ?thesis by blast
qed

lemma client_can_write:
  assumes sys: "epoll_ctl_ok sys" and inv: "net_inv sys m s" and ne: "readable (outputBuffer (client_conn s)) \<noteq> []"
  shows "\<exists>ev s'. net_ok ev s \<and> net_step sys ev s = Inr s' \<and> net_inv sys m s' \<and> moved s < moved s'"
proof -
  let ?c = "client_conn s" and ?v = "pp_server s"
  note D = net_invD [OF inv]
  note C = D(1,2) and V = D(5,6) and net = D(9,10)
  have conn: "conn_inv sys ?c" "conn_state ?c = kConnected" "conn_inv sys ?v" "conn_state ?v = kConnected"
    using C(1) V(1) by (simp_all add: echo_inv_def)
  have ok: "net_ok (ClientRoom (Wrote 1)) s" using write_one [OF ne] by simp
  obtain s' where s': "net_step sys (ClientRoom (Wrote 1)) s = Inr s'" "net_inv sys m s'" using net_step_total [OF sys inv ok] by blast
  then have "conn_handleWrite sys True (Wrote 1) ?c = Inr (client_conn s')" "pp_server s' = ?v" by (auto simp: session_writes_def)
  then have "moved s < moved s'" using write_grows [OF sys C ne] by (simp add: moved_def)
  with ok s' show ?thesis by blast
qed

lemma server_can_write:
  assumes sys: "epoll_ctl_ok sys" and inv: "net_inv sys m s" and ne: "readable (outputBuffer (pp_server s)) \<noteq> []"
  shows "\<exists>ev s'. net_ok ev s \<and> net_step sys ev s = Inr s' \<and> net_inv sys m s' \<and> moved s < moved s'"
proof -
  let ?c = "client_conn s" and ?v = "pp_server s"
  note D = net_invD [OF inv]
  note C = D(1,2) and V = D(5,6) and net = D(9,10)
  have conn: "conn_inv sys ?c" "conn_state ?c = kConnected" "conn_inv sys ?v" "conn_state ?v = kConnected"
    using C(1) V(1) by (simp_all add: echo_inv_def)
  have ok: "net_ok (ServerRoom (Wrote 1)) s" using write_one [OF ne] by simp
  obtain s' where s': "net_step sys (ServerRoom (Wrote 1)) s = Inr s'" "net_inv sys m s'" using net_step_total [OF sys inv ok] by blast
  then have "conn_handleWrite sys True (Wrote 1) ?v = Inr (pp_server s')" "client_conn s' = ?c" by auto
  then have "moved s < moved s'" using write_grows [OF sys V ne] by (simp add: moved_def)
  with ok s' show ?thesis by blast
qed

lemma net_progress:
  assumes "epoll_ctl_ok sys" "net_inv sys m s" "m \<noteq> []"
  shows "\<exists>ev s'. net_ok ev s \<and> net_step sys ev s = Inr s' \<and> net_inv sys m s' \<and> moved s < moved s'"
proof -
  consider "to_client s \<noteq> []" | "to_server s \<noteq> []" | "readable (outputBuffer (client_conn s)) \<noteq> []" | "readable (outputBuffer (pp_server s)) \<noteq> []"
    using in_loop_message [OF assms(2)] assms(3)
    by (cases "to_client s"; cases "to_server s"; cases "readable (outputBuffer (client_conn s))"; cases "readable (outputBuffer (pp_server s))")
      (auto simp: in_loop_def)
  then show ?thesis
    by cases (rule client_can_read server_can_read client_can_write server_can_write, rule assms(1), rule assms(2), assumption)+
qed

lemma net_progress_run:
  assumes sys: "epoll_ctl_ok sys" and inv: "net_inv sys m s" and m: "m \<noteq> []"
  shows "\<exists>evs s'. run_ok net_ok (net_step sys) evs s \<and> rfold (net_step sys) evs s = Inr s' \<and> net_inv sys m s' \<and> moved s + k \<le> moved s'"
  using inv
proof (induction k arbitrary: s)
  case 0
  then show ?case by (intro exI [of _ "[]"] exI [of _ s]) simp
next
  case (Suc k)
  obtain ev s1 where s1: "net_ok ev s" "net_step sys ev s = Inr s1" "net_inv sys m s1" "moved s < moved s1"
    using net_progress [OF sys Suc.prems m] by blast
  obtain evs s' where "run_ok net_ok (net_step sys) evs s1" "rfold (net_step sys) evs s1 = Inr s'" "net_inv sys m s'" "moved s1 + k \<le> moved s'"
    using Suc.IH [OF s1(3)] by blast
  with s1 show ?case by (intro exI [of _ "ev # evs"] exI [of _ s']) simp
qed

section \<open>Properties\<close>


text \<open>A client whose message has two bytes.\<close>

definition sample_pp_client :: pp_client where
  "sample_pp_client = \<lparr>sessionCount = 1, numConnected = 0, cl_message = client_message 2, allConnected = False,
     totals = None, quitQueued = 0\<rparr>"




end
