(* ===== verification/PingPong_Main.thy ===== *)
theory PingPong_Main
  imports PingPong TcpServer TcpClient EventLoop
begin

text \<open>
  The \<^verbatim>\<open>main\<close> functions of \<^verbatim>\<open>pingPongServer.cc\<close> and \<^verbatim>\<open>pingPongClient.cc\<close>, from the command line to the point where the
  loop runs, and what ends the client: its timeout, the number of its open sessions and \<^verbatim>\<open>quit\<close>. The loops of the new
  threads and the answer to \<^verbatim>\<open>listen\<close> are arguments; that \<^verbatim>\<open>setrlimit\<close> may fail is only printed.
\<close>

section \<open>Server\<close>

text \<open>\<^term>\<open>None\<close> is the message about the usage.\<close>

definition server_main :: "addr \<Rightarrow> (int \<Rightarrow> addr) \<Rightarrow> int \<Rightarrow> string list \<Rightarrow> tcp_server option result" where
  "server_main base newLoop r argv =
     (if length argv < 4 then Inr None
      else
        let port = word_of_int (atoi (argv ! 2)); listenAddr = InetAddress_ip (argv ! 1) port;
            threadCount = atoi (argv ! 3); server = TcpServer_new base listenAddr in
        rbind (if threadCount > 1 then sv_setThreadNum threadCount server else Inr server) (\<lambda>server.
        rbind (sv_start True newLoop r server) (\<lambda>server. Inr (Some server))))"

section \<open>Client\<close>

text \<open>
  The loops of the sessions, in the order they are made; a session is started as soon as it exists. The name
  that is formatted for it is not kept.
\<close>

fun make_sessions :: "nat \<Rightarrow> thread_pool \<times> addr list \<Rightarrow> (thread_pool \<times> addr list) result" where
  "make_sessions 0 x = Inr x"
| "make_sessions (Suc k) (tp, ls) = rbind (getNextLoop True tp) (\<lambda>(l, tp). make_sessions k (tp, ls @ [l]))"

record pp_program =
  pr_client :: pp_client
  pr_pool :: thread_pool
  pr_sessions :: "addr list"
  pr_timeout :: int

definition Client_new :: "addr \<Rightarrow> (int \<Rightarrow> addr) \<Rightarrow> int \<Rightarrow> int \<Rightarrow> int \<Rightarrow> int \<Rightarrow> pp_program result" where
  "Client_new base newLoop blockSize sessionNum timeout threadCount =
     (let tp = EventLoopThreadPool_new base; tp = (if threadCount > 1 then tp_setThreadNum threadCount tp else tp) in
      rbind (tp_start True newLoop tp) (\<lambda>tp.
      let message = client_message (nat blockSize) in
      rbind (make_sessions (nat sessionNum) (tp, [])) (\<lambda>(tp, ls).
        Inr \<lparr>pr_client = \<lparr>sessionCount = word_of_int sessionNum, numConnected = atomic_init, cl_message = message,
               allConnected = False, totals = None, quitQueued = 0\<rparr>,
             pr_pool = tp, pr_sessions = ls, pr_timeout = timeout\<rparr>)))"

definition client_main :: "addr \<Rightarrow> (int \<Rightarrow> addr) \<Rightarrow> string list \<Rightarrow> (sockaddr_in \<times> pp_program) option result" where
  "client_main base newLoop argv =
     (if length argv \<noteq> 7 then Inr None
      else
        let port = word_of_int (atoi (argv ! 2)); threadCount = atoi (argv ! 3); blockSize = atoi (argv ! 4);
            sessionNum = atoi (argv ! 5); timeout = atoi (argv ! 6); serverAddr = InetAddress_ip (argv ! 1) port in
        rbind (Client_new base newLoop blockSize sessionNum timeout threadCount) (\<lambda>p. Inr (Some (serverAddr, p))))"

text \<open>A session starts and stops its client. The timer of the client stops every session.\<close>

definition session_start :: "'k epoll_sys \<Rightarrow> new_socket \<Rightarrow> ('cb, 'k) tcp_client \<Rightarrow> ('cb, 'k) tcp_client result" where
  "session_start sys ns client = client_connect sys ns client"

definition session_stop :: "('cb, 'k) tcp_client \<Rightarrow> ('cb, 'k) tcp_client result" where
  "session_stop client = disconnect client"

fun handleTimeout :: "('cb, 'k) tcp_client list \<Rightarrow> ('cb, 'k) tcp_client list result" where
  "handleTimeout [] = Inr []"
| "handleTimeout (c # cs) = rbind (session_stop c) (\<lambda>c. rbind (handleTimeout cs) (\<lambda>cs. Inr (c # cs)))"

text \<open>\<^verbatim>\<open>Client::quit\<close>, run as a functor of some loop: \<open>f\<close> is the functor that calls \<^verbatim>\<open>EventLoop::quit\<close>.\<close>

definition client_quit :: "bool \<Rightarrow> 'f \<Rightarrow> 'f functor_queue \<Rightarrow> 'f functor_queue" where
  "client_quit inLoop f q = queueInLoop inLoop f q"

text \<open>Sessions that connect and disconnect, as the client counts them.\<close>

definition client_event :: "('cb, 'k) session list \<Rightarrow> bool \<Rightarrow> pp_client \<Rightarrow> pp_client" where
  "client_event sessions up cl = (if up then onConnect cl else onDisconnect sessions cl)"

section \<open>Arguments\<close>

text \<open>The arguments for an address, a port in host order and numbers.\<close>

lemma InetAddress_ip_dotted:
  assumes "sin_family a = AF_INET"
  shows "InetAddress_ip (dotted (sin_addr a)) (htons (sin_port a)) = a"
  using assms by (simp add: InetAddress_ip_def fromHostPort_def inet_pton_dotted sockaddr_zero_def hostToNetwork16_def)

lemma atoi_port: "word_of_int (atoi (show_int (uint p))) = (p :: 16 word)"
proof -
  have "- (2 ^ 31) \<le> uint p" by (rule order_trans [OF _ uint_ge_0]) simp
  moreover have "uint p < 2 ^ 31" using uint_lt2p [of p] by simp
  ultimately have "atoi (show_int (uint p)) = uint p" by (rule atoi_show_int)
  then show ?thesis by simp
qed

lemma make_sessions_at:
  assumes "tp_at i tp"
  shows "\<exists>tp'. make_sessions k (tp, ls) = Inr (tp', ls @ map (\<lambda>j. loop_for tp (i + j)) [0..<k]) \<and> tp_at (i + k) tp'"
  using assms
proof (induction k arbitrary: i tp ls)
  case (Suc k)
  obtain n where n: "getNextLoop True tp = Inr (loop_for tp i, tp\<lparr>next_ix := n\<rparr>)" "tp_at (Suc i) (tp\<lparr>next_ix := n\<rparr>)"
    using getNextLoop_at [OF Suc.prems] .
  have "map (\<lambda>j. loop_for tp (i + j)) [0..<Suc k] = loop_for tp i # map (\<lambda>j. loop_for tp (Suc i + j)) [0..<k]"
    by (simp add: map_upt_Suc del: upt_Suc)
  with Suc.IH [OF n(2), of "ls @ [loop_for tp i]"] n(1) show ?case by auto
qed simp

text \<open>How many threads a program starts for an argument.\<close>

definition threads_of :: "int \<Rightarrow> int" where
  "threads_of n = (if n > 1 then n else 0)"

lemma start_pool:
  obtains tp where "tp_start True newLoop (tp_setThreadNum (threads_of n) (EventLoopThreadPool_new base)) = Inr tp" "tp_at 0 tp"
    "loop_for tp = (\<lambda>i. if n \<le> 1 then base else newLoop (int i mod n))"
proof -
  let ?m = "threads_of n"
  have m: "0 \<le> ?m" by (simp add: threads_of_def)
  obtain tp where tp: "tp_start True newLoop (tp_setThreadNum ?m (EventLoopThreadPool_new base)) = Inr tp"
    by (simp add: tp_start_def tp_setThreadNum_def EventLoopThreadPool_new_def)
  note st = tp_start_at [OF tp m]
  have "loop_for tp = (\<lambda>i. if n \<le> 1 then base else newLoop (int i mod n))"
    using st(2,3) by (auto simp: fun_eq_iff loop_for_def threads_of_def nat_mod_distrib zmod_int)
  with that tp st(1) show ?thesis by blast
qed

lemma set_threads_zero: "tp_setThreadNum 0 (EventLoopThreadPool_new base) = EventLoopThreadPool_new base"
  by (simp add: tp_setThreadNum_def EventLoopThreadPool_new_def)

section \<open>Properties\<close>



text \<open>
  The ping-pong client does what its command line says: it connects to the given address, its message has the given number
  of bytes, counting up to 127 and starting again, and it makes the given number of sessions, in the
  base loop or in turn in the loops of its threads if there is more than one.
\<close>

theorem client_main_sessions:
  assumes "sin_family a = AF_INET" "threads < 2 ^ 31" "block < 2 ^ 31" "sessions < 2 ^ 31" "seconds < 2 ^ 31"
  shows "\<exists>p. client_main base newLoop [prog, dotted (sin_addr a), show_int (uint (htons (sin_port a))), show_int (int threads),
      show_int (int block), show_int (int sessions), show_int (int seconds)] = Inr (Some (a, p)) \<and>
    pr_sessions p = map (\<lambda>i. if threads \<le> 1 then base else newLoop (int (i mod threads))) [0..<sessions] \<and>
    cl_message (pr_client p) = map (\<lambda>i. word_of_nat (i mod 128)) [0..<block] \<and> unat (sessionCount (pr_client p)) = sessions \<and>
    numConnected (pr_client p) = 0 \<and> pr_timeout p = int seconds"
proof -
  have n: "atoi (show_int (int k)) = int k" if "k < 2 ^ 31" for k using that by (intro atoi_show_int) simp_all
  obtain tp where tp: "tp_start True newLoop (tp_setThreadNum (threads_of (int threads)) (EventLoopThreadPool_new base)) = Inr tp" "tp_at 0 tp"
    "loop_for tp = (\<lambda>i. if int threads \<le> 1 then base else newLoop (int i mod int threads))" by (rule start_pool)
  obtain tp' where ms: "make_sessions sessions (tp, []) = Inr (tp', map (loop_for tp) [0..<sessions])"
    using make_sessions_at [OF tp(2), of sessions "[]"] by auto
  have "(if int threads > 1 then tp_setThreadNum (int threads) (EventLoopThreadPool_new base) else EventLoopThreadPool_new base) =
      tp_setThreadNum (threads_of (int threads)) (EventLoopThreadPool_new base)" by (simp add: threads_of_def set_threads_zero)
  then obtain p where p: "Client_new base newLoop (int block) (int sessions) (int seconds) (int threads) = Inr p"
    "pr_sessions p = map (loop_for tp) [0..<sessions]" "cl_message (pr_client p) = client_message block"
    "sessionCount (pr_client p) = word_of_int (int sessions)" "numConnected (pr_client p) = 0" "pr_timeout p = int seconds"
    using tp(1) ms by (simp add: Client_new_def Let_def atomic_init_def)
  have main: "client_main base newLoop [prog, dotted (sin_addr a), show_int (uint (htons (sin_port a))), show_int (int threads),
      show_int (int block), show_int (int sessions), show_int (int seconds)] = Inr (Some (a, p))"
    using p(1) assms by (simp add: client_main_def Let_def n atoi_port InetAddress_ip_dotted del: word_of_int_uint)
  have "unat (word_of_int (int sessions) :: 32 word) = sessions" using assms(4) by (simp add: unat_of_nat take_bit_eq_mod)
  moreover have "map (loop_for tp) [0..<sessions] = map (\<lambda>i. if threads \<le> 1 then base else newLoop (int (i mod threads))) [0..<sessions]"
    unfolding tp(3) by (auto simp: zmod_int)
  ultimately show ?thesis using main p by (auto simp: client_message_def)
qed

theorem client_main_sessions_witness:
  "\<exists>p. client_main 1 (\<lambda>i. word_of_int (i + 2)) [''client'', dotted (sin_addr (InetAddress_port 9876)),
      show_int (uint (htons (sin_port (InetAddress_port 9876)))), show_int (int 2), show_int (int 3), show_int (int 4), show_int (int 10)] =
      Inr (Some (InetAddress_port 9876, p)) \<and> pr_sessions p = [2, 3, 2, 3] \<and> cl_message (pr_client p) = [0, 1, 2]"
proof -
  have "sin_family (InetAddress_port 9876) = AF_INET" by (simp add: InetAddress_port_def)
  from client_main_sessions [OF this, of 2 3 4 10 1 "\<lambda>i. word_of_int (i + 2)" "''client''"] show ?thesis by (auto simp: upt_rec)
qed

section \<open>When the client ends\<close>

text \<open>The timeout never faults, and afterwards no session has a connection that still sends, nor reconnects.\<close>

lemma disconnect_ok:
  assumes "cl_inv sys c"
  obtains c' where "disconnect c = Inr c'" "\<not> cl_connect c'" "cl_connection c' = cl_connection c"
    "\<forall>i. cl_connection c' = Some i \<longrightarrow> cc_state (cl_conns c' ! i) \<noteq> kConnected"
proof (cases "cl_connection c")
  case None
  then show ?thesis using that [of "c\<lparr>cl_connect := False\<rparr>"] by (simp add: disconnect_def)
next
  case (Some i)
  then have "i < length (cl_conns c)" using assms by (auto simp: cl_inv_def)
  then show ?thesis using that Some by (auto simp: disconnect_def Let_def split: if_splits)
qed

lemma handleTimeout_all:
  assumes "\<forall>c \<in> set cs. cl_inv sys c"
  shows "\<exists>cs'. handleTimeout cs = Inr cs' \<and> map cl_connection cs' = map cl_connection cs \<and>
    (\<forall>c \<in> set cs'. \<not> cl_connect c \<and> (\<forall>i. cl_connection c = Some i \<longrightarrow> cc_state (cl_conns c ! i) \<noteq> kConnected))"
  using assms
proof (induction cs)
  case (Cons c cs)
  obtain c' where "disconnect c = Inr c'" "\<not> cl_connect c'" "cl_connection c' = cl_connection c"
    "\<forall>i. cl_connection c' = Some i \<longrightarrow> cc_state (cl_conns c' ! i) \<noteq> kConnected"
    by (rule disconnect_ok [of sys c]) (use Cons.prems in auto)
  with Cons show ?case by (auto simp: session_stop_def)
qed simp

text \<open>The number of open sessions before each event, and how often it falls to zero.\<close>

fun level :: "nat \<Rightarrow> bool list \<Rightarrow> nat" where
  "level k [] = k"
| "level k (up # evs) = level (if up then Suc k else k - 1) evs"

fun level_ok :: "nat \<Rightarrow> nat \<Rightarrow> bool list \<Rightarrow> bool" where
  "level_ok n k [] = (k \<le> n)"
| "level_ok n k (up # evs) = (k \<le> n \<and> (up \<or> 0 < k) \<and> level_ok n (if up then Suc k else k - 1) evs)"

fun falls :: "nat \<Rightarrow> bool list \<Rightarrow> nat" where
  "falls k [] = 0"
| "falls k (up # evs) = (if \<not> up \<and> k = 1 then 1 else 0) + falls (if up then Suc k else k - 1) evs"

lemma level_okD: "level_ok n k evs \<Longrightarrow> k \<le> n"
  by (cases evs) auto

lemma client_events_count:
  assumes "level_ok n k evs" "n < 2 ^ 31" "numConnected cl = word_of_nat k"
  shows "numConnected (fold (client_event sessions) evs cl) = word_of_nat (level k evs) \<and>
    quitQueued (fold (client_event sessions) evs cl) = quitQueued cl + falls k evs"
  using assms
proof (induction evs arbitrary: k cl)
  case (Cons up evs)
  have up: "numConnected (onConnect cl) = word_of_nat (Suc k)" "quitQueued (onConnect cl) = quitQueued cl"
    using Cons.prems(3) by (auto simp: onConnect_def incrementAndGet_def addAndGet_def Let_def add.commute)
  show ?case
  proof (cases up)
    case True
    then show ?thesis using Cons.IH [of "Suc k" "onConnect cl"] Cons.prems up by (simp add: client_event_def)
  next
    case False
    then have k: "0 < k" "k - 1 < 2 ^ 32" using Cons.prems(1,2) by auto
    have minus: "(word_of_nat k - 1 :: 32 word) = word_of_nat (k - 1)" using k(1) by (simp add: of_nat_diff)
    have small: "unat (word_of_nat j :: 32 word) = j" if "j < 2 ^ 32" for j using that by (simp add: unat_of_nat take_bit_eq_mod)
    have "(word_of_nat (k - 1) = (0 :: 32 word)) \<longleftrightarrow> unat (word_of_nat (k - 1) :: 32 word) = 0" by (simp only: unat_eq_zero)
    then have "(word_of_nat (k - 1) = (0 :: 32 word)) \<longleftrightarrow> k = 1" unfolding small [OF k(2)] using k(1) by linarith
    then have down: "numConnected (onDisconnect sessions cl) = word_of_nat (k - 1)"
      "quitQueued (onDisconnect sessions cl) = quitQueued cl + (if k = 1 then 1 else 0)"
      using Cons.prems(3) minus by (simp_all add: onDisconnect_def decrementAndGet_def addAndGet_def Let_def)
    then show ?thesis using False Cons.IH [of "k - 1" "onDisconnect sessions cl"] Cons.prems by (simp add: client_event_def)
  qed
qed simp

lemma falls_drain: "falls k (replicate j False) = (if 0 < k \<and> k \<le> j then 1 else 0)"
  by (induction j arbitrary: k) auto

lemma falls_fill: "falls k (replicate n True @ evs) = falls (k + n) evs"
  by (induction n arbitrary: k) simp_all

lemma level_drain: "level_ok n k (replicate i False) \<Longrightarrow> i \<le> k"
  by (induction i arbitrary: k) force+

lemma level_fill: "level_ok n k (replicate i True @ evs) \<Longrightarrow> level_ok n (k + i) evs"
proof (induction i arbitrary: k)
  case (Suc i)
  then show ?case using Suc.IH [of "Suc k"] by simp
qed simp

text \<open>
  When the ping-pong client ends: for every order in which sessions come and go, at most \<open>2 ^ 31 - 1\<close> at a time, the client asks
  its loop to quit exactly each time the number of open sessions falls to zero. So if all \<open>n\<close> sessions connect before the
  first is gone, it quits once, with the last; but a session that is gone before another one connects already ends it.
\<close>

theorem client_quits_when_empty:
  assumes "level_ok n 0 evs" "n < 2 ^ 31" "numConnected cl = 0" "quitQueued cl = 0"
  shows "quitQueued (fold (client_event sessions) evs cl) = falls 0 evs \<and>
    (evs = replicate n True @ replicate j False \<longrightarrow> 0 < n \<longrightarrow>
      quitQueued (fold (client_event sessions) evs cl) = (if j = n then 1 else 0)) \<and>
    (evs = [True, False, True] \<longrightarrow> quitQueued (fold (client_event sessions) evs cl) = 1)"
proof -
  have "level_ok n 0 (replicate n True @ replicate j False) \<Longrightarrow> j \<le> n" using level_fill [of n 0 n] level_drain [of n n j] by simp
  then show ?thesis using client_events_count [of n 0 evs cl sessions] assms by (auto simp: falls_fill falls_drain)
qed

theorem client_quits_when_empty_witness:
  "\<exists>p. Client_new 1 (\<lambda>i. 9) 3 2 10 1 = Inr p \<and>
     quitQueued (fold (client_event ([] :: (nat, nat) session list)) [True, True, False, False] (pr_client p)) = 1"
proof -
  obtain p where p: "Client_new 1 (\<lambda>i. 9) 3 2 10 1 = Inr p" "numConnected (pr_client p) = 0" "quitQueued (pr_client p) = 0"
    by (simp add: Client_new_def tp_start_def EventLoopThreadPool_new_def start_threads_none getNextLoop_def atomic_init_def numeral_2_eq_2)
  have "level_ok 2 0 [True, True, False, False]" "(2 :: nat) < 2 ^ 31" by simp_all
  from client_quits_when_empty [OF this p(2,3), of "[] :: (nat, nat) session list" 2] p(1) show ?thesis
    by (simp add: numeral_2_eq_2)
qed

end
