(* ===== verification/Test_Servers.thy ===== *)
theory Test_Servers
  imports Connection_Capacity TcpServer Text_Format
begin

text \<open>
  The test servers \<^verbatim>\<open>testTcpServerChargen.cc\<close>, \<^verbatim>\<open>testTcpConnectionSend.cc\<close> and \<^verbatim>\<open>testTcpServerDiscard.cc\<close>:
  their callbacks, run where a connection calls them. What they print is left out. With \<^verbatim>\<open>testBuffer.cc\<close>, which prints
  what it reads.
\<close>

section \<open>Write-complete callbacks and shutdowns\<close>

text \<open>How many write-complete callbacks a connection has queued.\<close>

definition completions :: "('cb, 'k) tcp_connection \<Rightarrow> nat" where
  "completions s = length (filter ((=) WriteCompleteCallback) (calls s))"

definition waits :: "('cb, 'k) tcp_connection \<Rightarrow> nat" where
  "waits s = (if readable (outputBuffer s) = [] then 0 else 1)"

text \<open>
  In an open connection, of the write-complete callbacks and the bytes that wait there is always the same number:
  a callback is queued exactly when the last byte goes out.
\<close>

lemma completions_queue:
  "calls s' = calls (queue_writeComplete s) \<Longrightarrow> hasWriteCompleteCallback s \<Longrightarrow> completions s' = Suc (completions s)"
  by (simp add: completions_def queue_writeComplete_def)

lemma send_completes:
  assumes sys: "epoll_ctl_ok sys" and inv: "conn_inv sys s" and s: "\<not> closed s" "hasWriteCompleteCallback s" "readable (outputBuffer s) = []"
    and m: "m \<noteq> []" "length m \<le> max_size" and w: "write_ok (length m) w" and run: "sendInLoop sys True w m s = Inr s'"
  shows "completions s' + waits s' = Suc (completions s)" "hasWriteCompleteCallback s'" "fins s' = fins s" "\<not> closed s'"
proof -
  have direct: "\<not> writing s" "readableBytes (outputBuffer s) = 0" using conn_inv_output [OF inv] s by (auto simp: readableBytes_zero)
  note sig = sendInLoop_signals [OF run inv]
  show "hasWriteCompleteCallback s'" "fins s' = fins s" "\<not> closed s'" using sig s(1,2) sendInLoop_wire [OF run] by auto
  show "completions s' + waits s' = Suc (completions s)"
  proof (cases "direct_count s w < length m")
    case True
    obtain b where b: "append_buffer (drop (direct_count s w) m) (outputBuffer s) = Inr b"
      using run sendInLoop_rest [OF inv True] by auto
    let ?s = "(after_write (direct_count s w) m s)\<lparr>outputBuffer := b\<rparr>"
    have "readable b \<noteq> []" using after_append_ok [OF inv True m(2) b] by (simp add: Let_def)
    moreover have "outputBuffer s' = b"
      using run b sendInLoop_rest [OF inv True] direct(1) request_outputBuffer [of sys True EnableWriting "conn_channel s" ?s s']
      by (simp add: Let_def after_write_def)
    moreover have "calls s' = calls s" using sig True by simp
    ultimately show ?thesis by (simp add: completions_def waits_def)
  next
    case False
    then have "\<exists>n. w = Wrote n" using m(1) direct by (cases w) (simp_all add: direct_count_def)
    then have "calls s' = calls (queue_writeComplete s)" using sig False direct by auto
    moreover have "outputBuffer s' = outputBuffer s"
      using sendInLoop_all_written [OF inv w] False run by (auto simp: after_write_def)
    ultimately show ?thesis using completions_queue [of s' s] s by (simp add: waits_def)
  qed
qed

lemma handleWrite_completes:
  assumes sys: "epoll_ctl_ok sys" and inv: "conn_inv sys s" and s: "\<not> closed s" "hasWriteCompleteCallback s"
    and w: "write_ok (length (readable (outputBuffer s))) w" and run: "conn_handleWrite sys True w s = Inr s'"
  shows "completions s' + waits s' = completions s + waits s" "hasWriteCompleteCallback s'" "\<not> closed s'"
proof -
  have inv': "conn_inv sys s'" using conn_handleWrite_ok [OF sys inv w] run by auto
  show "\<not> closed s'" using handleWrite_wire [OF run] s(1) by simp
  have out: "readableBytes (outputBuffer s') = 0 \<longleftrightarrow> readable (outputBuffer s') = []"
    using conn_inv_output [OF inv'] by (simp add: readableBytes_zero)
  note sig = handleWrite_signals [OF run]
  show "hasWriteCompleteCallback s'" using sig s(2) by auto
  show "completions s' + waits s' = completions s + waits s"
  proof (cases "s' = s")
    case False
    then have "readable (outputBuffer s) \<noteq> []" using sig s(1) conn_inv_output [OF inv] by blast
    then show ?thesis
      using False sig out completions_queue [OF _ s(2), of s'] by (auto simp: waits_def completions_def split: if_splits)
  qed simp
qed

section \<open>Character generator\<close>

text \<open>The message: the 94 printing characters twice, and from it 94 lines of 72 characters, each starting one further.\<close>

definition chargen_line :: "byte list" where
  "chargen_line = (let line = map word_of_nat [33..<127] in line @ line)"

definition substr :: "nat \<Rightarrow> nat \<Rightarrow> byte list \<Rightarrow> byte list" where
  "substr pos n str = take n (drop pos str)"

definition chargen_msg :: "byte list" where
  "chargen_msg = fold (\<lambda>i msg. msg @ substr i 72 chargen_line) [0..<127 - 33] []"

definition chargen_onConnection :: "'k epoll_sys \<Rightarrow> syswrite \<Rightarrow> ('cb, 'k) tcp_connection \<Rightarrow> ('cb, 'k) tcp_connection result" where
  "chargen_onConnection sys w c = (if conn_state c = kConnected then conn_send sys True w chargen_msg c else Inr c)"

definition chargen_onWriteComplete :: "'k epoll_sys \<Rightarrow> syswrite \<Rightarrow> ('cb, 'k) tcp_connection \<Rightarrow> ('cb, 'k) tcp_connection result" where
  "chargen_onWriteComplete sys w c = conn_send sys True w chargen_msg c"

text \<open>The message callback of the character generator and of the discard server.\<close>

definition discard_onMessage :: "('cb, 'k) tcp_connection \<Rightarrow> ('cb, 'k) tcp_connection result" where
  "discard_onMessage c = rbind (retrieveAll (inputBuffer c)) (\<lambda>b.
     Inr (c\<lparr>inputBuffer := b, consumed := consumed c @ readable (inputBuffer c)\<rparr>))"

definition discard_reads :: "'k epoll_sys \<Rightarrow> timestamp \<Rightarrow> byte list \<Rightarrow> ('cb, 'k) tcp_connection \<Rightarrow> ('cb, 'k) tcp_connection result" where
  "discard_reads sys t d c = rbind (conn_handleRead sys True t (ReadData d) c) (\<lambda>c.
     if d \<noteq> [] \<and> hasMessageCallback c then discard_onMessage c else Inr c)"

text \<open>A connection of the generator, with the number of write-complete callbacks that have run.\<close>

record ('cb, 'k) chargen =
  cg_conn :: "('cb, 'k) tcp_connection"
  completed :: nat

datatype cg_event = CgRoom syswrite | CgComplete syswrite | CgReads timestamp "byte list"

fun cg_step :: "'k epoll_sys \<Rightarrow> cg_event \<Rightarrow> ('cb, 'k) chargen \<Rightarrow> ('cb, 'k) chargen result" where
  "cg_step sys (CgRoom w) s = rbind (conn_handleWrite sys True w (cg_conn s)) (\<lambda>c. Inr (s\<lparr>cg_conn := c\<rparr>))"
| "cg_step sys (CgComplete w) s = rbind (chargen_onWriteComplete sys w (cg_conn s)) (\<lambda>c.
     Inr (s\<lparr>cg_conn := c, completed := Suc (completed s)\<rparr>))"
| "cg_step sys (CgReads t d) s = rbind (discard_reads sys t d (cg_conn s)) (\<lambda>c. Inr (s\<lparr>cg_conn := c\<rparr>))"

text \<open>A callback runs only when it is queued; the peer keeps the connection open.\<close>

fun cg_ok :: "cg_event \<Rightarrow> ('cb, 'k) chargen \<Rightarrow> bool" where
  "cg_ok (CgRoom w) s = write_ok (length (readable (outputBuffer (cg_conn s)))) w"
| "cg_ok (CgComplete w) s = (completed s < completions (cg_conn s) \<and> write_ok (length chargen_msg) w)"
| "cg_ok (CgReads t d) s = (d \<noteq> [] \<and> length d \<le> 1024)"

definition cg_inv :: "'k epoll_sys \<Rightarrow> ('cb, 'k) chargen \<Rightarrow> bool" where
  "cg_inv sys s \<longleftrightarrow> conn_inv sys (cg_conn s) \<and> conn_state (cg_conn s) = kConnected \<and> \<not> closed (cg_conn s) \<and>
     hasWriteCompleteCallback (cg_conn s) \<and> hasMessageCallback (cg_conn s) \<and> readable (inputBuffer (cg_conn s)) = [] \<and>
     completions (cg_conn s) + waits (cg_conn s) = Suc (completed s) \<and>
     accepted (cg_conn s) = concat (replicate (Suc (completed s)) chargen_msg)"

lemma fold_append: "fold (\<lambda>i acc. acc @ f i) xs acc = acc @ concat (map f xs)"
  by (induction xs arbitrary: acc) simp_all

text \<open>Each line as a row of the printing characters, shifted.\<close>

definition chargen_row :: "nat \<Rightarrow> byte list" where
  "chargen_row i = map (\<lambda>j. word_of_nat (33 + (i + j) mod 94)) [0..<72]"

lemma chargen_line_nth:
  assumes "k < 188"
  shows "chargen_line ! k = word_of_nat (33 + k mod 94)"
proof -
  let ?xs = "map word_of_nat [33..<127] :: byte list"
  have line: "chargen_line = ?xs @ ?xs" by (simp only: chargen_line_def Let_def)
  have len: "length ?xs = 94" by simp
  have nth: "?xs ! j = word_of_nat (33 + j)" if "j < 94" for j using that by (simp del: upt_conv_Cons upt_rec_numeral)
  show ?thesis
  proof (cases "k < 94")
    case True
    then show ?thesis unfolding line nth_append len using nth by (simp del: upt_conv_Cons upt_rec_numeral)
  next
    case False
    then have "k mod 94 = k - 94" using assms by (simp add: mod_if)
    then show ?thesis unfolding line nth_append len using False assms nth [of "k - 94"] by (simp del: upt_conv_Cons upt_rec_numeral)
  qed
qed

lemma chargen_line_length: "length chargen_line = 188"
  by (simp add: chargen_line_def Let_def)

lemma substr_line:
  assumes "i < 94"
  shows "substr i 72 chargen_line = chargen_row i"
proof (rule nth_equalityI)
  show "length (substr i 72 chargen_line) = length (chargen_row i)"
    using assms by (simp add: substr_def chargen_row_def chargen_line_length)
  fix j assume "j < length (substr i 72 chargen_line)"
  then have "j < 72" by (simp add: substr_def)
  then show "substr i 72 chargen_line ! j = chargen_row i ! j"
    using assms chargen_line_nth [of "i + j"] by (simp add: substr_def chargen_row_def chargen_line_length del: upt_rec_numeral)
qed

lemma chargen_msg_rows: "chargen_msg = concat (map chargen_row [0..<94])"
proof -
  have "map (\<lambda>i. substr i 72 chargen_line) [0..<94] = map chargen_row [0..<94]"
    by (rule map_cong [OF refl]) (simp add: substr_line del: upt_rec_numeral)
  moreover have "127 - 33 = (94 :: nat)" by simp
  ultimately show ?thesis unfolding chargen_msg_def fold_append by (simp only: append_Nil)
qed

lemma chargen_msg_length: "length chargen_msg = 6768"
proof -
  have "map (length \<circ> chargen_row) [0..<94] = replicate 94 72"
    by (rule nth_equalityI) (simp_all add: chargen_row_def)
  then show ?thesis by (simp add: chargen_msg_rows length_concat sum_list_replicate)
qed

text \<open>A block that is read and thrown away.\<close>

lemma conn_handleRead_data:
  assumes "conn_handleRead sys True t (ReadData d) c = Inr c1" "d \<noteq> []"
  obtains b cs where "c1 = c\<lparr>inputBuffer := b, received := received c @ d, calls := cs\<rparr>" "completions c1 = completions c"
proof -
  obtain e b where b: "readFd (ReadData d) (inputBuffer c) = Inr (int (length d), e, b)"
    using assms(1) by (auto simp: conn_handleRead_def readFd_def Let_def split: if_splits)
  let ?cs = "if hasMessageCallback c then calls c @ [MessageCallback t] else calls c"
  have "c1 = c\<lparr>inputBuffer := b, received := received c @ d, calls := ?cs\<rparr>"
    using assms b by (auto simp: conn_handleRead_def received_bytes_def Let_def)
  then show ?thesis using that by (simp add: completions_def)
qed

lemma discard_onMessage_ok:
  assumes inv: "conn_inv sys c"
  obtains b where "discard_onMessage c = Inr (c\<lparr>inputBuffer := b, consumed := received c\<rparr>)" "readable b = []"
    "conn_inv sys (c\<lparr>inputBuffer := b, consumed := received c\<rparr>)" "retrieveAll (inputBuffer c) = Inr b"
proof -
  have str: "buf_inv (inputBuffer c)" "consumed c @ readable (inputBuffer c) = received c"
    using inv by (simp_all add: conn_inv_def streams_ok_def)
  obtain b where b: "retrieveAll (inputBuffer c) = Inr b" "buf_inv b" "readable b = []" by (rule retrieveAll_correct [OF str(1)])
  have "conn_inv sys (c\<lparr>inputBuffer := b, consumed := received c\<rparr>)"
    using inv b(2,3) by (auto simp: conn_inv_def streams_ok_def open_ok_def)
  then show ?thesis using that [OF _ b(3) _ b(1)] b(1) str(2) by (simp add: discard_onMessage_def)
qed

lemma discard_reads_effect:
  assumes sys: "epoll_ctl_ok sys" and inv: "conn_inv sys c" and d: "d \<noteq> []" "length d \<le> max_size" and cb: "hasMessageCallback c"
    and run: "discard_reads sys t d c = Inr c'"
  obtains b cs where "c' = c\<lparr>inputBuffer := b, received := received c @ d, calls := cs, consumed := received c @ d\<rparr>"
    "conn_inv sys c'" "readable b = []" "completions c' = completions c"
proof -
  obtain c1 where c1: "conn_handleRead sys True t (ReadData d) c = Inr c1" using run by (auto simp: discard_reads_def)
  then obtain b cs where b: "c1 = c\<lparr>inputBuffer := b, received := received c @ d, calls := cs\<rparr>" "completions c1 = completions c"
    using d(1) by (rule conn_handleRead_data)
  have inv1: "conn_inv sys c1" by (rule conn_handleRead_inv [OF sys inv _ c1]) (simp add: received_bytes_def d(2))
  obtain b' where b': "discard_onMessage c1 = Inr (c1\<lparr>inputBuffer := b', consumed := received c1\<rparr>)" "readable b' = []"
    "conn_inv sys (c1\<lparr>inputBuffer := b', consumed := received c1\<rparr>)" by (rule discard_onMessage_ok [OF inv1])
  have c': "c' = c1\<lparr>inputBuffer := b', consumed := received c1\<rparr>" using run c1 d(1) cb b(1) b'(1) by (simp add: discard_reads_def)
  show ?thesis by (rule that [of cs b']) (use c' b b'(2,3) in \<open>simp_all add: completions_def\<close>)
qed

lemma chargen_small: "chargen_msg \<noteq> []" "length chargen_msg \<le> max_size" "1024 \<le> max_size"
  using chargen_msg_length by (auto simp: max_size_def)

lemma chargen_send:
  assumes sys: "epoll_ctl_ok sys" and inv: "conn_inv sys c" and c: "\<not> closed c" "hasWriteCompleteCallback c" "readable (outputBuffer c) = []"
    "conn_state c = kConnected" and w: "write_ok (length chargen_msg) w" and run: "sendInLoop sys True w chargen_msg c = Inr c'"
  shows "conn_inv sys c'" "conn_state c' = kConnected" "\<not> closed c'" "hasWriteCompleteCallback c'"
    "completions c' + waits c' = Suc (completions c)" "accepted c' = accepted c @ chargen_msg"
  using send_completes [OF sys inv c(1-3) chargen_small(1,2) w run] sendInLoop_inv [OF sys inv w chargen_small(2) run]
    sendInLoop_accepts [OF sys inv w chargen_small(2) run] c(4) by auto

lemma concat_replicate_snoc: "concat (replicate n xs) @ xs = xs @ concat (replicate n xs)"
  by (induction n) simp_all

lemma cg_step_inv:
  assumes sys: "epoll_ctl_ok sys" and inv: "cg_inv sys s" and ok: "cg_ok ev s" and run: "cg_step sys ev s = Inr s'"
  shows "cg_inv sys s'"
proof -
  let ?c = "cg_conn s"
  have c: "conn_inv sys ?c" "conn_state ?c = kConnected" "\<not> closed ?c" "hasWriteCompleteCallback ?c" "hasMessageCallback ?c"
    "readable (inputBuffer ?c) = []" and count: "completions ?c + waits ?c = Suc (completed s)"
    and acc: "accepted ?c = concat (replicate (Suc (completed s)) chargen_msg)" using inv by (simp_all add: cg_inv_def)
  show ?thesis
  proof (cases ev)
    case (CgRoom w)
    then obtain c' where c': "conn_handleWrite sys True w ?c = Inr c'" "s' = s\<lparr>cg_conn := c'\<rparr>" using run by auto
    have w: "write_ok (length (readable (outputBuffer ?c))) w" using ok CgRoom by simp
    have "conn_inv sys c'" using conn_handleWrite_ok [OF sys c(1) w] c'(1) by auto
    then show ?thesis
      using c'(2) handleWrite_completes [OF sys c(1,3,4) w c'(1)] conn_handleWrite_fields [OF sys c(1) c'(1)] handleWrite_input_side [OF c'(1)]
        c count acc by (simp add: cg_inv_def input_side_def)
  next
    case (CgComplete w)
    then obtain c' where c': "sendInLoop sys True w chargen_msg ?c = Inr c'" "s' = s\<lparr>cg_conn := c', completed := Suc (completed s)\<rparr>"
      using run c(2) by (auto simp: chargen_onWriteComplete_def conn_send_def)
    have w: "write_ok (length chargen_msg) w" and empty: "readable (outputBuffer ?c) = []" "completions ?c = Suc (completed s)"
      using ok CgComplete count by (auto simp: waits_def split: if_splits)
    note sent = chargen_send [OF sys c(1,3,4) empty(1) c(2) w c'(1)]
    have "concat (replicate (Suc (completed s)) chargen_msg) @ chargen_msg = concat (replicate (Suc (Suc (completed s))) chargen_msg)"
      using concat_replicate_snoc [of "completed s" chargen_msg] by simp
    then show ?thesis
      using c'(2) sent sendInLoop_input_side [OF c'(1)] c(5,6) empty(2) acc by (simp add: cg_inv_def input_side_def)
  next
    case (CgReads t d)
    then obtain c' where c': "discard_reads sys t d ?c = Inr c'" "s' = s\<lparr>cg_conn := c'\<rparr>" using run by auto
    have d: "d \<noteq> []" "length d \<le> max_size" using ok CgReads chargen_small(3) by auto
    obtain b cs where "c' = ?c\<lparr>inputBuffer := b, received := received ?c @ d, calls := cs, consumed := received ?c @ d\<rparr>"
      "conn_inv sys c'" "readable b = []" "completions c' = completions ?c"
      by (rule discard_reads_effect [OF sys c(1) d c(5) c'(1)])
    then show ?thesis using c'(2) c count acc by (simp add: cg_inv_def waits_def)
  qed
qed

interpretation cg: machine "cg_step sys" cg_ok "\<lambda>s. epoll_ctl_ok sys \<and> cg_inv sys s" for sys
  by unfold_locales (use cg_step_inv in blast)

text \<open>With room for the whole message in the output buffer the generator cannot abort.\<close>

definition cg_roomy :: "('cb, 'k) chargen \<Rightarrow> bool" where
  "cg_roomy s \<longleftrightarrow> room_for 6768 (outputBuffer (cg_conn s)) \<and> room_for 1024 (inputBuffer (cg_conn s))"

lemma discard_reads_room:
  assumes inv: "conn_inv sys c" and sys: "epoll_ctl_ok sys" and room: "room_for N (inputBuffer c)" "readable (inputBuffer c) = []"
    and d: "d \<noteq> []" "length d \<le> N" and cb: "hasMessageCallback c"
  obtains c' where "discard_reads sys t d c = Inr c'" "room_for N (inputBuffer c')"
proof -
  obtain b cs where b: "conn_handleRead sys True t (ReadData d) c = Inr (c\<lparr>inputBuffer := b, received := received c @ d, calls := cs\<rparr>)" "room_for N b"
    by (rule conn_handleRead_room [OF room(1) _ d(1)]) (use room(2) d(2) in auto)
  let ?c1 = "c\<lparr>inputBuffer := b, received := received c @ d, calls := cs\<rparr>"
  have "length d \<le> max_size" using d(2) room_forD(4) [OF room(1)] by simp
  then have inv1: "conn_inv sys ?c1" using conn_handleRead_inv [OF sys inv _ b(1)] by (simp add: received_bytes_def)
  obtain b' where b': "discard_onMessage ?c1 = Inr (?c1\<lparr>inputBuffer := b', consumed := received ?c1\<rparr>)" "retrieveAll (inputBuffer ?c1) = Inr b'"
    by (rule discard_onMessage_ok [OF inv1])
  have "room_for N b'" using b'(2) retrieve_keeps_room [OF _ b(2)] by (simp add: retrieveAll_def)
  then show ?thesis using that b(1) b'(1) d(1) cb by (simp add: discard_reads_def)
qed

lemma cg_step_roomy:
  assumes sys: "epoll_ctl_ok sys" and inv: "cg_inv sys s" and room: "cg_roomy s" and ok: "cg_ok ev s"
  obtains s' where "cg_step sys ev s = Inr s'" "cg_roomy s'"
proof -
  let ?c = "cg_conn s"
  have c: "conn_inv sys ?c" "conn_state ?c = kConnected" "hasMessageCallback ?c" "readable (inputBuffer ?c) = []"
    and r: "room_for 6768 (outputBuffer ?c)" "room_for 1024 (inputBuffer ?c)" using inv room by (simp_all add: cg_inv_def cg_roomy_def)
  show ?thesis
  proof (cases ev)
    case (CgRoom w)
    then obtain c' where c': "conn_handleWrite sys True w ?c = Inr c'" using conn_handleWrite_ok [OF sys c(1)] ok by auto
    then show ?thesis
      using that CgRoom handleWrite_keeps_room [OF c' r(1)] handleWrite_input_side [OF c'] r(2) by (simp add: cg_roomy_def input_side_def)
  next
    case (CgComplete w)
    then have w: "write_ok (length chargen_msg) w" "readable (outputBuffer ?c) = []"
      using ok inv by (auto simp: cg_inv_def waits_def split: if_splits)
    obtain c' where c': "sendInLoop sys True w chargen_msg ?c = Inr c'" "room_for 6768 (outputBuffer c')"
      by (rule sendInLoop_room [OF sys c(1) r(1) w(1)]) (use w(2) chargen_msg_length in simp)
    then show ?thesis
      using that CgComplete c(2) sendInLoop_input_side [OF c'(1)] r(2)
      by (simp add: cg_roomy_def input_side_def chargen_onWriteComplete_def conn_send_def)
  next
    case (CgReads t d)
    then obtain c' where c': "discard_reads sys t d ?c = Inr c'" "room_for 1024 (inputBuffer c')"
      using discard_reads_room [OF c(1) sys r(2) c(4), of d t] c(3) ok by auto
    have "length d \<le> max_size" "d \<noteq> []" using CgReads ok chargen_small(3) by auto
    then have "outputBuffer c' = outputBuffer ?c" using discard_reads_effect [OF sys c(1) _ _ c(3) c'(1)] by fastforce
    then show ?thesis using that CgReads c' r(1) by (simp add: cg_roomy_def)
  qed
qed

interpretation cgr: total_machine "cg_step sys" cg_ok "\<lambda>s. epoll_ctl_ok sys \<and> cg_inv sys s \<and> cg_roomy s" for sys
proof unfold_locales
  show "epoll_ctl_ok sys \<and> cg_inv sys s' \<and> cg_roomy s'"
    if "epoll_ctl_ok sys \<and> cg_inv sys s \<and> cg_roomy s" "cg_ok ev s" "cg_step sys ev s = Inr s'" for s ev s'
    using that cg_step_inv [of sys s ev s'] cg_step_roomy [of sys s ev] by (metis Inr_inject)
  show "\<exists>s'. cg_step sys ev s = Inr s'" if "epoll_ctl_ok sys \<and> cg_inv sys s \<and> cg_roomy s" "cg_ok ev s" for s ev
    using that cg_step_roomy [of sys s ev] by metis
qed

lemma chargen_start:
  assumes sys: "epoll_ctl_ok sys" and c: "ready sys c" and w: "write_ok (length chargen_msg) w" and run: "chargen_onConnection sys w c = Inr c'"
  shows "cg_inv sys \<lparr>cg_conn = c', completed = 0\<rparr>" "inputBuffer c' = inputBuffer c"
proof -
  have R: "conn_inv sys c" "conn_state c = kConnected" "\<not> closed c" "hasMessageCallback c" "hasWriteCompleteCallback c"
    "readable (outputBuffer c) = []" "readable (inputBuffer c) = []" "accepted c = []" "completions c = 0"
    using c by (auto simp: ready_defs completions_def filter_empty_conv)
  have send: "sendInLoop sys True w chargen_msg c = Inr c'" using run R(2) by (simp add: chargen_onConnection_def conn_send_def)
  note sent = chargen_send [OF sys R(1,3,5,6,2) w send]
  show "cg_inv sys \<lparr>cg_conn = c', completed = 0\<rparr>" "inputBuffer c' = inputBuffer c"
    using sent sendInLoop_input_side [OF send] R by (simp_all add: cg_inv_def input_side_def)
qed

text \<open>A kernel that takes the whole message.\<close>

lemma chargen_send_all:
  assumes "conn_inv sys c" "\<not> closed c" "readable (outputBuffer c) = []"
  obtains c' where "sendInLoop sys True (Wrote 6768) chargen_msg c = Inr c'" "readable (outputBuffer c') = []"
proof -
  have "direct_count c (Wrote 6768) = 6768" using assms conn_inv_output [OF assms(1)] by (simp add: direct_count_def readableBytes_zero)
  then show ?thesis
    using that sendInLoop_all_written [OF assms(1), of chargen_msg "Wrote 6768"] assms(3) chargen_msg_length
    by (auto simp: write_ok_def after_write_def)
qed

section \<open>Properties of the character generator\<close>



text \<open>
  The character generator can abort on its first write: when the kernel takes 5736 to 5743 of the 6768
  bytes of the message, the rest falls into the gap of \<^verbatim>\<open>ensureWritableBytes\<close> and an assertion fails.
\<close>

theorem chargen_first_write_aborts:
  assumes "conn_inv sys c" "conn_state c = kConnected" "\<not> writing c" "Buffer_new = Inr (outputBuffer c)" "5736 \<le> n" "n \<le> 5743"
  shows "chargen_onConnection sys (Wrote n) c = Inl AssertFailure"
proof -
  have b: "buf_inv (outputBuffer c)" "unat (readerIndex (outputBuffer c)) = 8" "unat (writerIndex (outputBuffer c)) = 8"
    "length (vec (outputBuffer c)) = 1032" using Buffer_new_correct [OF assms(4)] by simp_all
  have "readableBytes (outputBuffer c) = 0" using Buffer_new_correct(1,2) [OF assms(4)] by (simp add: readableBytes_zero)
  then have n: "direct_count c (Wrote n) = n" using assms(3) by (simp add: direct_count_def)
  have "append_buffer (drop n chargen_msg) (outputBuffer c) = Inl AssertFailure"
    using b assms(5,6) chargen_msg_length by (intro append_buffer_gap) simp_all
  then have "sendInLoop sys True (Wrote n) chargen_msg c = Inl AssertFailure"
    using sendInLoop_rest [OF assms(1), of "Wrote n" chargen_msg] n assms(6) chargen_msg_length by simp
  then show ?thesis using assms(2) by (simp add: chargen_onConnection_def conn_send_def)
qed

theorem chargen_first_write_aborts_witness:
  "\<exists>s. connectEstablished sample_sys True sample_conn = Inr s \<and> chargen_onConnection sample_sys (Wrote 5740) s = Inl AssertFailure"
proof -
  obtain s where s: "connectEstablished sample_sys True sample_conn = Inr s" "conn_inv sample_sys s" "conn_state s = kConnected"
    "outputBuffer s = sample_buffer" "\<not> writing s"
    using sample_established by blast
  have "Buffer_new = Inr sample_buffer" by (simp add: Buffer_new_fresh sample_buffer_def)
  then show ?thesis using chargen_first_write_aborts [OF s(2,3,5), of 5740] s(1,4) by auto
qed

section \<open>Sending and shutting down\<close>

text \<open>
  \<^verbatim>\<open>main\<close> of \<^verbatim>\<open>testTcpConnectionSend.cc\<close>: the two messages from the arguments. A negative length is a huge size, which
  \<^verbatim>\<open>resize\<close> refuses.
\<close>

definition send_lengths :: "string list \<Rightarrow> int \<times> int" where
  "send_lengths argv = (if length argv > 2 then (atoi (argv ! 1), atoi (argv ! 2)) else (500, 100))"

definition send_messages :: "string list \<Rightarrow> (byte list \<times> byte list) result" where
  "send_messages argv = (case send_lengths argv of (len1, len2) \<Rightarrow>
     rbind (resize (word_of_int len1) []) (\<lambda>msg1. rbind (resize (word_of_int len2) []) (\<lambda>msg2.
       Inr (map (\<lambda>_. 65) msg1, map (\<lambda>_. 66) msg2))))"

text \<open>The number of threads, when there is a third argument; it is read from the first one.\<close>

definition send_threads :: "string list \<Rightarrow> int option" where
  "send_threads argv = (if length argv > 3 then Some (atoi (argv ! 1)) else None)"

definition send_onConnection :: "'k epoll_sys \<Rightarrow> syswrite \<Rightarrow> syswrite \<Rightarrow> byte list \<Rightarrow> byte list \<Rightarrow>
    ('cb, 'k) tcp_connection \<Rightarrow> ('cb, 'k) tcp_connection result" where
  "send_onConnection sys w1 w2 msg1 msg2 c =
     (if conn_state c = kConnected then
        rbind (conn_send sys True w1 msg1 c) (\<lambda>c.
        rbind (conn_send sys True w2 msg2 c) (conn_shutdown True))
      else Inr c)"

definition send_inv :: "'k epoll_sys \<Rightarrow> byte list \<Rightarrow> ('cb, 'k) tcp_connection \<Rightarrow> bool" where
  "send_inv sys m s \<longleftrightarrow> conn_inv sys s \<and> conn_state s = kDisconnecting \<and> \<not> closed s \<and> accepted s = m \<and>
     fins s = (if readable (outputBuffer s) = [] then [(length m, length m)] else [])"

definition room_event_ok :: "syswrite \<Rightarrow> ('cb, 'k) tcp_connection \<Rightarrow> bool" where
  "room_event_ok w s \<longleftrightarrow> write_ok (length (readable (outputBuffer s))) w"

lemma send_step:
  assumes sys: "epoll_ctl_ok sys" and inv: "send_inv sys m s" and ok: "room_event_ok w s"
  shows "\<exists>s'. conn_handleWrite sys True w s = Inr s' \<and> send_inv sys m s'"
proof -
  have s: "conn_inv sys s" "conn_state s = kDisconnecting" "\<not> closed s" "accepted s = m"
    "fins s = (if readable (outputBuffer s) = [] then [(length m, length m)] else [])" using inv by (simp_all add: send_inv_def)
  obtain s' where s': "conn_handleWrite sys True w s = Inr s'" "conn_inv sys s'"
    using conn_handleWrite_ok [OF sys s(1)] ok by (auto simp: room_event_ok_def)
  have f: "accepted s' = m" "conn_state s' = kDisconnecting" "\<not> closed s'"
    using conn_handleWrite_fields [OF sys s(1) s'(1)] handleWrite_wire [OF s'(1)] s by auto
  have out: "readable (outputBuffer s') \<noteq> [] \<or> fins s' \<noteq> []" "wire s' @ readable (outputBuffer s') = m"
    and zero: "readableBytes (outputBuffer s') = 0 \<longleftrightarrow> readable (outputBuffer s') = []"
    using s'(2) f conn_inv_output [OF s'(2)] by (auto simp: conn_inv_def open_ok_def streams_ok_def readableBytes_zero)
  have "fins s' = (if readable (outputBuffer s') = [] then [(length m, length m)] else [])"
  proof (cases "s' = s")
    case False
    note sig = handleWrite_signals [OF s'(1)]
    then have "fins s = []" using False s(1,3,5) conn_inv_output [OF s(1)] by auto
    then show ?thesis using False sig out zero f(1) by (auto split: if_splits)
  qed (simp add: s(5))
  then show ?thesis using s' f by (auto simp: send_inv_def)
qed

interpretation sd: total_machine "conn_handleWrite sys True" room_event_ok "\<lambda>s. epoll_ctl_ok sys \<and> send_inv sys m s" for sys m
proof unfold_locales
  show "epoll_ctl_ok sys \<and> send_inv sys m s'"
    if "epoll_ctl_ok sys \<and> send_inv sys m s" "room_event_ok w s" "conn_handleWrite sys True w s = Inr s'" for s w s'
    using that send_step [of sys m s w] by auto
  show "\<exists>s'. conn_handleWrite sys True w s = Inr s'" if "epoll_ctl_ok sys \<and> send_inv sys m s" "room_event_ok w s" for s w
    using that send_step [of sys m s w] by auto
qed

lemma send_start:
  assumes sys: "epoll_ctl_ok sys" and c: "opened sys c" and len: "length m1 + length m2 \<le> 1024"
    and w: "write_ok (length m1) w1" "write_ok (length m2) w2"
  obtains s where "send_onConnection sys w1 w2 m1 m2 c = Inr s" "send_inv sys (m1 @ m2) s"
proof -
  have R: "conn_inv sys c" "conn_state c = kConnected" "\<not> closed c" "accepted c = []" "fins c = []" "readable (outputBuffer c) = []"
    "room_for 1024 (outputBuffer c)" using c by (simp_all add: opened_def)
  have small: "length m1 \<le> max_size" "length m2 \<le> max_size" using len by (simp_all add: max_size_def)
  obtain c1 where c1: "sendInLoop sys True w1 m1 c = Inr c1" "room_for 1024 (outputBuffer c1)"
    by (rule sendInLoop_room [OF sys R(1,7) w(1)]) (use R(6) len in simp)
  have I1: "conn_inv sys c1" "accepted c1 = m1" "conn_state c1 = kConnected" "fins c1 = []" "\<not> closed c1"
    using sendInLoop_inv [OF sys R(1) w(1) small(1) c1(1)] sendInLoop_accepts [OF sys R(1) w(1) small(1) c1(1)] sendInLoop_signals [OF c1(1) R(1)]
      sendInLoop_wire [OF c1(1)] R by auto
  have "wire c1 @ readable (outputBuffer c1) = m1" using I1(1,2) by (simp add: conn_inv_def streams_ok_def)
  then have "length (readable (outputBuffer c1)) \<le> length m1" by (metis length_append le_add2)
  then obtain c2 where c2: "sendInLoop sys True w2 m2 c1 = Inr c2"
    using sendInLoop_room [OF sys I1(1) c1(2) w(2)] len by (metis add_le_mono1 le_trans)
  have I2: "conn_inv sys c2" "accepted c2 = m1 @ m2" "conn_state c2 = kConnected" "fins c2 = []" "\<not> closed c2"
    using sendInLoop_inv [OF sys I1(1) w(2) small(2) c2] sendInLoop_accepts [OF sys I1(1) w(2) small(2) c2] sendInLoop_signals [OF c2 I1(1)]
      sendInLoop_wire [OF c2] I1 by auto
  obtain ch where ch: "chan c2 (conn_channel c2) = Some ch" using I2(1) chan_ok_channel by (auto simp: conn_inv_def)
  let ?s = "if isWriting ch then c2\<lparr>conn_state := kDisconnecting\<rparr>
    else c2\<lparr>conn_state := kDisconnecting, fins := [(length (wire c2), length (accepted c2))]\<rparr>"
  have run: "conn_shutdown True c2 = Inr ?s" using I2(3,4) ch by (simp add: conn_shutdown_def shutdownInLoop_def load_def)
  have "isWriting ch \<longleftrightarrow> readable (outputBuffer c2) \<noteq> []" "wire c2 @ readable (outputBuffer c2) = m1 @ m2"
    using I2 ch by (auto simp: conn_inv_def open_ok_def streams_ok_def writing_def)
  then have "send_inv sys (m1 @ m2) ?s" using conn_shutdown_inv [OF I2(1) run] I2 by (auto simp: send_inv_def)
  moreover have "send_onConnection sys w1 w2 m1 m2 c = Inr ?s"
    using c1(1) c2 run R(2) I1(3) by (simp add: send_onConnection_def conn_send_def)
  ultimately show ?thesis using that by blast
qed



text \<open>A negative length argument ends the program with an exception.\<close>

lemma send_negative_length:
  assumes "0 < n" "n \<le> 2 ^ 31"
  shows "send_messages [prog, show_int (- n), x] = Inl LengthError"
proof -
  have "atoi (show_int (- n)) = - n" using assms by (intro atoi_show_int) simp_all
  moreover have "\<not> unat (word_of_int (- n) :: size_t) \<le> max_size"
  proof -
    have "(- n) mod 18446744073709551616 = 18446744073709551616 - n" using assms by (simp add: zmod_zminus1_eq_if)
    then have "uint (word_of_int (- n) :: size_t) = 18446744073709551616 - n" by (simp only: uint_word_of_int len_of_numeral_defs) simp
    then have "int max_size < int (unat (word_of_int (- n) :: size_t))" using assms(2) by (simp add: max_size_def del: word_of_int_minus)
    then show ?thesis by (simp only: not_le of_nat_less_iff)
  qed
  ultimately show ?thesis by (simp add: send_messages_def send_lengths_def resize_def del: word_of_int_minus)
qed

section \<open>Discarding\<close>

text \<open>
  The discard server keeps up: blocks of up to 1024 bytes are read and thrown away without a fault, in any number; all of them
  were seen by the message callback, the input buffer is empty afterwards and nothing is sent.
\<close>

theorem discard_keeps_up:
  assumes "epoll_ctl_ok sys" "ready sys c" "\<forall>(t, d) \<in> set blocks. d \<noteq> [] \<and> length d \<le> 1024"
  shows "\<exists>c'. rfold (\<lambda>(t, d). discard_reads sys t d) blocks c = Inr c' \<and> consumed c' = consumed c @ concat (map snd blocks) \<and>
    readable (inputBuffer c') = [] \<and> wire c' = [] \<and> accepted c' = []"
proof -
  let ?I = "\<lambda>c. conn_inv sys c \<and> room_for 1024 (inputBuffer c) \<and> readable (inputBuffer c) = [] \<and> hasMessageCallback c \<and> consumed c = received c"
  have step: "\<exists>c'. discard_reads sys t d c = Inr c' \<and> ?I c' \<and> consumed c' = consumed c @ d \<and> wire c' = wire c \<and> accepted c' = accepted c"
    if I: "?I c" and d: "d \<noteq> []" "length d \<le> 1024" for c t d
  proof -
    obtain c' where c': "discard_reads sys t d c = Inr c'" "room_for 1024 (inputBuffer c')"
      using discard_reads_room [of sys c 1024 d t] I d assms(1) by blast
    obtain b cs where "c' = c\<lparr>inputBuffer := b, received := received c @ d, calls := cs, consumed := received c @ d\<rparr>"
      "conn_inv sys c'" "readable b = []"
      using discard_reads_effect [OF assms(1) _ _ _ _ c'(1)] I d chargen_small(3) by (metis le_trans)
    then show ?thesis using c' I by auto
  qed
  have "\<exists>c'. rfold (\<lambda>(t, d). discard_reads sys t d) blocks c = Inr c' \<and> ?I c' \<and> consumed c' = consumed c @ concat (map snd blocks) \<and>
      wire c' = wire c \<and> accepted c' = accepted c" if "?I c" for c
    using that assms(3)
  proof (induction blocks arbitrary: c)
    case (Cons x xs)
    obtain t d where x: "x = (t, d)" by (cases x)
    obtain c1 where c1: "discard_reads sys t d c = Inr c1" "?I c1" "consumed c1 = consumed c @ d" "wire c1 = wire c" "accepted c1 = accepted c"
      using step [OF Cons.prems(1), of d t] Cons.prems(2) x by auto
    have "\<forall>(t, d) \<in> set xs. d \<noteq> [] \<and> length d \<le> 1024" using Cons.prems(2) by auto
    from Cons.IH [OF c1(2) this] obtain c' where c': "rfold (\<lambda>(t, d). discard_reads sys t d) xs c1 = Inr c'" "?I c'"
      "consumed c' = consumed c1 @ concat (map snd xs)" "wire c' = wire c1" "accepted c' = accepted c1" by blast
    have "consumed c' = consumed c @ concat (map snd (x # xs))" using c'(3) c1(3) x by simp
    then show ?case using c' c1(1,4,5) x by simp
  qed auto
  moreover have "?I c" using assms(2) by (auto simp: ready_defs conn_inv_def streams_ok_def)
  ultimately show ?thesis using assms(2) by (fastforce simp: ready_defs)
qed

theorem discard_keeps_up_witness:
  "\<exists>(c :: (nat, fd \<rightharpoonup> epoll_event) tcp_connection) c'. ready sample_sys c \<and>
     rfold (\<lambda>(t, d). discard_reads sample_sys t d) [(invalid, [1, 2]), (invalid, [3])] c = Inr c' \<and> consumed c' = consumed c @ [1, 2, 3]"
proof -
  obtain c :: "(nat, fd \<rightharpoonup> epoll_event) tcp_connection" where c: "ready sample_sys c" using sample_ready by blast
  have "\<forall>(t, d) \<in> set [(invalid, [1, 2]), (invalid, [3 :: byte])]. d \<noteq> [] \<and> length d \<le> 1024" by simp
  from discard_keeps_up [OF sample_ctl_ok c this] c show ?thesis by auto
qed

section \<open>Reading standard input into a buffer\<close>

text \<open>\<^verbatim>\<open>main\<close> of \<^verbatim>\<open>testBuffer.cc\<close>: what it prints, the error number first if reading failed.\<close>

definition buffer_test_main :: "sysread \<Rightarrow> (int option \<times> byte list) result" where
  "buffer_test_main r =
     rbind Buffer_new (\<lambda>buf.
     rbind (readFd r buf) (\<lambda>(bytes, err, buf).
     rbind (retrieveAsString buf) (\<lambda>(str, buf). Inr (if bytes < 0 then Some err else None, str))))"

lemma buffer_test_prints:
  assumes "length data \<le> 1024 \<or> 1032 < length data" "length data \<le> 1024 + extrabuf_size"
  shows "buffer_test_main (ReadData data) = Inr (None, data)" "buffer_test_main (ReadErr e) = Inr (Some e, [])"
proof -
  obtain b where b: "Buffer_new = Inr b" by (simp add: Buffer_new_fresh)
  note new = Buffer_new_correct [OF b]
  have small: "length data \<le> max_size" using assms(2) by (simp add: extrabuf_size_def max_size_def)
  have "readFd_ok (ReadData data) b"
    using assms new by (auto simp: readFd_ok_def append_ok_def unat_writableBytes unat_size_of extrabuf_size_def max_size_def Let_def)
  then obtain b' where b': "readFd (ReadData data) b = Inr (int (length data), 0, b')" "buf_inv b'" "readable b' = readable b @ data"
    by (rule readFd_correct [OF new(1) small])
  obtain b1 where "retrieveAsString b' = Inr (readable b', b1)" by (rule retrieveAsString_correct [OF b'(2)])
  moreover obtain b2 where "retrieveAsString b = Inr (readable b, b2)" by (rule retrieveAsString_correct [OF new(1)])
  ultimately show "buffer_test_main (ReadData data) = Inr (None, data)" "buffer_test_main (ReadErr e) = Inr (Some e, [])"
    unfolding buffer_test_main_def b using b' new(2) by (simp_all add: readFd_error del: rbind_Inr_iff)
qed

section \<open>The programs\<close>

text \<open>
  \<^verbatim>\<open>main\<close> of the servers, up to the loop: they listen at port 9876 with as many threads as the first argument says, if there is one. The
  loops of the new threads and the answer to \<^verbatim>\<open>listen\<close> are arguments. For \<^verbatim>\<open>testTcpConnectionSend.cc\<close> the messages are made between setting the
  number of threads and starting.
\<close>

definition first_server :: "addr \<Rightarrow> int option \<Rightarrow> tcp_server result" where
  "first_server base threads =
     (let listenAddr = InetAddress_port 9876; server = TcpServer_new base listenAddr in
      case threads of None \<Rightarrow> Inr server | Some n \<Rightarrow> sv_setThreadNum n server)"

definition argv_threads :: "string list \<Rightarrow> int option" where
  "argv_threads argv = (if length argv > 1 then Some (atoi (argv ! 1)) else None)"

definition discard_main :: "addr \<Rightarrow> (int \<Rightarrow> addr) \<Rightarrow> int \<Rightarrow> string list \<Rightarrow> tcp_server result" where
  "discard_main base newLoop r argv =
     rbind (first_server base (argv_threads argv)) (\<lambda>server. sv_start True newLoop r server)"

definition chargen_main :: "addr \<Rightarrow> (int \<Rightarrow> addr) \<Rightarrow> int \<Rightarrow> string list \<Rightarrow> (byte list \<times> tcp_server) result" where
  "chargen_main base newLoop r argv =
     (let msg = chargen_msg in
      rbind (first_server base (argv_threads argv)) (\<lambda>server.
      rbind (sv_start True newLoop r server) (\<lambda>server. Inr (msg, server))))"

definition send_main :: "addr \<Rightarrow> (int \<Rightarrow> addr) \<Rightarrow> int \<Rightarrow> string list \<Rightarrow> ((byte list \<times> byte list) \<times> tcp_server) result" where
  "send_main base newLoop r argv =
     rbind (first_server base (send_threads argv)) (\<lambda>server.
     rbind (send_messages argv) (\<lambda>msgs.
     rbind (sv_start True newLoop r server) (\<lambda>server. Inr (msgs, server))))"

text \<open>The lines that the connection callback of all three prints; \<open>t\<close> is the thread of the loop.\<close>

definition onConnection_line :: "int \<Rightarrow> string \<Rightarrow> sockaddr_in \<Rightarrow> ('cb, 'k) tcp_connection \<Rightarrow> string" where
  "onConnection_line t name peerAddr conn =
     (if conn_state conn = kConnected then
        ''onConnection(): tid '' @ show_int t @ '' new connection ['' @ name @ ''] from '' @ InetAddress_toHostPort peerAddr @ [CHR 0x0A]
      else ''onConnection(): tid='' @ show_int t @ '' connection ['' @ name @ ''] is down'' @ [CHR 0x0A])"

definition threads_or_none :: "int option \<Rightarrow> int" where
  "threads_or_none threads = (case threads of None \<Rightarrow> 0 | Some n \<Rightarrow> n)"

lemma first_server_threads:
  assumes "0 \<le> threads_or_none threads"
  obtains s0 where "first_server base threads = Inr s0"
    "sv_setThreadNum (threads_or_none threads) (TcpServer_new base (InetAddress_port 9876)) = Inr s0"
  using assms by (cases threads)
    (auto simp: first_server_def threads_or_none_def sv_setThreadNum_def TcpServer_new_def tp_setThreadNum_def EventLoopThreadPool_new_def)

lemma test_server_serves:
  assumes n: "0 \<le> threads_or_none threads" and r: "0 \<le> r" and ops: "length ops < 2 ^ 31 - 2"
  obtains s0 s1 s where "first_server base threads = Inr s0" "sv_start True newLoop r s0 = Inr s1" "rfold sv_step ops s1 = Inr s"
    "\<forall>i c. conns s i = Some c \<longrightarrow>
      sc_loop c = (if threads_or_none threads = 0 then base else newLoop (int i mod threads_or_none threads))"
proof -
  obtain s0 where s0: "first_server base threads = Inr s0"
    "sv_setThreadNum (threads_or_none threads) (TcpServer_new base (InetAddress_port 9876)) = Inr s0" by (rule first_server_threads [OF n])
  then have "s0 = (TcpServer_new base (InetAddress_port 9876))\<lparr>sv_pool := tp_setThreadNum (threads_or_none threads) (EventLoopThreadPool_new base)\<rparr>"
    using n by (auto simp: sv_setThreadNum_def TcpServer_new_def)
  then obtain s1 where s1: "sv_start True newLoop r s0 = Inr s1"
    using r by (simp add: sv_start_def TcpServer_new_def tp_start_def tp_setThreadNum_def EventLoopThreadPool_new_def listenOrDie_def)
  from server_run [OF s0(2) s1 ops] that s0(1) s1 show ?thesis by blast
qed

text \<open>
  The discard server and the generator serve their connections with the number of threads of their argument in turn, or in the base loop
  without one; a negative number ends them with a failed assertion.
\<close>

theorem test_servers_serve:
  assumes "- (2 ^ 31) \<le> n" "n < 2 ^ 31" "0 \<le> r" "length ops < 2 ^ 31 - 2"
  shows "if 0 \<le> n
    then \<exists>s1 s. discard_main base newLoop r [prog, show_int n] = Inr s1 \<and> chargen_main base newLoop r [prog, show_int n] = Inr (chargen_msg, s1) \<and>
      rfold sv_step ops s1 = Inr s \<and> (\<forall>i c. conns s i = Some c \<longrightarrow> sc_loop c = (if n = 0 then base else newLoop (int i mod n)))
    else discard_main base newLoop r [prog, show_int n] = Inl AssertFailure \<and> chargen_main base newLoop r [prog, show_int n] = Inl AssertFailure"
proof -
  have argv: "argv_threads [prog, show_int n] = Some n" using assms(1,2) by (simp add: argv_threads_def atoi_show_int)
  show ?thesis
  proof (cases "0 \<le> n")
    case True
    obtain s0 s1 s where "first_server base (Some n) = Inr s0" "sv_start True newLoop r s0 = Inr s1" "rfold sv_step ops s1 = Inr s"
      "\<forall>i c. conns s i = Some c \<longrightarrow> sc_loop c = (if n = 0 then base else newLoop (int i mod n))"
      using test_server_serves [of "Some n" r ops base newLoop] True assms(3,4) unfolding threads_or_none_def option.case by blast
    then show ?thesis using True by (simp add: discard_main_def chargen_main_def argv Let_def)
  next
    case False
    then show ?thesis by (simp add: discard_main_def chargen_main_def argv first_server_def sv_setThreadNum_def Let_def)
  qed
qed

text \<open>With a third argument the sending server starts as many threads as its first message is long.\<close>

theorem send_main_threads:
  assumes "0 \<le> len1" "len1 < 2 ^ 31" "0 \<le> len2" "len2 < 2 ^ 31" "0 \<le> r" "length ops < 2 ^ 31 - 2"
  shows "\<exists>s1 s. send_main base newLoop r [prog, show_int len1, show_int len2, threads] =
      Inr ((replicate (nat len1) 65, replicate (nat len2) 66), s1) \<and>
    rfold sv_step ops s1 = Inr s \<and> (\<forall>i c. conns s i = Some c \<longrightarrow> sc_loop c = (if len1 = 0 then base else newLoop (int i mod len1)))"
proof -
  have n: "atoi (show_int len1) = len1" "atoi (show_int len2) = len2" using assms(1-4) by (simp_all add: atoi_show_int)
  have size: "unat (word_of_int x :: size_t) = nat x" if "0 \<le> x" "x < 2 ^ 31" for x
  proof -
    have "nat x < 2 ^ 64" using that by simp
    then have "unat (word_of_nat (nat x) :: size_t) = nat x" by (rule unat_of_length)
    then show ?thesis using that(1) by simp
  qed
  have small: "nat x \<le> max_size" if "x < 2 ^ 31" for x using that by (simp add: max_size_def)
  have msgs: "send_messages [prog, show_int len1, show_int len2, threads] = Inr (replicate (nat len1) 65, replicate (nat len2) 66)"
    using assms(1-4) by (simp add: send_messages_def send_lengths_def n resize_def size small map_replicate_const)
  have argv: "send_threads [prog, show_int len1, show_int len2, threads] = Some len1" by (simp add: send_threads_def n)
  obtain s0 s1 s where "first_server base (Some len1) = Inr s0" "sv_start True newLoop r s0 = Inr s1" "rfold sv_step ops s1 = Inr s"
    "\<forall>i c. conns s i = Some c \<longrightarrow> sc_loop c = (if len1 = 0 then base else newLoop (int i mod len1))"
    using test_server_serves [of "Some len1" r ops base newLoop] assms(1,5,6) unfolding threads_or_none_def option.case by blast
  then show ?thesis by (simp add: send_main_def argv msgs)
qed

end
