(* ===== verification/Spec2Isabelle.thy ===== *)
theory Spec2Isabelle
  imports EventLoop Connector Acceptor EventLoopThread EventLoopThreadPool TcpServer TcpClient
    Connection_End Connection_Dispatch Cross_Thread Test_Programs PingPong_System PingPong_Main Test_Servers Test_Timers
begin

text \<open>
  A verification of netfish, a C++ network library in the reactor style for Linux.

  \<^bold>\<open>The program.\<close> An \<^verbatim>\<open>EventLoop\<close> runs in one thread. In each turn it waits in its \<^verbatim>\<open>EPoller\<close> for
  events of descriptors, dispatches them to the callbacks of \<^verbatim>\<open>Channel\<close> objects, and runs the
  functors other threads have queued. Its \<^verbatim>\<open>TimerQueue\<close> turns one kernel timer into many. An
  \<^verbatim>\<open>EventLoopThread\<close> runs a loop in a thread of its own, an \<^verbatim>\<open>EventLoopThreadPool\<close> hands such loops out in
  turn. On top of this, an \<^verbatim>\<open>Acceptor\<close> accepts sockets for a \<^verbatim>\<open>TcpServer\<close>, which makes a
  \<^verbatim>\<open>TcpConnection\<close> in some loop for each, and a \<^verbatim>\<open>Connector\<close> makes the socket for the connection of a
  \<^verbatim>\<open>TcpClient\<close>. A connection reads into and writes from \<^verbatim>\<open>Buffer\<close> objects. The ping-pong programs
  use server and client.

  \<^bold>\<open>How it is modelled.\<close> An object is a record, an operation a function that takes the state and
  returns the new one, or a fault: a failed \<^verbatim>\<open>assert\<close>, \<^verbatim>\<open>abort\<close>, an access outside an array, a
  dangling pointer, an exception of the library, the call of an empty function object. Indices
  and sizes are 64-bit words, masks 32-bit words, signed counters integers with their wrap-around.
  What is not code of the repository is an argument: what \<^verbatim>\<open>read\<close>, \<^verbatim>\<open>write\<close>, \<^verbatim>\<open>accept4\<close>, \<^verbatim>\<open>connect\<close> and the
  other system calls answer, \<^verbatim>\<open>epoll_ctl\<close> and \<^verbatim>\<open>epoll_wait\<close> as functions on a state of the kernel
  (hypotheses \<open>epoll_ctl_ok\<close> and \<open>epoll_wait_ok\<close>, as in their manual pages, which \<open>sample_sys\<close> shows to
  be satisfiable), the clock, the allocator, and what the callbacks of the user do. Components are
  run over arbitrary sequences of operations (\<open>rfold\<close>), and threads over arbitrary interleavings
  (inductive step relations).

  \<^bold>\<open>The theories.\<close>

  \<^item> \<open>Netfish_Prelude\<close>: faults and results, machine integers, segments of lists, and the locales
    \<open>machine\<close> and \<open>total_machine\<close> (a step function with an invariant), which are interpreted for the
    poller, connections, the connector, the server, the client, the ping-pong system and the test servers.
  \<^item> \<open>Buffer\<close> (\<^verbatim>\<open>Buffer.h\<close>, \<^verbatim>\<open>Buffer.cc\<close>): the vector and its two indices, every member function. The
    buffer is a queue of bytes (locale \<open>byte_queue\<close>), appending succeeds exactly under a condition
    that leaves out a gap of eight sizes in which the assertion of \<^verbatim>\<open>ensureWritableBytes\<close> fails.
  \<^item> \<open>Buffer_Capacity\<close>: buffers are memory safe, and a buffer with room for \<open>N\<close> bytes takes any block that leaves at most
    \<open>N\<close> bytes in it without a fault.
  \<^item> \<open>Text_Format\<close>, \<open>Timestamp\<close>, \<open>Atomic\<close>: \<^verbatim>\<open>snprintf\<close> and \<^verbatim>\<open>atoi\<close> as they are used, \<^verbatim>\<open>Timestamp.h\<close>, \<^verbatim>\<open>Timestamp.cc\<close>,
    \<^verbatim>\<open>Atomic.h\<close>; round trips of the texts, and of whole seconds through the doubles of \<^verbatim>\<open>addTime\<close> and \<^verbatim>\<open>timeDifference\<close>.
  \<^item> \<open>Logging\<close> (\<^verbatim>\<open>Logging.h\<close>, \<^verbatim>\<open>Logging.cc\<close>): the level from the environment, what the macros print, and that \<^verbatim>\<open>LOG_FATAL\<close> aborts.
  \<^item> \<open>Std_Set\<close>, \<open>TimerQueue\<close> (\<^verbatim>\<open>Timer\<close>, \<^verbatim>\<open>TimerId\<close>, \<^verbatim>\<open>TimerQueue\<close>): \<^verbatim>\<open>std::set\<close> as the locale \<open>ordered_set\<close>; the
    queue with its heap of timers. No timer is used after it was freed or leaked, whatever the
    callbacks do; exactly the due timers run; the kernel timer is set for the first one.
  \<^item> \<open>Channel\<close> (\<^verbatim>\<open>Channel.h\<close>, \<^verbatim>\<open>Channel.cc\<close>): masks and dispatch, on a store of channel objects.
  \<^item> \<open>EPoller\<close> (\<^verbatim>\<open>EPoller.h\<close>, \<^verbatim>\<open>EPoller.cc\<close>): registration and polling. The interest list of the
    kernel is what the channels ask for.
  \<^item> \<open>EventLoop\<close> (\<^verbatim>\<open>EventLoop.h\<close>, \<^verbatim>\<open>EventLoop.cc\<close>): a turn of the loop is safe when the callbacks are;
    functors run once and in order, and no wake-up is lost, among any number of threads.
  \<^item> \<open>Threads\<close> (\<^verbatim>\<open>Thread\<close>, \<^verbatim>\<open>MutexLock.h\<close>, \<^verbatim>\<open>Condition.h\<close>) and \<open>EventLoopThread\<close>: the constructor of a loop,
    and the two threads of \<^verbatim>\<open>startLoop\<close>, which always ends and returns a living loop.
  \<^item> \<open>EventLoopThreadPool\<close>: round robin.
  \<^item> \<open>Sockets\<close> (\<^verbatim>\<open>SocketsOps\<close>, \<^verbatim>\<open>InetAddress\<close>, \<^verbatim>\<open>Socket\<close>) and \<open>Acceptor\<close>: byte order and the texts of
    addresses, the classes of errors, and what becomes of accepted descriptors.
  \<^item> \<open>TcpConnection\<close>: the states of a connection and its two byte streams, on the real poller. No
    byte is lost, repeated or reordered; an open connection does not stall; tearing down leaves
    nothing registered.
  \<^item> \<open>TcpServer\<close>: names, loops and lifetimes of connections with explicit reference counts; the locale
    \<open>connection_contract\<close> is what the server relies on, interpreted by \<open>TcpConnection\<close>.
  \<^item> \<open>Connector\<close> and \<open>TcpClient\<close>: the connector with its channel on the real poller, its retry timers as
    numbers. No socket is leaked or closed twice, delays double up to their bound, a client has one
    connection at a time.
  \<^item> \<open>Connection_Capacity\<close>: how connections open, and when they cannot abort. \<open>Connection_End\<close>: the destructor, and when a descriptor can be used again.
  \<^item> \<open>Connection_Dispatch\<close>: \<^verbatim>\<open>Channel::handleEvent\<close> with the handlers of a connection as its callbacks. An event keeps the invariant, whatever was
    reported and whatever the user answers, and the end of a stream is handled once and without a fault.
  \<^item> \<open>Cross_Thread\<close>: \<^verbatim>\<open>send\<close> and \<^verbatim>\<open>shutdown\<close> called by any threads, the step relation of \<open>EventLoop\<close> composed with a connection. The messages of each
    thread come out whole, once and in order; a shutdown may overtake them. Also \<^verbatim>\<open>addTimer\<close> called by another thread.
  \<^item> \<open>PingPong\<close>: the server echoes exactly what it receives. \<open>PingPong_System\<close>: a session of the client and its connection in the
    server, joined by a network that delays and cuts; the message goes round for ever and neither side aborts, up to blocks of 1024 bytes.
    \<open>PingPong_Main\<close>: the command lines, and when the client ends.
  \<^item> \<open>Test_Servers\<close> and \<open>Test_Timers\<close>: the character generator, the server that sends and shuts down, the discard server, the
    program that reads into a buffer, the timer that cancels itself and the threads that count. \<open>Test_Programs\<close>: the tests of the pool, the
    loop, a channel on standard input, the acceptor, the connector and the client.

  This theory joins the two sides of outgoing and incoming connections: the socket that a connector or an acceptor hands over becomes
  a connection that is established without a fault.

  \<^bold>\<open>Bounds.\<close> \<open>loop_while\<close> takes a bound on the number of turns and is \<^term>\<open>None\<close> when it is used up: the
  loop of the program ends only when it is told to. Its properties hold for every bound.
  Blocks given to buffers are at most \<open>max_size\<close>, the maximal size of a vector. A server is followed for
  less than \<open>2 ^ 31 - 2\<close> events, before its counter of connections wraps.

  \<^bold>\<open>What modelling showed.\<close> Several theorems state that the code fails: appending to a new buffer in
  the gap of \<^verbatim>\<open>ensureWritableBytes\<close>, a send after the peer has closed, a second close, connecting a
  client twice, starting a connector while a retry is pending, destroying a thread before its
  loop runs, \<^verbatim>\<open>quit\<close> before \<^verbatim>\<open>loop\<close>, the flag that is never cleared, \<^verbatim>\<open>shrink\<close>, the first write of the character generator, the
  destructor of a server with open connections, the counter that is advanced inside a log call, the shutdown that overtakes queued
  messages, the hang-up that closes a connection twice in one event, and the timer that is read after it was freed.

  \<^bold>\<open>Not modelled.\<close> \<^verbatim>\<open>Callbacks.h\<close> and \<^verbatim>\<open>copyable.h\<close> hold type names and an empty class. What programs print is left out, but for the
  lines of the log and of the tests in \<open>Test_Programs\<close>. The ignored signal and the limit on open files change no state of the program. Calls of
  \<^verbatim>\<open>cancel\<close> from another thread arrive as functors. \<open>Cross_Thread\<close> follows a connection while it exists; that a queued functor may outlive its
  connection, to which it has a raw pointer, is shown there for one run.
\<close>

section \<open>From the connector to the connection\<close>

text \<open>
  C25. Outgoing connections open: the socket that a connector hands to the new-connection callback
  is the one of its attempt, and the connection that is then made for it, in the loop of the connector and
  with a channel of its own, is established without a fault: it is connected, satisfies the invariant
  of connections, and the kernel watches the socket for input on behalf of the new channel.
\<close>

theorem outgoing_connection_opens:
  assumes "epoll_ctl_ok sys" "cn_inv sys s" "cn_handleWrite sys err la pa s = Inr s'" "handed s' \<noteq> handed s" "chan s' p = None"
  shows "\<exists>d c0 c. handed s' = handed s @ [d] \<and> attempt s = [d] \<and>
    TcpConnection_new (poller.truncate s') p (TcpConnection_channel (ownerLoop s') d r w cl e) = Inr c0 \<and>
    connectEstablished sys True (conn_setup c0) = Inr c \<and> conn_state c = kConnected \<and> conn_inv sys c \<and>
    interest sys (kernel c) d = Some (kReadEvent, p)"
proof -
  obtain d where d: "handed s' = handed s @ [d]" "attempt s = [d]" "channels_ep s' d = None" "ep_inv sys s'"
    using handed_unregistered [OF assms(1-4)] by blast
  have pl: "ep_inv sys (poller.truncate s')" "chan (poller.truncate s') p = None" "channels_ep (poller.truncate s') d = None"
    using d(3,4) assms(5) ep_inv_fields [of "poller.truncate s'" s' sys] by (simp_all add: poller.defs)
  have "ownerLoop (poller.truncate s') = ownerLoop s'" by (simp add: poller.defs)
  with connection_opens [OF assms(1) pl, of r w cl e] d(1,2) show ?thesis unfolding ready_defs by metis
qed

theorem outgoing_connection_opens_witness:
  "\<exists>s s'. rfold (cn_step sample_sys) [Start (8, 3, 115)] sample_connector = Inr s \<and>
     cn_handleWrite sample_sys 0 None other_addr s = Inr s' \<and>
     (\<exists>c0 c. TcpConnection_new (poller.truncate s') 16 (TcpConnection_channel (ownerLoop s') 3 11 12 13 14) = Inr c0 \<and>
        connectEstablished sample_sys True (conn_setup c0) = Inr c \<and> conn_state c = kConnected)"
proof -
  have "yields {} (\<lambda>s. handed s = [] \<and> yields {} (\<lambda>s'. handed s' = [3] \<and> chan s' 16 = None) (cn_handleWrite sample_sys 0 None other_addr s))
      (rfold (cn_step sample_sys) [Start (8, 3, 115)] sample_connector)"
    by (simp add: sample_connector_def model_eval requested.simps)
  then obtain s s' where s: "rfold (cn_step sample_sys) [Start (8, 3, 115)] sample_connector = Inr s" "handed s = []"
    "cn_handleWrite sample_sys 0 None other_addr s = Inr s'" "handed s' = [3]" "chan s' 16 = None"
    unfolding yields_returns by blast
  have ok: "run_ok cn_ok (cn_step sample_sys) [Start (8, 3, 115)] sample_connector" by (simp add: sample_connector_def model_eval)
  have "cn_inv sample_sys s" by (rule cn_run_inv [OF sample_ctl_ok sample_connector_inv ok s(1)])
  from outgoing_connection_opens [OF sample_ctl_ok this s(3) _ s(5), of 11 12 13 14] s show ?thesis by auto
qed

section \<open>From the acceptor to the connection\<close>

text \<open>
  C26. Incoming connections open: when a started server, whatever has happened to it, accepts a socket, the acceptor
  hands it over with the address of its peer, and the server enters a connection for it into its map, under a new name and in the
  loop whose turn it is. There, in the poller of that loop and with a channel of its own, the connection object is made and
  established without a fault: it is ready, and the kernel watches the socket for input. In the base loop
  that has happened when the callback returns; otherwise the server has queued it in the chosen loop.
\<close>

theorem incoming_connection_opens:
  assumes "epoll_ctl_ok sys" "acc_hasCallback acc" "0 \<le> d"
    and "sv_setThreadNum n (TcpServer_new base addr) = Inr s0" "sv_start True newLoop r s0 = Inr s1"
    and "rfold sv_step ops s1 = Inr s" "length ops < 2 ^ 31 - 3"
    and "ep_inv sys pl" "chan pl p = None" "channels_ep pl d = None"
  shows "\<exists>s' k c0 c. acc_handleRead True (d, errno, peer) acc = Inr (acc\<lparr>given := given acc @ [(d, peer)]\<rparr>) \<and>
    sv_newConnection True d s = Inr s' \<and> conns s' (nextPtr s) = Some k \<and> sc_fd k = d \<and>
    connections s (sc_name k) = None \<and> connections s' (sc_name k) = Some (nextPtr s) \<and>
    sc_loop k = (if n = 0 then base else newLoop (int (nextPtr s) mod n)) \<and>
    TcpConnection_new pl p (TcpConnection_channel (ownerLoop pl) d rd wr cl er) = Inr c0 \<and>
    connectEstablished sys True (conn_setup c0) = Inr c \<and> ready sys c \<and> interest sys (kernel c) d = Some (kReadEvent, p) \<and>
    (if sc_loop k = base then sc_state k = conn_state c else functors s' = functors s @ [(sc_loop k, Establish (nextPtr s))])"
proof -
  note st = sv_start_inv [OF assms(4,5)]
  have few: "nextPtr s < 2 ^ 31 - 2" using few_after [OF assms(6)] assms(7) st(2) by simp
  have inv: "sv_inv s" using sv.run_inv [OF st(1) few_connections assms(6)] assms(7) st(2) by simp
  have base: "sv_base s = base" "loop_for (sv_pool s) = loop_for (sv_pool s1)"
    using sv_run_fixed [OF assms(6)] assms(4,5) by (auto simp: fixed_part_def server_eval split: if_splits)
  obtain m tp where new: "sv_newConnection True d s = Inr (if loop_for (sv_pool s) (nextPtr s) = sv_base s
      then server_added (loop_for (sv_pool s) (nextPtr s)) kConnected d tp [] s
      else server_added (loop_for (sv_pool s) (nextPtr s)) kConnecting d tp [(loop_for (sv_pool s) (nextPtr s), Establish (nextPtr s))] s)"
    by (rule sv_newConnection_run [OF inv few])
  obtain c0 c where c: "TcpConnection_new pl p (TcpConnection_channel (ownerLoop pl) d rd wr cl er) = Inr c0"
    "connectEstablished sys True (conn_setup c0) = Inr c" "ready sys c" "interest sys (kernel c) d = Some (kReadEvent, p)"
    by (rule connection_opens [OF assms(1,8-10)])
  have acc: "acc_handleRead True (d, errno, peer) acc = Inr (acc\<lparr>given := given acc @ [(d, peer)]\<rparr>)"
    using assms(2,3) by (simp add: acc_handleRead_cases)
  have "conn_state c = kConnected" using c(3) by (simp add: ready_defs)
  moreover have "connections s (name_of s (nextPtr s)) = None" using new_name [OF inv few] by simp
  ultimately show ?thesis using acc new c st(4) [of "nextPtr s"] base by (auto simp: server_added_def)
qed

theorem incoming_connection_opens_witness:
  "\<exists>s0 s1 s' c0 c. sv_setThreadNum 2 (TcpServer_new 1 (InetAddress_port 9876)) = Inr s0 \<and>
     sv_start True (\<lambda>i. word_of_int (i + 2)) 0 s0 = Inr s1 \<and> sv_newConnection True 7 s1 = Inr s' \<and>
     TcpConnection_new (EPoller_new 2 Map.empty :: (nat, fd \<rightharpoonup> epoll_event) poller) 16 (TcpConnection_channel 2 7 11 12 13 14) = Inr c0 \<and>
     connectEstablished sample_sys True (conn_setup c0) = Inr c \<and> ready sample_sys c"
proof -
  let ?s0 = "(TcpServer_new 1 (InetAddress_port 9876))\<lparr>sv_pool := tp_setThreadNum 2 (EventLoopThreadPool_new 1)\<rparr>"
  let ?pl = "EPoller_new 2 Map.empty :: (nat, fd \<rightharpoonup> epoll_event) poller"
  let ?acc = "\<lparr>chan = Map.empty, channels_ep = Map.empty, events_size = 16, kernel = Map.empty, ownerLoop = 1,
    acceptSocket = 3, acceptChannel = 8, acc_hasCallback = True, listening = True, given = [], dropped = []\<rparr> :: (nat, fd \<rightharpoonup> epoll_event) acceptor"
  have s0: "sv_setThreadNum 2 (TcpServer_new 1 (InetAddress_port 9876)) = Inr ?s0" by (simp add: sv_setThreadNum_def TcpServer_new_def)
  obtain s1 where s1: "sv_start True (\<lambda>i. word_of_int (i + 2)) 0 ?s0 = Inr s1" by (simp add: server_eval)
  have pl: "ep_inv sample_sys ?pl" "chan ?pl 16 = None" "channels_ep ?pl 7 = None"
    by (simp_all add: EPoller_new_def ep_inv_def interest_of_def sample_sys_def fun_eq_iff)
  have "acc_hasCallback ?acc" "(0 :: int) \<le> 7" "rfold sv_step [] s1 = Inr s1" "length ([] :: sv_op list) < 2 ^ 31 - 3" by simp_all
  from incoming_connection_opens [OF sample_ctl_ok this(1,2) s0 s1 this(3,4) pl, of 0 "InetAddress_port 80" 11 12 13 14] s0 s1
  show ?thesis by (auto simp: EPoller_new_def)
qed

end
